(* ===== verification/Prelude.thy ===== *)
theory Prelude
  imports Main "HOL-Library.List_Lexorder" "HOL-Library.Char_ord" "HOL-Library.Sublist"
    "HOL-Library.Code_Target_Nat" "HOL-Library.AList"
begin

text \<open>
  Shared vocabulary of the development: Rust's fixed-width arithmetic on natural numbers,
  byte strings, decimal printing and parsing, UTF-8 boundaries, and the list idioms
  (retain, drain, find, iter_mut().find) that the components use.

  A Rust \<open>String\<close> is a byte sequence, so it is modelled by \<open>string\<close> (a \<open>char\<close> of HOL is a byte):
  \<open>length\<close> is Rust's \<open>len()\<close> and the order of List_Lexorder is Rust's order on strings.
\<close>

named_theorems wf_intros \<open>preservation of the well-formedness invariants\<close>
named_theorems frame_simps \<open>fields that an operation leaves alone\<close>

section \<open>Fixed-width arithmetic\<close>

definition u64_max :: nat where
  "u64_max = 18446744073709551615"

definition checked_add :: "nat \<Rightarrow> nat \<Rightarrow> nat option" where
  "checked_add a b = (if a + b \<le> u64_max then Some (a + b) else None)"

definition saturating_add :: "nat \<Rightarrow> nat \<Rightarrow> nat" where
  "saturating_add a b = min (a + b) u64_max"

lemma u64_max_pos [simp]: "0 < u64_max"
  by (simp add: u64_max_def)

lemma checked_add_eq_Some [simp]:
  "checked_add a b = Some c \<longleftrightarrow> c = a + b \<and> a + b \<le> u64_max"
  by (auto simp: checked_add_def)

lemma checked_add_eq_None [simp]: "checked_add a b = None \<longleftrightarrow> u64_max < a + b"
  by (auto simp: checked_add_def)

lemma saturating_add_exact: "a + b \<le> u64_max \<Longrightarrow> saturating_add a b = a + b"
  by (simp add: saturating_add_def)

lemma saturating_add_le [simp]: "saturating_add a b \<le> u64_max"
  by (simp add: saturating_add_def)

lemma saturating_add_ge: "a \<le> u64_max \<Longrightarrow> a \<le> saturating_add a b"
  by (simp add: saturating_add_def)

section \<open>Decimal printing and parsing\<close>

definition digit_char :: "nat \<Rightarrow> char" where
  "digit_char d = char_of (48 + d)"

definition digit_val :: "char \<Rightarrow> nat option" where
  "digit_val c = (let n = of_char c :: nat in if 48 \<le> n \<and> n \<le> 57 then Some (n - 48) else None)"

fun show_nat :: "nat \<Rightarrow> string" where
  "show_nat n = (if n < 10 then [digit_char n] else show_nat (n div 10) @ [digit_char (n mod 10)])"

declare show_nat.simps [simp del]

text \<open>\<open>u64::from_str\<close>: an optional plus sign, then one digit or more; overflow is an error.\<close>

fun parse_digits :: "nat \<Rightarrow> string \<Rightarrow> nat option" where
  "parse_digits acc [] = Some acc"
| "parse_digits acc (c # cs) =
     (case digit_val c of
        None \<Rightarrow> None
      | Some d \<Rightarrow> (if acc * 10 + d \<le> u64_max then parse_digits (acc * 10 + d) cs else None))"

definition parse_u64 :: "string \<Rightarrow> nat option" where
  "parse_u64 s =
     (let body = (case s of c # cs \<Rightarrow> if c = CHR ''+'' \<and> cs \<noteq> [] then cs else s | [] \<Rightarrow> [])
      in if body = [] then None else parse_digits 0 body)"

lemma digit_val_digit_char [simp]: "d < 10 \<Longrightarrow> digit_val (digit_char d) = Some d"
  by (simp add: digit_val_def digit_char_def Let_def of_char_of)

lemma digit_char_not_plus [simp]: "d < 10 \<Longrightarrow> digit_char d \<noteq> CHR ''+''"
proof
  assume "d < 10" "digit_char d = CHR ''+''"
  then have "digit_val (CHR ''+'') = Some d" by (metis digit_val_digit_char)
  then show False by (simp add: digit_val_def)
qed

lemma show_nat_nonempty [simp]: "show_nat n \<noteq> []"
  by (subst show_nat.simps) simp

lemma show_nat_digits: "c \<in> set (show_nat n) \<Longrightarrow> \<exists>d < 10. c = digit_char d"
proof (induction n rule: show_nat.induct)
  case (1 n)
  show ?case
  proof (cases "n < 10")
    case True
    with "1.prems" show ?thesis by (auto simp: show_nat.simps [of n])
  next
    case False
    with "1.prems" have "c \<in> set (show_nat (n div 10)) \<or> c = digit_char (n mod 10)"
      by (auto simp: show_nat.simps [of n])
    with "1.IH" [OF False] show ?thesis by (metis mod_less_divisor zero_less_numeral)
  qed
qed

lemma parse_digits_append:
  "parse_digits acc (xs @ ys) =
     (case parse_digits acc xs of None \<Rightarrow> None | Some a \<Rightarrow> parse_digits a ys)"
  by (induction acc xs rule: parse_digits.induct) (auto split: option.splits)

lemma parse_digits_show_nat: "n \<le> u64_max \<Longrightarrow> parse_digits 0 (show_nat n) = Some n"
proof (induction n rule: show_nat.induct)
  case (1 n)
  show ?case
  proof (cases "n < 10")
    case True
    with "1.prems" show ?thesis by (simp add: show_nat.simps [of n])
  next
    case False
    with "1.prems" have "n div 10 \<le> u64_max" by linarith
    with "1.IH" [OF False] False "1.prems" show ?thesis
      by (simp add: show_nat.simps [of n] parse_digits_append)
  qed
qed

lemma parse_u64_show_nat: "n \<le> u64_max \<Longrightarrow> parse_u64 (show_nat n) = Some n"
proof -
  assume le: "n \<le> u64_max"
  obtain c cs where s: "show_nat n = c # cs" by (cases "show_nat n") auto
  then have "c \<noteq> CHR ''+''" using show_nat_digits [of c n] by auto
  with s have "parse_u64 (show_nat n) = parse_digits 0 (show_nat n)"
    by (simp add: parse_u64_def)
  with le show ?thesis by (simp add: parse_digits_show_nat)
qed

lemma parse_digits_le: "parse_digits acc s = Some n \<Longrightarrow> acc \<le> u64_max \<Longrightarrow> n \<le> u64_max"
  by (induction acc s rule: parse_digits.induct) (auto split: option.splits if_splits)

lemma show_nat_inj: "show_nat m = show_nat n \<Longrightarrow> m \<le> u64_max \<Longrightarrow> n \<le> u64_max \<Longrightarrow> m = n"
  by (metis option.inject parse_u64_show_nat)

section \<open>Prefixes and UTF-8 boundaries\<close>

definition starts_with :: "string \<Rightarrow> string \<Rightarrow> bool" where
  "starts_with p s \<longleftrightarrow> take (length p) s = p"

definition strip_prefix :: "string \<Rightarrow> string \<Rightarrow> string option" where
  "strip_prefix p s = (if starts_with p s then Some (drop (length p) s) else None)"

lemma starts_with_append [simp]: "starts_with p (p @ s)"
  by (simp add: starts_with_def)

lemma strip_prefix_append [simp]: "strip_prefix p (p @ s) = Some s"
  by (simp add: strip_prefix_def)

text \<open>A continuation byte is \<open>10xxxxxx\<close>; every other byte starts a code point.\<close>

definition is_continuation :: "char \<Rightarrow> bool" where
  "is_continuation c = (let n = of_char c :: nat in 128 \<le> n \<and> n < 192)"

definition is_char_boundary :: "string \<Rightarrow> nat \<Rightarrow> bool" where
  "is_char_boundary s i \<longleftrightarrow> i = 0 \<or> i = length s \<or> (i < length s \<and> \<not> is_continuation (s ! i))"

text \<open>The loop \<open>while end > 0 && !s.is_char_boundary(end) { end -= 1; }\<close>.\<close>

fun floor_boundary :: "string \<Rightarrow> nat \<Rightarrow> nat" where
  "floor_boundary s 0 = 0"
| "floor_boundary s (Suc i) = (if is_char_boundary s (Suc i) then Suc i else floor_boundary s i)"

lemma floor_boundary_le: "floor_boundary s i \<le> i"
  by (induction s i rule: floor_boundary.induct) auto

lemma floor_boundary_is_boundary: "is_char_boundary s (floor_boundary s i)"
  by (induction s i rule: floor_boundary.induct) (auto simp: is_char_boundary_def)

lemma floor_boundary_greatest:
  "j \<le> i \<Longrightarrow> is_char_boundary s j \<Longrightarrow> j \<le> floor_boundary s i"
  by (induction s i rule: floor_boundary.induct) (auto simp: le_Suc_eq)

text \<open>Well-formed UTF-8 at the level of code-point lengths (lead byte and its continuations).\<close>

definition utf8_width :: "char \<Rightarrow> nat" where
  "utf8_width c = (let n = of_char c :: nat in
     if n < 128 then 1 else if n < 192 then 0 else if n < 224 then 2
     else if n < 240 then 3 else if n < 248 then 4 else 0)"

function utf8_ok :: "string \<Rightarrow> bool" where
  "utf8_ok s =
     (case s of
        [] \<Rightarrow> True
      | c # cs \<Rightarrow> utf8_width c \<noteq> 0 \<and> utf8_width c - 1 \<le> length cs
                 \<and> list_all is_continuation (take (utf8_width c - 1) cs)
                 \<and> utf8_ok (drop (utf8_width c - 1) cs))"
  by pat_completeness auto
termination
  by (relation "measure length") auto

declare utf8_ok.simps [simp del]

lemma utf8_ok_Nil [simp]: "utf8_ok []"
  by (simp add: utf8_ok.simps)

lemma utf8_ok_Cons:
  "utf8_ok (c # cs) \<longleftrightarrow> utf8_width c \<noteq> 0 \<and> utf8_width c - 1 \<le> length cs
     \<and> list_all is_continuation (take (utf8_width c - 1) cs) \<and> utf8_ok (drop (utf8_width c - 1) cs)"
  by (subst utf8_ok.simps) simp

text \<open>Cutting a well-formed string at a character boundary leaves a well-formed string.\<close>

lemma utf8_ok_take_boundary:
  "utf8_ok s \<Longrightarrow> is_char_boundary s i \<Longrightarrow> utf8_ok (take i s)"
proof (induction s arbitrary: i rule: utf8_ok.induct)
  case (1 s)
  show ?case
  proof (cases "i = 0 \<or> i \<ge> length s")
    case True
    with "1.prems" show ?thesis by auto
  next
    case False
    then obtain c cs where s: "s = c # cs" by (cases s) auto
    define w where "w = utf8_width c - 1"
    from "1.prems"(1) s have ok: "utf8_width c \<noteq> 0" "w \<le> length cs"
      "list_all is_continuation (take w cs)" "utf8_ok (drop w cs)"
      by (simp_all add: utf8_ok_Cons w_def)
    from False obtain j where i: "i = Suc j" "j < length cs" using s by (cases i) auto
    from "1.prems"(2) False s i have nc: "\<not> is_continuation (cs ! j)"
      by (simp add: is_char_boundary_def)
    have "w \<le> j"
    proof (rule ccontr)
      assume "\<not> w \<le> j"
      then have "cs ! j \<in> set (take w cs)" using i ok(2) by (metis in_set_conv_nth length_take
        min.absorb2 not_le nth_take)
      with ok(3) nc show False by (simp add: list_all_iff)
    qed
    with ok(2) i nc have "is_char_boundary (drop w cs) (j - w)"
      by (auto simp: is_char_boundary_def)
    then have "utf8_ok (take (j - w) (drop w cs))"
      using "1.IH" [OF s] ok(4) by (simp add: w_def)
    moreover have "take i s = c # take j cs" using s i by simp
    ultimately show ?thesis
      using \<open>w \<le> j\<close> ok i by (simp only: utf8_ok_Cons flip: w_def) (simp add: min_def drop_take)
  qed
qed

lemma utf8_ok_append: "utf8_ok s \<Longrightarrow> utf8_ok t \<Longrightarrow> utf8_ok (s @ t)"
proof (induction s rule: utf8_ok.induct)
  case (1 s)
  show ?case
  proof (cases s)
    case (Cons c cs)
    with "1" show ?thesis by (auto simp: utf8_ok_Cons)
  qed (use "1" in simp)
qed

section \<open>List idioms\<close>

text \<open>\<open>iter().find_map(f)\<close>, and mutation of the first (or the last) element found.\<close>

fun find_map :: "('a \<Rightarrow> 'b option) \<Rightarrow> 'a list \<Rightarrow> 'b option" where
  "find_map f [] = None"
| "find_map f (x # xs) = (case f x of Some y \<Rightarrow> Some y | None \<Rightarrow> find_map f xs)"

fun update_first :: "('a \<Rightarrow> bool) \<Rightarrow> ('a \<Rightarrow> 'a) \<Rightarrow> 'a list \<Rightarrow> 'a list" where
  "update_first p f [] = []"
| "update_first p f (x # xs) = (if p x then f x # xs else x # update_first p f xs)"

definition update_last :: "('a \<Rightarrow> bool) \<Rightarrow> ('a \<Rightarrow> 'a) \<Rightarrow> 'a list \<Rightarrow> 'a list" where
  "update_last p f xs = rev (update_first p f (rev xs))"

lemma find_map_Some: "find_map f xs = Some y \<Longrightarrow> \<exists>x \<in> set xs. f x = Some y"
  by (induction xs) (auto split: option.splits)

lemma find_map_None: "find_map f xs = None \<longleftrightarrow> (\<forall>x \<in> set xs. f x = None)"
  by (induction xs) (auto split: option.splits)

lemma map_update_first: "(\<And>x. g (f x) = g x) \<Longrightarrow> map g (update_first p f xs) = map g xs"
  by (induction xs) auto

lemma length_update_first [simp]: "length (update_first p f xs) = length xs"
  by (induction xs) auto

lemma update_first_none: "\<forall>x \<in> set xs. \<not> p x \<Longrightarrow> update_first p f xs = xs"
  by (induction xs) auto

lemma map_update_last: "(\<And>x. g (f x) = g x) \<Longrightarrow> map g (update_last p f xs) = map g xs"
  by (simp add: update_last_def rev_map [symmetric] map_update_first)

lemma length_update_last [simp]: "length (update_last p f xs) = length xs"
  by (simp add: update_last_def)

lemma update_last_none: "\<forall>x \<in> set xs. \<not> p x \<Longrightarrow> update_last p f xs = xs"
  by (simp add: update_last_def update_first_none)

lemma update_last_snoc [simp]:
  "update_last p f (xs @ [x]) = (if p x then xs @ [f x] else update_last p f xs @ [x])"
  by (simp add: update_last_def)

lemma set_update_first: "y \<in> set (update_first p f xs) \<Longrightarrow> y \<in> set xs \<or> (\<exists>x \<in> set xs. p x \<and> y = f x)"
  by (induction xs) (auto split: if_splits)

lemma set_update_last: "y \<in> set (update_last p f xs) \<Longrightarrow> y \<in> set xs \<or> (\<exists>x \<in> set xs. p x \<and> y = f x)"
  using set_update_first [of y p f "rev xs"] by (simp add: update_last_def)

text \<open>A keyed list keeps distinct keys under filtering and dropping.\<close>

lemma distinct_map_filter: "distinct (map f xs) \<Longrightarrow> distinct (map f (filter p xs))"
  by (induction xs) auto

lemma distinct_map_drop: "distinct (map f xs) \<Longrightarrow> distinct (map f (drop n xs))"
  by (simp add: drop_map [symmetric] distinct_drop)

lemma sorted_wrt_map_drop: "sorted_wrt r (map f xs) \<Longrightarrow> sorted_wrt r (map f (drop n xs))"
  by (simp add: drop_map [symmetric] sorted_wrt_drop)

text \<open>What a hash map holds after an insertion or a removal.\<close>

lemma set_update_subset: "set (AList.update k v xs) \<subseteq> insert (k, v) (set xs)"
  by (induction xs) auto

lemma set_delete_subset: "set (AList.delete k xs) \<subseteq> set xs"
  by (auto simp: AList.delete_eq)

end
