(* ===== verification/Protocol.thy ===== *)
theory Protocol
  imports Prelude
begin

text \<open>
  The wire vocabulary of a session (src/src/session_protocol.rs): capabilities, client
  messages and their size limits, session events, timeline entries, the history window,
  approval requests, runtime options and context usage. Record fields carry a short prefix
  because field names are global in HOL. The lemmas give the contract of the functions of
  that file: option validation, context budgets, message validation.
\<close>

section \<open>Clients and messages\<close>

datatype client_capability =
  Observe | Prompt | Configure | Interrupt | Stop | ApproveOnce | ApproveAlways

definition has_capability :: "client_capability list \<Rightarrow> client_capability \<Rightarrow> bool" where
  "has_capability granted required \<longleftrightarrow> required \<in> set granted"

datatype client_kind = Terminal | Android | Headless | Browser | Agent

record client_info =
  ci_id :: string
  ci_kind :: client_kind
  ci_label :: string

datatype approval_decision = AllowOnce | AllowAlways | Deny

datatype runtime_value = RV_String string | RV_Bool bool | RV_Integer int

datatype client_message =
    CM_Attach nat "string option" "string option" client_info "client_capability list"
  | CM_Resume nat string nat "string option" client_info "client_capability list"
  | CM_Prompt string string
  | CM_ApprovalResponse string approval_decision
  | CM_Interrupt "string option"
  | CM_StopSession string
  | CM_ClearHistory string
  | CM_GetUsage string
  | CM_ListSessions string "string option"
  | CM_SyncRequest nat
  | CM_SetConfig "string option" string runtime_value
  | CM_Ping
  | CM_Detach

section \<open>Session state on the wire\<close>

datatype turn_status = Idle | Running | WaitingForApproval | Cancelling | Cancelled

datatype durability_status = Saved | Unsaved | Saving | Degraded | Superseded

datatype transcript_role = TR_User | TR_Assistant | TR_System | TR_Thought

datatype tool_status = Pending | InProgress | Completed | Failed | ToolCancelled

fun is_terminal :: "tool_status \<Rightarrow> bool" where
  "is_terminal Completed = True"
| "is_terminal Failed = True"
| "is_terminal ToolCancelled = True"
| "is_terminal _ = False"

record tool_call_state =
  tcs_id :: string
  tcs_name :: string
  tcs_title :: string
  tcs_status :: tool_status
  tcs_output :: "string option"

record active_tool_state =
  at_occurrence_id :: nat
  at_tool_call_id :: string
  at_name :: string
  at_title :: string
  at_status :: tool_status
  at_content_truncated :: bool

datatype assistant_outcome =
    OC_Completed
  | OC_Errored bool string
  | OC_Refused
  | OC_Aborted
  | OC_MaxTokens

datatype timeline_entry_kind =
    TL_User string bool
  | TL_Assistant string bool
  | TL_Thought string bool
  | TL_System string bool
  | TL_Outcome assistant_outcome
  | TL_Tool string string string tool_status "string option" bool

record timeline_entry =
  te_id :: nat
  te_order :: nat
  te_entry :: timeline_entry_kind

record history_window =
  hw_truncated_before :: nat
  hw_retained :: nat
  hw_total :: "nat option"
  hw_continuation :: "string option"

definition window_complete :: "nat \<Rightarrow> history_window" where
  "window_complete n =
     \<lparr>hw_truncated_before = 0, hw_retained = n, hw_total = Some n, hw_continuation = None\<rparr>"

definition is_truncated :: "history_window \<Rightarrow> bool" where
  "is_truncated w \<longleftrightarrow> hw_truncated_before w > 0"

record approval_request =
  ar_id :: string
  ar_tool_call_id :: string
  ar_tool :: string
  ar_detail :: string
  ar_allow_always :: bool
  ar_deadline :: "nat option"
  ar_paused :: bool

definition unassigned :: "string \<Rightarrow> string \<Rightarrow> string \<Rightarrow> bool \<Rightarrow> approval_request" where
  "unassigned call tool detail always =
     \<lparr>ar_id = '''', ar_tool_call_id = call, ar_tool = tool, ar_detail = detail,
      ar_allow_always = always, ar_deadline = None, ar_paused = False\<rparr>"

section \<open>Runtime options\<close>

record runtime_choice =
  rc_id :: string
  rc_label :: string

datatype runtime_option_spec =
    Select "runtime_choice list"
  | Boolean
  | Integer int int int

record runtime_option =
  ro_id :: string
  ro_label :: string
  ro_value :: runtime_value
  ro_default :: runtime_value
  ro_spec :: runtime_option_spec
  ro_mutable_while_running :: bool
  ro_help :: "string option"

definition option_select :: "string \<Rightarrow> string \<Rightarrow> runtime_value \<Rightarrow> runtime_choice list \<Rightarrow> runtime_option" where
  "option_select i l v cs =
     \<lparr>ro_id = i, ro_label = l, ro_value = v, ro_default = v, ro_spec = Select cs,
      ro_mutable_while_running = False, ro_help = None\<rparr>"

definition option_boolean :: "string \<Rightarrow> string \<Rightarrow> runtime_value \<Rightarrow> runtime_option" where
  "option_boolean i l v =
     \<lparr>ro_id = i, ro_label = l, ro_value = v, ro_default = v, ro_spec = Boolean,
      ro_mutable_while_running = False, ro_help = None\<rparr>"

definition option_integer :: "string \<Rightarrow> string \<Rightarrow> runtime_value \<Rightarrow> int \<Rightarrow> int \<Rightarrow> int \<Rightarrow> runtime_option" where
  "option_integer i l v mn mx step =
     \<lparr>ro_id = i, ro_label = l, ro_value = v, ro_default = v, ro_spec = Integer mn mx (max step 1),
      ro_mutable_while_running = False, ro_help = None\<rparr>"

definition i64_min :: int where "i64_min = - 9223372036854775808"
definition i64_max :: int where "i64_max = 9223372036854775807"

definition checked_sub_i64 :: "int \<Rightarrow> int \<Rightarrow> int option" where
  "checked_sub_i64 a b = (if i64_min \<le> a - b \<and> a - b \<le> i64_max then Some (a - b) else None)"

definition accepts :: "runtime_option \<Rightarrow> runtime_value \<Rightarrow> bool" where
  "accepts opt candidate =
     (case (ro_spec opt, candidate) of
        (Select choices, RV_String value) \<Rightarrow> list_ex (\<lambda>c. rc_id c = value) choices
      | (Boolean, RV_Bool _) \<Rightarrow> True
      | (Integer mn mx step, RV_Integer value) \<Rightarrow>
          step > 0 \<and> mn \<le> mx \<and> value \<ge> mn \<and> value \<le> mx
          \<and> (case checked_sub_i64 value mn of None \<Rightarrow> False | Some offset \<Rightarrow> offset mod step = 0)
      | _ \<Rightarrow> False)"

section \<open>Context usage\<close>

datatype context_budget_error = OutputReservationNotBelowWindow

record context_usage =
  cu_prompt_tokens :: nat
  cu_estimated :: bool
  cu_model_context_window :: "nat option"
  cu_output_reservation :: nat
  cu_effective_input_budget :: "nat option"
  cu_utilization_basis_points :: "nat option"
  cu_high_water :: "nat option"
  cu_budget_error :: "context_budget_error option"

definition context_usage_new :: "nat \<Rightarrow> nat option \<Rightarrow> nat \<Rightarrow> nat option \<Rightarrow> context_usage" where
  "context_usage_new prompt_tokens window reservation high_water =
     (let budget_error =
            (case window of
               Some w \<Rightarrow> if reservation \<ge> w then Some OutputReservationNotBelowWindow else None
             | None \<Rightarrow> None);
          effective =
            (case window of
               Some w \<Rightarrow> if reservation \<le> w \<and> w - reservation > 0 then Some (w - reservation) else None
             | None \<Rightarrow> None);
          utilization = map_option (\<lambda>b. min (prompt_tokens * 10000 div b) 10000) effective
      in \<lparr>cu_prompt_tokens = prompt_tokens, cu_estimated = False,
          cu_model_context_window = window, cu_output_reservation = reservation,
          cu_effective_input_budget = effective, cu_utilization_basis_points = utilization,
          cu_high_water = high_water, cu_budget_error = budget_error\<rparr>)"

definition mark_estimated :: "context_usage \<Rightarrow> context_usage" where
  "mark_estimated u = u\<lparr>cu_estimated := True\<rparr>"

section \<open>Events and snapshots\<close>

datatype session_event =
    UserMessage string "string option"
  | AssistantDelta string
  | AssistantDone assistant_outcome
  | ThoughtDelta string
  | ToolCallStarted string string string "string option"
  | ToolCallUpdated string tool_status
  | ToolCallFinished string tool_status string
  | ApprovalRequested approval_request
  | ApprovalResolved string approval_decision string
  | ApprovalDeadlineChanged string nat bool
  | RuntimeOptionsChanged "runtime_option list"
  | ContextUsageChanged context_usage
  | ConversationCleared
  | TurnStatusChanged turn_status
  | DurabilityStatusChanged durability_status
  | SessionEnding string

record session_snapshot =
  ss_session_id :: string
  ss_seq :: nat
  ss_turn_status :: turn_status
  ss_durability_status :: durability_status
  ss_timeline :: "timeline_entry list"
  ss_active_tools :: "active_tool_state list"
  ss_history_window :: history_window
  ss_pending_approvals :: "approval_request list"
  ss_runtime_options :: "runtime_option list"
  ss_context_usage :: "context_usage option"

section \<open>Sequences and limits\<close>

datatype sequence_error = NotIncreasing nat nat

definition validate_next_sequence :: "nat option \<Rightarrow> nat \<Rightarrow> sequence_error + unit" where
  "validate_next_sequence previous next_seq =
     (case previous of
        Some p \<Rightarrow> if next_seq \<le> p then Inl (NotIncreasing p next_seq) else Inr ()
      | None \<Rightarrow> Inr ())"

record protocol_limits =
  max_frame_bytes :: nat
  max_prompt_bytes :: nat
  max_label_bytes :: nat
  max_identifier_bytes :: nat
  max_cursor_bytes :: nat
  max_ticket_bytes :: nat
  max_runtime_value_bytes :: nat
  max_capabilities :: nat

datatype validation_error = FieldTooLarge string nat | TooManyCapabilities nat

definition check_field :: "string \<Rightarrow> string \<Rightarrow> nat \<Rightarrow> validation_error option" where
  "check_field field value max_bytes =
     (if length value > max_bytes then Some (FieldTooLarge field max_bytes) else None)"

definition check_opt :: "string \<Rightarrow> string option \<Rightarrow> nat \<Rightarrow> validation_error option" where
  "check_opt field value max_bytes =
     (case value of None \<Rightarrow> None | Some v \<Rightarrow> check_field field v max_bytes)"

definition check_caps :: "protocol_limits \<Rightarrow> client_capability list \<Rightarrow> validation_error option" where
  "check_caps lim caps =
     (if length caps > max_capabilities lim then Some (TooManyCapabilities (max_capabilities lim)) else None)"

fun or_else :: "'a option \<Rightarrow> 'a option \<Rightarrow> 'a option" where
  "or_else (Some x) _ = Some x"
| "or_else None y = y"

fun client_message_error :: "protocol_limits \<Rightarrow> client_message \<Rightarrow> validation_error option" where
  "client_message_error l (CM_Attach _ session ticket client caps) =
     or_else (check_field ''attach.client.id'' (ci_id client) (max_identifier_bytes l))
     (or_else (check_field ''attach.client.label'' (ci_label client) (max_label_bytes l))
     (or_else (check_opt ''attach.session_id'' session (max_identifier_bytes l))
     (or_else (check_opt ''attach.ticket'' ticket (max_ticket_bytes l)) (check_caps l caps))))"
| "client_message_error l (CM_Resume _ session _ ticket client caps) =
     or_else (check_field ''resume.client.id'' (ci_id client) (max_identifier_bytes l))
     (or_else (check_field ''resume.client.label'' (ci_label client) (max_label_bytes l))
     (or_else (check_field ''resume.session_id'' session (max_identifier_bytes l))
     (or_else (check_opt ''resume.ticket'' ticket (max_ticket_bytes l)) (check_caps l caps))))"
| "client_message_error l (CM_Prompt request text) =
     or_else (check_field ''prompt.request_id'' request (max_identifier_bytes l))
             (check_field ''prompt.text'' text (max_prompt_bytes l))"
| "client_message_error l (CM_ApprovalResponse approval _) =
     check_field ''approval_response.approval_id'' approval (max_identifier_bytes l)"
| "client_message_error l (CM_Interrupt request) =
     check_opt ''interrupt.request_id'' request (max_identifier_bytes l)"
| "client_message_error l (CM_StopSession request) =
     check_field ''stop_session.request_id'' request (max_identifier_bytes l)"
| "client_message_error l (CM_ClearHistory request) =
     check_field ''clear_history.request_id'' request (max_identifier_bytes l)"
| "client_message_error l (CM_GetUsage request) =
     check_field ''get_usage.request_id'' request (max_identifier_bytes l)"
| "client_message_error l (CM_ListSessions request cursor) =
     or_else (check_field ''list_sessions.request_id'' request (max_identifier_bytes l))
             (check_opt ''list_sessions.cursor'' cursor (max_cursor_bytes l))"
| "client_message_error l (CM_SetConfig request config value) =
     or_else (check_opt ''set_config.request_id'' request (max_identifier_bytes l))
     (or_else (check_field ''set_config.config_id'' config (max_identifier_bytes l))
     (case value of RV_String v \<Rightarrow> check_field ''set_config.value'' v (max_runtime_value_bytes l)
                  | _ \<Rightarrow> None))"
| "client_message_error l _ = None"

definition validate_client_message :: "protocol_limits \<Rightarrow> client_message \<Rightarrow> validation_error + unit" where
  "validate_client_message l m =
     (case client_message_error l m of None \<Rightarrow> Inr () | Some e \<Rightarrow> Inl e)"

section \<open>Lemmas\<close>

lemma or_else_None [simp]: "or_else x y = None \<longleftrightarrow> x = None \<and> y = None"
  by (cases x) auto

lemma or_else_Some_iff: "or_else x y = Some e \<longleftrightarrow> x = Some e \<or> (x = None \<and> y = Some e)"
  by (cases x) auto

lemma check_field_None [simp]: "check_field f v m = None \<longleftrightarrow> length v \<le> m"
  by (auto simp: check_field_def)

lemma check_opt_None [simp]: "check_opt f v m = None \<longleftrightarrow> (\<forall>x. v = Some x \<longrightarrow> length x \<le> m)"
  by (auto simp: check_opt_def split: option.splits)

lemma check_caps_None [simp]: "check_caps l cs = None \<longleftrightarrow> length cs \<le> max_capabilities l"
  by (auto simp: check_caps_def)

text \<open>
  A reference for the limits: the fields of a message in the order they are inspected, each
  with its cap, and the capability list of the two handshake messages.
\<close>

fun bounded_fields :: "protocol_limits \<Rightarrow> client_message \<Rightarrow> (string \<times> string \<times> nat) list" where
  "bounded_fields l (CM_Attach _ session ticket client _) =
     [(''attach.client.id'', ci_id client, max_identifier_bytes l),
      (''attach.client.label'', ci_label client, max_label_bytes l)]
     @ (case session of None \<Rightarrow> [] | Some s \<Rightarrow> [(''attach.session_id'', s, max_identifier_bytes l)])
     @ (case ticket of None \<Rightarrow> [] | Some t \<Rightarrow> [(''attach.ticket'', t, max_ticket_bytes l)])"
| "bounded_fields l (CM_Resume _ session _ ticket client _) =
     [(''resume.client.id'', ci_id client, max_identifier_bytes l),
      (''resume.client.label'', ci_label client, max_label_bytes l),
      (''resume.session_id'', session, max_identifier_bytes l)]
     @ (case ticket of None \<Rightarrow> [] | Some t \<Rightarrow> [(''resume.ticket'', t, max_ticket_bytes l)])"
| "bounded_fields l (CM_Prompt request text) =
     [(''prompt.request_id'', request, max_identifier_bytes l),
      (''prompt.text'', text, max_prompt_bytes l)]"
| "bounded_fields l (CM_ApprovalResponse approval _) =
     [(''approval_response.approval_id'', approval, max_identifier_bytes l)]"
| "bounded_fields l (CM_Interrupt request) =
     (case request of None \<Rightarrow> [] | Some r \<Rightarrow> [(''interrupt.request_id'', r, max_identifier_bytes l)])"
| "bounded_fields l (CM_StopSession request) =
     [(''stop_session.request_id'', request, max_identifier_bytes l)]"
| "bounded_fields l (CM_ClearHistory request) =
     [(''clear_history.request_id'', request, max_identifier_bytes l)]"
| "bounded_fields l (CM_GetUsage request) =
     [(''get_usage.request_id'', request, max_identifier_bytes l)]"
| "bounded_fields l (CM_ListSessions request cursor) =
     (''list_sessions.request_id'', request, max_identifier_bytes l)
     # (case cursor of None \<Rightarrow> [] | Some c \<Rightarrow> [(''list_sessions.cursor'', c, max_cursor_bytes l)])"
| "bounded_fields l (CM_SetConfig request config value) =
     (case request of None \<Rightarrow> [] | Some r \<Rightarrow> [(''set_config.request_id'', r, max_identifier_bytes l)])
     @ [(''set_config.config_id'', config, max_identifier_bytes l)]
     @ (case value of RV_String v \<Rightarrow> [(''set_config.value'', v, max_runtime_value_bytes l)] | _ \<Rightarrow> [])"
| "bounded_fields l _ = []"

fun requested_caps :: "client_message \<Rightarrow> client_capability list" where
  "requested_caps (CM_Attach _ _ _ _ caps) = caps"
| "requested_caps (CM_Resume _ _ _ _ _ caps) = caps"
| "requested_caps _ = []"

fun first_excess :: "(string \<times> string \<times> nat) list \<Rightarrow> validation_error option" where
  "first_excess [] = None"
| "first_excess ((f, v, m) # rest) = (if length v > m then Some (FieldTooLarge f m) else first_excess rest)"

lemma first_excess_None: "first_excess xs = None \<longleftrightarrow> (\<forall>(f, v, m) \<in> set xs. length v \<le> m)"
  by (induction xs rule: first_excess.induct) auto

lemma client_message_error_table:
  "client_message_error l m = or_else (first_excess (bounded_fields l m)) (check_caps l (requested_caps m))"
  by (cases "(l, m)" rule: client_message_error.cases)
    (auto simp: check_field_def check_opt_def check_caps_def split: option.splits runtime_value.splits)

lemma accepts_Integer_unfold:
  "ro_spec opt = Integer mn mx step \<Longrightarrow>
     accepts opt (RV_Integer v) \<longleftrightarrow>
       0 < step \<and> mn \<le> v \<and> v \<le> mx \<and> v - mn \<le> i64_max \<and> step dvd (v - mn)"
  by (auto simp: accepts_def checked_sub_i64_def i64_min_def mod_eq_0_iff_dvd)

lemma basis_points_capped:
  assumes "0 < (b::nat)"
  shows "min (p * 10000 div b) 10000 = (if p \<le> b then p * 10000 div b else 10000)"
proof (cases "p \<le> b")
  case True
  then have "p * 10000 div b \<le> b * 10000 div b" by (intro div_le_mono) simp
  with assms True show ?thesis by simp
next
  case False
  then have "b * 10000 div b \<le> p * 10000 div b" by (intro div_le_mono) simp
  with assms False show ?thesis by simp
qed

text \<open>
  Observation. A value is accepted by an option exactly when it belongs to the option's domain:
  a listed choice for a select, a truth value for a boolean, and for an integer option a point of
  the arithmetic progression from the minimum by the (positive) step up to the maximum, at most
  \<open>i64::MAX\<close> above the minimum. No value of another kind is accepted.
\<close>

theorem accepts_domain:
  "accepts opt val \<longleftrightarrow>
     (case ro_spec opt of
        Select choices \<Rightarrow> (\<exists>c \<in> set choices. val = RV_String (rc_id c))
      | Boolean \<Rightarrow> (\<exists>b. val = RV_Bool b)
      | Integer mn mx step \<Rightarrow>
          (\<exists>k::nat. 0 < step \<and> val = RV_Integer (mn + int k * step)
             \<and> mn + int k * step \<le> mx \<and> int k * step \<le> i64_max))"
proof (cases "ro_spec opt")
  case (Select choices)
  then show ?thesis by (cases val) (auto simp: accepts_def list_ex_iff)
next
  case Boolean
  then show ?thesis by (cases val) (auto simp: accepts_def)
next
  case (Integer mn mx step)
  show ?thesis
  proof (cases val)
    case (RV_Integer v)
    have "(0 < step \<and> mn \<le> v \<and> v \<le> mx \<and> v - mn \<le> i64_max \<and> step dvd (v - mn)) \<longleftrightarrow>
      (\<exists>k::nat. 0 < step \<and> v = mn + int k * step \<and> mn + int k * step \<le> mx \<and> int k * step \<le> i64_max)"
      (is "?L \<longleftrightarrow> ?R")
    proof
      assume L: ?L
      then obtain q where q: "v - mn = step * q" by (auto elim: dvdE)
      with L have "0 \<le> q" by (metis diff_ge_0_iff_ge zero_le_mult_iff not_le)
      with L q show ?R by (intro exI [of _ "nat q"]) (auto simp: algebra_simps)
    qed (auto simp: mult_nonneg_nonneg)
    with Integer RV_Integer show ?thesis by (simp add: accepts_Integer_unfold)
  qed (use Integer in \<open>auto simp: accepts_def\<close>)
qed

text \<open>
  Observation. The context meter is consistent: the budget error is raised exactly when the
  reservation reaches the window, the effective budget plus the reservation is the window, and the
  utilization is a number of basis points, at most 10000 and equal to the exact quotient rounded
  down while the prompt fits.
\<close>

theorem context_usage_new_consistent:
  "(cu_budget_error (context_usage_new p w r h) \<noteq> None) = (\<exists>n. w = Some n \<and> n \<le> r)
   \<and> (cu_effective_input_budget (context_usage_new p w r h) = Some b) = (w = Some (r + b) \<and> 0 < b)
   \<and> cu_utilization_basis_points (context_usage_new p w r h) =
       map_option (\<lambda>b. if p \<le> b then p * 10000 div b else 10000)
         (cu_effective_input_budget (context_usage_new p w r h))"
  by (auto simp: context_usage_new_def Let_def basis_points_capped split: option.splits)

text \<open>
  Observation. Validation of a client message rejects the first field, in the documented order,
  that exceeds its cap, then an oversized capability list, and accepts everything else: it is
  the table of fields and caps, read from the front.
\<close>

theorem validate_client_message_table:
  "validate_client_message l m =
     (case first_excess (bounded_fields l m) of
        Some e \<Rightarrow> Inl e
      | None \<Rightarrow> if length (requested_caps m) > max_capabilities l
                 then Inl (TooManyCapabilities (max_capabilities l)) else Inr ())"
  by (auto simp: validate_client_message_def client_message_error_table check_caps_def
      split: option.splits)

end
