(* ===== verification/Timeline.thy ===== *)
theory Timeline
  imports Protocol
begin

text \<open>
  The canonical timeline reducer (src/src/session_timeline.rs): an ordered, bounded list of
  entries minted from session events, the tools still running, and the history window that
  accounts for what the bound has evicted. \<open>timeline_wf\<close> is its representation invariant; the
  lemmas show that every operation keeps it, that streamed text accumulates in one entry, and
  that a tool update reaches the newest live occurrence of its call whether or not the bound has
  evicted its entry.
\<close>

record timeline_reducer =
  tl_timeline :: "timeline_entry list"
  tl_active :: "active_tool_state list"
  tl_window :: history_window
  tl_max :: nat
  tl_next_id :: nat
  tl_open :: "nat option"

datatype text_kind = TK_Assistant | TK_Thought

section \<open>Operations\<close>

definition sync_window :: "timeline_reducer \<Rightarrow> timeline_reducer" where
  "sync_window r = r\<lparr>tl_window := (tl_window r)
     \<lparr>hw_retained := length (tl_timeline r),
      hw_total := Some (saturating_add (hw_truncated_before (tl_window r)) (length (tl_timeline r)))\<rparr>\<rparr>"

definition trim_to_limit :: "timeline_reducer \<Rightarrow> timeline_reducer" where
  "trim_to_limit r =
     (let excess = length (tl_timeline r) - tl_max r in
      if excess > 0 then
        (let kept = drop excess (tl_timeline r) in
         r\<lparr>tl_timeline := kept,
           tl_window := (tl_window r)\<lparr>hw_truncated_before :=
              saturating_add (hw_truncated_before (tl_window r)) excess\<rparr>,
           tl_open := (case tl_open r of
                         Some i \<Rightarrow> if list_ex (\<lambda>e. te_id e = i) kept then Some i else None
                       | None \<Rightarrow> None)\<rparr>)
      else r)"

definition close_open :: "timeline_reducer \<Rightarrow> timeline_reducer" where
  "close_open r = r\<lparr>tl_open := None\<rparr>"

definition push :: "timeline_entry_kind \<Rightarrow> timeline_reducer \<Rightarrow> nat \<times> timeline_reducer" where
  "push kind r =
     (let i = tl_next_id r;
          r1 = r\<lparr>tl_next_id := saturating_add i 1,
                 tl_timeline := tl_timeline r @ [\<lparr>te_id = i, te_order = i, te_entry = kind\<rparr>]\<rparr>
      in (i, sync_window (trim_to_limit r1)))"

fun is_tool :: "timeline_entry_kind \<Rightarrow> bool" where
  "is_tool (TL_Tool _ _ _ _ _ _) = True"
| "is_tool _ = False"

fun set_tool :: "tool_status \<Rightarrow> string option \<Rightarrow> timeline_entry_kind \<Rightarrow> timeline_entry_kind" where
  "set_tool st out (TL_Tool c n t _ old tr) =
     TL_Tool c n t st (case out of Some text \<Rightarrow> Some text | None \<Rightarrow> old) tr"
| "set_tool st out k = k"

definition update_occurrence ::
  "nat \<Rightarrow> tool_status \<Rightarrow> string option \<Rightarrow> timeline_reducer \<Rightarrow> timeline_reducer" where
  "update_occurrence occ st out r =
     r\<lparr>tl_timeline := update_last (\<lambda>e. te_id e = occ \<and> is_tool (te_entry e))
         (\<lambda>e. e\<lparr>te_entry := set_tool st out (te_entry e)\<rparr>) (tl_timeline r)\<rparr>"

fun live_call :: "string \<Rightarrow> timeline_entry_kind \<Rightarrow> bool" where
  "live_call call (TL_Tool c _ _ st _ _) = (c = call \<and> \<not> is_terminal st)"
| "live_call call _ = False"

definition find_occurrence :: "string \<Rightarrow> timeline_reducer \<Rightarrow> nat option" where
  "find_occurrence call r =
     or_else
       (find_map (\<lambda>e. if live_call call (te_entry e) then Some (te_id e) else None) (rev (tl_timeline r)))
       (map_option at_occurrence_id (List.find (\<lambda>a. at_tool_call_id a = call) (rev (tl_active r))))"

definition update_tool ::
  "string \<Rightarrow> tool_status \<Rightarrow> string option \<Rightarrow> timeline_reducer \<Rightarrow> timeline_reducer" where
  "update_tool call st out r =
     (case find_occurrence call r of
        None \<Rightarrow> r
      | Some occ \<Rightarrow>
          (let r1 = update_occurrence occ st out r in
           if is_terminal st
           then r1\<lparr>tl_active := filter (\<lambda>a. at_occurrence_id a \<noteq> occ) (tl_active r1)\<rparr>
           else r1\<lparr>tl_active := update_first (\<lambda>a. at_occurrence_id a = occ)
                                  (\<lambda>a. a\<lparr>at_status := st\<rparr>) (tl_active r1)\<rparr>))"

definition timeline_clear :: "timeline_reducer \<Rightarrow> timeline_reducer" where
  "timeline_clear r =
     r\<lparr>tl_timeline := [], tl_active := [], tl_window := window_complete 0, tl_open := None\<rparr>"

fun extend_text :: "text_kind \<Rightarrow> string \<Rightarrow> timeline_entry_kind \<Rightarrow> timeline_entry_kind option" where
  "extend_text TK_Assistant extra (TL_Assistant text tr) = Some (TL_Assistant (text @ extra) tr)"
| "extend_text TK_Thought extra (TL_Thought text tr) = Some (TL_Thought (text @ extra) tr)"
| "extend_text _ _ _ = None"

fun text_entry :: "text_kind \<Rightarrow> string \<Rightarrow> timeline_entry_kind" where
  "text_entry TK_Assistant text = TL_Assistant text False"
| "text_entry TK_Thought text = TL_Thought text False"

definition extend_open :: "text_kind \<Rightarrow> string \<Rightarrow> timeline_reducer \<Rightarrow> timeline_reducer option" where
  "extend_open kind text r =
     (case (tl_open r, rev (tl_timeline r)) of
        (Some i, e # es) \<Rightarrow>
          (if te_id e = i then
             map_option (\<lambda>k. r\<lparr>tl_timeline := rev es @ [e\<lparr>te_entry := k\<rparr>]\<rparr>)
               (extend_text kind text (te_entry e))
           else None)
      | _ \<Rightarrow> None)"

definition append_text :: "text_kind \<Rightarrow> string \<Rightarrow> timeline_reducer \<Rightarrow> timeline_reducer" where
  "append_text kind text r =
     (case extend_open kind text r of
        Some r' \<Rightarrow> r'
      | None \<Rightarrow> (let (i, r1) = push (text_entry kind text) (close_open r) in r1\<lparr>tl_open := Some i\<rparr>))"

definition start_tool ::
  "tool_status \<Rightarrow> string \<Rightarrow> string \<Rightarrow> string \<Rightarrow> timeline_reducer \<Rightarrow> nat \<times> timeline_reducer" where
  "start_tool st call name title r =
     (let (i, r1) = push (TL_Tool call name title st None False) (close_open r)
      in (i, r1\<lparr>tl_active := tl_active r1 @
            [\<lparr>at_occurrence_id = i, at_tool_call_id = call, at_name = name, at_title = title,
              at_status = st, at_content_truncated = False\<rparr>]\<rparr>))"

fun apply_body :: "session_event \<Rightarrow> timeline_reducer \<Rightarrow> timeline_reducer" where
  "apply_body (UserMessage text _) r = snd (push (TL_User text False) (close_open r))"
| "apply_body (AssistantDelta text) r = append_text TK_Assistant text r"
| "apply_body (ThoughtDelta text) r = append_text TK_Thought text r"
| "apply_body (AssistantDone outcome) r = snd (push (TL_Outcome outcome) (close_open r))"
| "apply_body (ToolCallStarted call name title _) r = snd (start_tool Pending call name title r)"
| "apply_body (ToolCallUpdated call st) r = update_tool call st None r"
| "apply_body (ToolCallFinished call st out) r = update_tool call st (Some out) r"
| "apply_body ConversationCleared r = timeline_clear r"
| "apply_body _ r = r"

definition timeline_apply :: "session_event \<Rightarrow> timeline_reducer \<Rightarrow> timeline_reducer" where
  "timeline_apply ev r = sync_window (apply_body ev r)"

definition push_reconstructed :: "timeline_entry_kind \<Rightarrow> timeline_reducer \<Rightarrow> nat \<times> timeline_reducer" where
  "push_reconstructed kind r = push kind (close_open r)"

definition start_reconstructed_tool ::
  "string \<Rightarrow> string \<Rightarrow> string \<Rightarrow> timeline_reducer \<Rightarrow> nat \<times> timeline_reducer" where
  "start_reconstructed_tool call name title r = start_tool InProgress call name title r"

definition push_system :: "string \<Rightarrow> timeline_reducer \<Rightarrow> timeline_reducer" where
  "push_system text r = snd (push (TL_System text False) (close_open r))"

definition update_reconstructed_tool ::
  "string \<Rightarrow> tool_status \<Rightarrow> string \<Rightarrow> timeline_reducer \<Rightarrow> timeline_reducer" where
  "update_reconstructed_tool call st out r = update_tool call st (Some out) r"

definition cancel_reconstructed_active_tools :: "timeline_reducer \<Rightarrow> timeline_reducer" where
  "cancel_reconstructed_active_tools r =
     fold (\<lambda>a. update_occurrence (at_occurrence_id a) ToolCancelled None) (tl_active r) (r\<lparr>tl_active := []\<rparr>)"

definition next_id_of :: "timeline_entry list \<Rightarrow> active_tool_state list \<Rightarrow> nat" where
  "next_id_of entries active =
     saturating_add
       (fold max (map (\<lambda>e. max (te_id e) (te_order e)) entries @ map at_occurrence_id active) 0) 1"

definition from_parts ::
  "timeline_entry list \<Rightarrow> active_tool_state list \<Rightarrow> history_window \<Rightarrow> nat \<Rightarrow> timeline_reducer" where
  "from_parts entries active window max_entries =
     (let r = \<lparr>tl_timeline = entries, tl_active = active, tl_window = window,
               tl_max = max max_entries 1, tl_next_id = next_id_of entries active, tl_open = None\<rparr>;
          r1 = fold (\<lambda>a. update_occurrence (at_occurrence_id a) (at_status a) None) active r
      in sync_window (trim_to_limit r1))"

definition timeline_new :: "nat \<Rightarrow> timeline_reducer" where
  "timeline_new max_entries = from_parts [] [] (window_complete 0) max_entries"

definition is_open :: "timeline_reducer \<Rightarrow> nat \<Rightarrow> bool" where
  "is_open r i \<longleftrightarrow> tl_open r = Some i"

definition into_parts ::
  "timeline_reducer \<Rightarrow> timeline_entry list \<times> active_tool_state list \<times> history_window" where
  "into_parts r = (tl_timeline r, tl_active r, tl_window r)"

section \<open>The invariant\<close>

text \<open>
  Entries are strictly ordered by identity, carry their identity as their position, and are
  older than the next identity; the list respects its bound; the window accounts for it; the
  running tools are distinct, ordered and not finished; the open entry is the last one.
\<close>

definition entries_wf :: "nat \<Rightarrow> timeline_entry list \<Rightarrow> bool" where
  "entries_wf n es \<longleftrightarrow> sorted_wrt (<) (map te_id es) \<and> (\<forall>e \<in> set es. te_order e = te_id e \<and> te_id e < n)"

definition active_wf :: "nat \<Rightarrow> active_tool_state list \<Rightarrow> bool" where
  "active_wf n as \<longleftrightarrow> sorted_wrt (<) (map at_occurrence_id as)
     \<and> (\<forall>a \<in> set as. at_occurrence_id a < n \<and> \<not> is_terminal (at_status a))"

definition window_wf :: "timeline_reducer \<Rightarrow> bool" where
  "window_wf r \<longleftrightarrow> hw_retained (tl_window r) = length (tl_timeline r)
     \<and> hw_total (tl_window r)
         = Some (saturating_add (hw_truncated_before (tl_window r)) (length (tl_timeline r)))"

definition timeline_core_wf :: "timeline_reducer \<Rightarrow> bool" where
  "timeline_core_wf r \<longleftrightarrow> 1 \<le> tl_max r \<and> length (tl_timeline r) \<le> tl_max r
     \<and> entries_wf (tl_next_id r) (tl_timeline r) \<and> active_wf (tl_next_id r) (tl_active r)
     \<and> (\<forall>i. tl_open r = Some i \<longrightarrow> tl_timeline r \<noteq> [] \<and> te_id (last (tl_timeline r)) = i)"

definition timeline_wf :: "timeline_reducer \<Rightarrow> bool" where
  "timeline_wf r \<longleftrightarrow> timeline_core_wf r \<and> window_wf r"

lemmas timeline_wf_defs =
  timeline_wf_def timeline_core_wf_def entries_wf_def active_wf_def window_wf_def


subsection \<open>Field-wise effect of the operations\<close>

lemma sync_window_fields [simp]:
  "tl_timeline (sync_window r) = tl_timeline r" "tl_active (sync_window r) = tl_active r"
  "tl_max (sync_window r) = tl_max r" "tl_next_id (sync_window r) = tl_next_id r"
  "tl_open (sync_window r) = tl_open r"
  "hw_truncated_before (tl_window (sync_window r)) = hw_truncated_before (tl_window r)"
  by (simp_all add: sync_window_def)

lemma window_wf_sync [simp]: "window_wf (sync_window r)"
  by (simp add: window_wf_def) (simp add: sync_window_def)

lemma sync_window_wf: "window_wf r \<Longrightarrow> sync_window r = r"
  by (simp add: sync_window_def window_wf_def)

lemma timeline_core_wf_sync [simp]: "timeline_core_wf (sync_window r) = timeline_core_wf r"
  by (simp add: timeline_core_wf_def)

lemma timeline_wf_sync [simp]: "timeline_wf (sync_window r) = timeline_core_wf r"
  by (simp add: timeline_wf_def)

lemma close_open_fields [simp]:
  "tl_timeline (close_open r) = tl_timeline r" "tl_active (close_open r) = tl_active r"
  "tl_max (close_open r) = tl_max r" "tl_next_id (close_open r) = tl_next_id r"
  "tl_window (close_open r) = tl_window r" "tl_open (close_open r) = None"
  by (simp_all add: close_open_def)

lemma trim_fields [simp]:
  "tl_timeline (trim_to_limit r) = drop (length (tl_timeline r) - tl_max r) (tl_timeline r)"
  "tl_active (trim_to_limit r) = tl_active r" "tl_max (trim_to_limit r) = tl_max r"
  "tl_next_id (trim_to_limit r) = tl_next_id r"
  by (simp_all add: trim_to_limit_def Let_def)

lemma trim_truncated_before:
  "hw_truncated_before (tl_window (trim_to_limit r)) =
     (if length (tl_timeline r) > tl_max r
      then saturating_add (hw_truncated_before (tl_window r)) (length (tl_timeline r) - tl_max r)
      else hw_truncated_before (tl_window r))"
  by (simp add: trim_to_limit_def Let_def)

lemma trim_open_None [simp]: "tl_open r = None \<Longrightarrow> tl_open (trim_to_limit r) = None"
  by (simp add: trim_to_limit_def Let_def)

lemma fst_push [simp]: "fst (push k r) = tl_next_id r"
  by (simp add: push_def Let_def)

lemma push_fields [simp]:
  "tl_timeline (snd (push k r)) =
     drop (Suc (length (tl_timeline r)) - tl_max r)
       (tl_timeline r @ [\<lparr>te_id = tl_next_id r, te_order = tl_next_id r, te_entry = k\<rparr>])"
  "tl_active (snd (push k r)) = tl_active r" "tl_max (snd (push k r)) = tl_max r"
  "tl_next_id (snd (push k r)) = saturating_add (tl_next_id r) 1"
  by (simp_all add: push_def Let_def)

lemma push_open_None [simp]: "tl_open r = None \<Longrightarrow> tl_open (snd (push k r)) = None"
  by (simp add: push_def Let_def)

lemma push_truncated_before:
  "hw_truncated_before (tl_window (snd (push k r))) =
     (if Suc (length (tl_timeline r)) > tl_max r
      then saturating_add (hw_truncated_before (tl_window r)) (Suc (length (tl_timeline r)) - tl_max r)
      else hw_truncated_before (tl_window r))"
  by (simp add: push_def Let_def trim_truncated_before)

lemma window_wf_push [simp]: "window_wf (snd (push k r))"
  by (simp add: push_def Let_def)

lemma update_occurrence_fields [simp]:
  "tl_active (update_occurrence occ st out r) = tl_active r"
  "tl_max (update_occurrence occ st out r) = tl_max r"
  "tl_next_id (update_occurrence occ st out r) = tl_next_id r"
  "tl_open (update_occurrence occ st out r) = tl_open r"
  "tl_window (update_occurrence occ st out r) = tl_window r"
  "map te_id (tl_timeline (update_occurrence occ st out r)) = map te_id (tl_timeline r)"
  "map te_order (tl_timeline (update_occurrence occ st out r)) = map te_order (tl_timeline r)"
  "length (tl_timeline (update_occurrence occ st out r)) = length (tl_timeline r)"
  by (simp_all add: update_occurrence_def map_update_last)

lemma update_tool_fields [simp]:
  "tl_max (update_tool call st out r) = tl_max r"
  "tl_next_id (update_tool call st out r) = tl_next_id r"
  "tl_open (update_tool call st out r) = tl_open r"
  "tl_window (update_tool call st out r) = tl_window r"
  "map te_id (tl_timeline (update_tool call st out r)) = map te_id (tl_timeline r)"
  "map te_order (tl_timeline (update_tool call st out r)) = map te_order (tl_timeline r)"
  "length (tl_timeline (update_tool call st out r)) = length (tl_timeline r)"
  by (simp_all add: update_tool_def Let_def split: option.splits)

subsection \<open>Preservation\<close>

text \<open>The entry invariant depends on identities and positions only.\<close>

lemma entries_wf_alt:
  "entries_wf n es \<longleftrightarrow> sorted_wrt (<) (map te_id es) \<and> map te_order es = map te_id es
     \<and> (\<forall>i \<in> set (map te_id es). i < n)"
  by (auto simp: entries_wf_def)

lemma entries_wf_same_ids:
  "map te_id es = map te_id es' \<Longrightarrow> map te_order es = map te_order es' \<Longrightarrow>
     entries_wf n es = entries_wf n es'"
  unfolding entries_wf_alt by simp

lemma entries_wf_drop: "entries_wf n es \<Longrightarrow> entries_wf n (drop k es)"
  by (auto simp: entries_wf_def sorted_wrt_map_drop dest: in_set_dropD)

lemma entries_wf_snoc:
  "entries_wf n es \<Longrightarrow> n < m \<Longrightarrow> entries_wf m (es @ [\<lparr>te_id = n, te_order = n, te_entry = k\<rparr>])"
  by (fastforce simp: entries_wf_def sorted_wrt_append)

lemma active_wf_mono: "active_wf n as \<Longrightarrow> n \<le> m \<Longrightarrow> active_wf m as"
  by (fastforce simp: active_wf_def)

lemma active_wf_snoc:
  "active_wf n as \<Longrightarrow> n < m \<Longrightarrow> at_occurrence_id a = n \<Longrightarrow> \<not> is_terminal (at_status a) \<Longrightarrow>
     active_wf m (as @ [a])"
  by (fastforce simp: active_wf_def sorted_wrt_append)

lemma active_wf_filter: "active_wf n as \<Longrightarrow> active_wf n (filter p as)"
  by (auto simp: active_wf_def sorted_wrt_map sorted_wrt_filter)

lemma active_wf_update:
  "active_wf n as \<Longrightarrow> \<not> is_terminal st \<Longrightarrow>
     active_wf n (update_first p (\<lambda>a. a\<lparr>at_status := st\<rparr>) as)"
  by (auto simp: active_wf_def map_update_first dest!: set_update_first)

lemma core_wf_push:
  assumes "timeline_core_wf r" and "tl_next_id r < u64_max"
  shows "timeline_core_wf (snd (push k (close_open r)))"
proof -
  have next_id: "saturating_add (tl_next_id r) (Suc 0) = Suc (tl_next_id r)"
    using assms(2) by (simp add: saturating_add_exact)
  have "entries_wf (Suc (tl_next_id r))
      (tl_timeline r @ [\<lparr>te_id = tl_next_id r, te_order = tl_next_id r, te_entry = k\<rparr>])"
    using assms(1) by (intro entries_wf_snoc) (auto simp: timeline_core_wf_def)
  moreover have "active_wf (Suc (tl_next_id r)) (tl_active r)"
    using assms(1) by (auto simp: timeline_core_wf_def intro: active_wf_mono)
  ultimately show ?thesis
    using assms(1) by (auto simp: timeline_core_wf_def next_id intro!: entries_wf_drop simp del: drop_append)
qed

lemma push_last:
  "1 \<le> tl_max r \<Longrightarrow> length (tl_timeline r) \<le> tl_max r \<Longrightarrow>
     tl_timeline (snd (push k r)) \<noteq> []
     \<and> last (tl_timeline (snd (push k r))) = \<lparr>te_id = tl_next_id r, te_order = tl_next_id r, te_entry = k\<rparr>"
  by auto

lemma core_wf_start_tool:
  assumes "timeline_core_wf r" and "tl_next_id r < u64_max" and "\<not> is_terminal st"
  shows "timeline_core_wf (snd (start_tool st call name title r))"
proof -
  let ?r = "snd (push (TL_Tool call name title st None False) (close_open r))"
  have core: "timeline_core_wf ?r" by (rule core_wf_push [OF assms(1,2)])
  have "active_wf (tl_next_id ?r)
     (tl_active ?r @ [\<lparr>at_occurrence_id = tl_next_id r, at_tool_call_id = call, at_name = name,
        at_title = title, at_status = st, at_content_truncated = False\<rparr>])"
    using assms by (intro active_wf_snoc [of "tl_next_id r"])
      (auto simp: timeline_core_wf_def saturating_add_exact)
  with core show ?thesis
    by (simp add: start_tool_def Let_def split_beta timeline_core_wf_def del: push_fields)
qed

lemma core_wf_update_tool:
  assumes "timeline_core_wf r"
  shows "timeline_core_wf (update_tool call st out r)"
proof -
  let ?r = "update_tool call st out r"
  have ids: "map te_id (tl_timeline ?r) = map te_id (tl_timeline r)" by simp
  have "entries_wf (tl_next_id r) (tl_timeline ?r)"
    using assms by (subst entries_wf_same_ids [OF ids]) (auto simp: timeline_core_wf_def)
  moreover have "active_wf (tl_next_id r) (tl_active ?r)"
    using assms by (auto simp: update_tool_def Let_def timeline_core_wf_def
        intro: active_wf_filter active_wf_update split: option.splits)
  moreover have "tl_timeline ?r \<noteq> [] \<and> te_id (last (tl_timeline ?r)) = i" if "tl_open r = Some i" for i
  proof -
    from assms that have "tl_timeline r \<noteq> []" "te_id (last (tl_timeline r)) = i"
      by (auto simp: timeline_core_wf_def)
    with ids show ?thesis by (metis last_map map_is_Nil_conv)
  qed
  ultimately show ?thesis using assms by (simp add: timeline_core_wf_def)
qed

lemma core_wf_clear: "timeline_core_wf r \<Longrightarrow> timeline_core_wf (timeline_clear r)"
  by (simp add: timeline_core_wf_def timeline_clear_def entries_wf_def active_wf_def)

lemma extend_open_Some:
  "extend_open kind text r = Some r' \<Longrightarrow>
     \<exists>es e k. tl_timeline r = es @ [e] \<and> tl_open r = Some (te_id e)
       \<and> extend_text kind text (te_entry e) = Some k
       \<and> r' = r\<lparr>tl_timeline := es @ [e\<lparr>te_entry := k\<rparr>]\<rparr>"
  by (fastforce simp: extend_open_def split: option.splits list.splits if_splits)

lemma core_wf_append_text:
  assumes "timeline_core_wf r" and "tl_next_id r < u64_max"
  shows "timeline_core_wf (append_text kind text r)"
proof (cases "extend_open kind text r")
  case None
  let ?r = "snd (push (text_entry kind text) (close_open r))"
  have "timeline_core_wf ?r" by (rule core_wf_push [OF assms])
  moreover have "tl_timeline ?r \<noteq> [] \<and> te_id (last (tl_timeline ?r)) = tl_next_id r"
    using assms(1) push_last [of "close_open r"] by (simp add: timeline_core_wf_def del: push_fields)
  ultimately show ?thesis using None
    by (simp add: append_text_def split_beta timeline_core_wf_def del: push_fields)
next
  case (Some r')
  then obtain es e k where r: "tl_timeline r = es @ [e]" "tl_open r = Some (te_id e)"
    "r' = r\<lparr>tl_timeline := es @ [e\<lparr>te_entry := k\<rparr>]\<rparr>" by (auto dest: extend_open_Some)
  have "entries_wf (tl_next_id r) (es @ [e\<lparr>te_entry := k\<rparr>])"
    using assms(1) r by (subst entries_wf_same_ids [of _ "es @ [e]"]) (auto simp: timeline_core_wf_def)
  with assms(1) Some r show ?thesis by (simp add: append_text_def timeline_core_wf_def)
qed

lemma core_wf_apply_body:
  "timeline_core_wf r \<Longrightarrow> tl_next_id r < u64_max \<Longrightarrow> timeline_core_wf (apply_body ev r)"
  by (cases ev) (simp_all add: core_wf_push core_wf_append_text core_wf_start_tool
      core_wf_update_tool core_wf_clear del: push_fields)

lemma timeline_wf_apply [wf_intros]:
  "timeline_wf r \<Longrightarrow> tl_next_id r < u64_max \<Longrightarrow> timeline_wf (timeline_apply ev r)"
  by (simp add: timeline_apply_def timeline_wf_def [of r] core_wf_apply_body)

lemma timeline_wf_new [wf_intros]: "timeline_wf (timeline_new n)"
  by (simp add: timeline_new_def from_parts_def Let_def next_id_of_def)
    (simp add: timeline_wf_defs saturating_add_exact u64_max_def)


section \<open>Identities are contiguous\<close>

text \<open>
  The retained entries are the most recently minted ones: their identities are the interval
  that ends just below the next identity.
\<close>

definition contiguous :: "timeline_reducer \<Rightarrow> bool" where
  "contiguous r \<longleftrightarrow> length (tl_timeline r) \<le> tl_next_id r
     \<and> map te_id (tl_timeline r) = [tl_next_id r - length (tl_timeline r) ..< tl_next_id r]"

lemma contiguous_cong:
  "map te_id (tl_timeline r') = map te_id (tl_timeline r) \<Longrightarrow> tl_next_id r' = tl_next_id r \<Longrightarrow>
     contiguous r' = contiguous r"
  by (metis contiguous_def length_map)

lemma contiguous_sync [simp]: "contiguous (sync_window r) = contiguous r"
  by (rule contiguous_cong) simp_all

lemma contiguous_push:
  assumes "contiguous r" and "tl_next_id r < u64_max"
  shows "contiguous (snd (push k r))"
proof -
  let ?n = "tl_next_id r" and ?l = "length (tl_timeline r)" and ?d = "Suc (length (tl_timeline r)) - tl_max r"
  have sat: "saturating_add ?n (Suc 0) = Suc ?n" using assms(2) by (simp add: saturating_add_exact)
  have "map te_id (tl_timeline (snd (push k r))) = drop ?d ([?n - ?l ..< ?n] @ [?n])"
    using assms(1) by (simp add: contiguous_def drop_map [symmetric] del: drop_append drop_upt)
  also have "[?n - ?l ..< ?n] @ [?n] = [?n - ?l ..< Suc ?n]" by simp
  also have "drop ?d [?n - ?l ..< Suc ?n] = [?n - ?l + ?d ..< Suc ?n]" by simp
  finally show ?thesis using assms(1) sat by (simp add: contiguous_def) (auto simp: Suc_diff_le intro!: arg_cong2 [where f = upt])
qed

lemma next_id_apply_body:
  "tl_next_id (apply_body ev r) = tl_next_id r \<or> tl_next_id (apply_body ev r) = saturating_add (tl_next_id r) 1"
  by (cases ev) (auto simp: append_text_def start_tool_def timeline_clear_def split_beta
      dest: extend_open_Some split: option.splits)

lemma contiguous_append_text:
  assumes "contiguous r" and "tl_next_id r < u64_max"
  shows "contiguous (append_text kind text r)"
proof (cases "extend_open kind text r")
  case None
  have "contiguous (snd (push (text_entry kind text) (close_open r)))"
    using assms by (intro contiguous_push) (simp_all add: contiguous_def)
  with None show ?thesis
    by (simp add: append_text_def split_beta contiguous_def del: push_fields)
next
  case (Some r')
  with assms show ?thesis by (auto simp: append_text_def contiguous_def dest!: extend_open_Some)
qed

lemma contiguous_apply_body:
  assumes "contiguous r" and "tl_next_id r < u64_max"
  shows "contiguous (apply_body ev r)"
proof -
  have closed: "contiguous (close_open r)" using assms(1) by (simp add: contiguous_def)
  have pushed: "contiguous (snd (push k (close_open r)))" for k
    using contiguous_push [OF closed] assms(2) by simp
  have upd: "contiguous (update_tool call st out r)" for call st out
    using assms(1) by (subst contiguous_cong [of _ r]) simp_all
  have started: "contiguous (snd (start_tool st call name title r))" for st call name title
    using pushed by (simp add: start_tool_def split_beta contiguous_def del: push_fields)
  show ?thesis
    using assms pushed upd started contiguous_append_text
    by (cases ev) (simp_all add: timeline_clear_def contiguous_def [of "r\<lparr>tl_timeline := [], tl_active := [],
        tl_window := window_complete 0, tl_open := None\<rparr>"] del: push_fields)
qed

section \<open>Running tools and their entries\<close>

text \<open>An entry that is still retained is live exactly when its tool is still running.\<close>

definition coherent :: "timeline_reducer \<Rightarrow> bool" where
  "coherent r \<longleftrightarrow> (\<forall>e \<in> set (tl_timeline r). \<forall>call. live_call call (te_entry e) \<longleftrightarrow>
     (\<exists>a \<in> set (tl_active r). at_occurrence_id a = te_id e \<and> at_tool_call_id a = call))"

lemma update_last_unique:
  "distinct (map key xs) \<Longrightarrow>
     update_last (\<lambda>x. key x = k \<and> q x) f xs = map (\<lambda>x. if key x = k \<and> q x then f x else x) xs"
proof (induction xs rule: rev_induct)
  case (snoc x xs)
  have "map (\<lambda>x. if key x = k \<and> q x then f x else x) xs = xs" if "key x = k"
    using snoc.prems that by (intro map_idI) (simp, metis image_eqI)
  with snoc show ?case by auto
qed (simp add: update_last_def)

lemma set_tool_not_tool: "\<not> is_tool k \<Longrightarrow> set_tool st out k = k"
  by (cases k) auto

lemma update_occurrence_map:
  assumes "timeline_core_wf r"
  shows "tl_timeline (update_occurrence occ st out r) =
    map (\<lambda>e. if te_id e = occ then e\<lparr>te_entry := set_tool st out (te_entry e)\<rparr> else e) (tl_timeline r)"
proof -
  have "distinct (map te_id (tl_timeline r))"
    using assms by (auto simp: timeline_core_wf_def entries_wf_def strict_sorted_iff)
  then show ?thesis
    by (auto simp: update_occurrence_def update_last_unique set_tool_not_tool intro!: map_cong)
qed

lemma live_set_tool:
  "live_call call (set_tool st out k) \<longleftrightarrow> \<not> is_terminal st \<and> (\<exists>n t s old tr. k = TL_Tool call n t s old tr)"
  by (cases k) auto

lemma live_call_tool: "live_call call k \<Longrightarrow> \<exists>n t s old tr. k = TL_Tool call n t s old tr \<and> \<not> is_terminal s"
  by (cases k) auto

lemma find_occurrence_active:
  assumes "coherent r" and "find_occurrence call r = Some occ"
  shows "\<exists>a \<in> set (tl_active r). at_occurrence_id a = occ \<and> at_tool_call_id a = call"
proof (cases "find_map (\<lambda>e. if live_call call (te_entry e) then Some (te_id e) else None) (rev (tl_timeline r))")
  case None
  with assms(2) show ?thesis
    by (auto simp: find_occurrence_def find_Some_iff in_set_conv_nth)
      (metis length_rev nth_mem set_rev)
next
  case (Some i)
  then obtain e where "e \<in> set (tl_timeline r)" "live_call call (te_entry e)" "te_id e = i"
    by (auto dest!: find_map_Some split: if_splits)
  with assms Some show ?thesis by (auto simp: coherent_def find_occurrence_def)
qed

lemma coherent_push:
  assumes "coherent r" and "active_wf (tl_next_id r) (tl_active r)" and "\<And>call. \<not> live_call call k"
  shows "coherent (snd (push k r))"
  unfolding coherent_def
proof (intro ballI allI)
  fix e c
  assume "e \<in> set (tl_timeline (snd (push k r)))"
  then consider "e \<in> set (tl_timeline r)" | "te_id e = tl_next_id r" "te_entry e = k"
    by (auto dest!: in_set_dropD simp del: drop_append)
  then show "live_call c (te_entry e) \<longleftrightarrow>
      (\<exists>a \<in> set (tl_active (snd (push k r))). at_occurrence_id a = te_id e \<and> at_tool_call_id a = c)"
  proof cases
    case 1
    with assms(1) show ?thesis by (simp add: coherent_def)
  next
    case 2
    with assms(2,3) show ?thesis by (auto simp: active_wf_def)
  qed
qed

lemma coherent_start_tool:
  assumes "coherent r" and "timeline_core_wf r" and "\<not> is_terminal st"
  shows "coherent (snd (start_tool st call name title r))"
proof -
  have old: "te_id e < tl_next_id r" if "e \<in> set (tl_timeline r)" for e
    using assms(2) that by (auto simp: timeline_core_wf_def entries_wf_def)
  have act: "at_occurrence_id a < tl_next_id r" if "a \<in> set (tl_active r)" for a
    using assms(2) that by (auto simp: timeline_core_wf_def active_wf_def)
  let ?r = "snd (start_tool st call name title r)"
  show ?thesis
    unfolding coherent_def
  proof (intro ballI allI)
    fix e c
    assume "e \<in> set (tl_timeline ?r)"
    then consider "e \<in> set (tl_timeline r)"
      | "te_id e = tl_next_id r" "te_entry e = TL_Tool call name title st None False"
      by (auto simp: start_tool_def split_beta dest!: in_set_dropD simp del: drop_append)
    then show "live_call c (te_entry e) \<longleftrightarrow>
        (\<exists>a \<in> set (tl_active ?r). at_occurrence_id a = te_id e \<and> at_tool_call_id a = c)"
    proof cases
      case 1
      with assms(1) old [OF 1] show ?thesis by (auto simp: coherent_def start_tool_def split_beta)
    next
      case 2
      with assms(3) show ?thesis by (auto simp: start_tool_def split_beta dest: act)
    qed
  qed
qed

lemma coherent_update_tool:
  assumes "coherent r" and "timeline_core_wf r"
  shows "coherent (update_tool call st out r)"
proof (cases "find_occurrence call r")
  case None
  with assms(1) show ?thesis by (simp add: update_tool_def)
next
  case (Some occ)
  obtain a where a: "a \<in> set (tl_active r)" "at_occurrence_id a = occ" "at_tool_call_id a = call"
    using find_occurrence_active [OF assms(1) Some] by auto
  have dist: "distinct (map at_occurrence_id (tl_active r))"
    using assms(2) by (auto simp: timeline_core_wf_def active_wf_def strict_sorted_iff)
  have uniq: "at_tool_call_id b = call" if "b \<in> set (tl_active r)" "at_occurrence_id b = occ" for b
    using dist a that by (metis distinct_map inj_onD)
  have keep: "(\<exists>b \<in> set (update_first (\<lambda>a. at_occurrence_id a = occ) (\<lambda>a. a\<lparr>at_status := st\<rparr>) bs).
        at_occurrence_id b = i \<and> at_tool_call_id b = c) \<longleftrightarrow>
      (\<exists>b \<in> set bs. at_occurrence_id b = i \<and> at_tool_call_id b = c)" for bs i c
    by (induction bs) auto
  have live: "live_call c (te_entry e) \<longleftrightarrow>
      (\<exists>b \<in> set (tl_active r). at_occurrence_id b = te_id e \<and> at_tool_call_id b = c)"
    if "e \<in> set (tl_timeline r)" for e c
    using assms(1) that by (simp add: coherent_def)
  have hit: "\<exists>n t s old tr. te_entry e = TL_Tool call n t s old tr"
    if "e \<in> set (tl_timeline r)" "te_id e = occ" for e
  proof -
    have "live_call call (te_entry e)" using live [OF that(1)] a that(2) by auto
    then show ?thesis using live_call_tool by blast
  qed
  let ?r = "update_tool call st out r"
  have active: "(\<exists>b \<in> set (tl_active ?r). at_occurrence_id b = i \<and> at_tool_call_id b = c) \<longleftrightarrow>
      (i = occ \<longrightarrow> \<not> is_terminal st)
        \<and> (\<exists>b \<in> set (tl_active r). at_occurrence_id b = i \<and> at_tool_call_id b = c)" for i c
  proof (cases "is_terminal st")
    case True
    with Some show ?thesis by (auto simp: update_tool_def Let_def)
  next
    case False
    with Some keep [of "tl_active r" i c] show ?thesis by (simp add: update_tool_def Let_def)
  qed
  have entries: "tl_timeline ?r =
      map (\<lambda>e. if te_id e = occ then e\<lparr>te_entry := set_tool st out (te_entry e)\<rparr> else e) (tl_timeline r)"
    using Some by (simp add: update_tool_def Let_def update_occurrence_map [OF assms(2)])
  have "live_call c (te_entry (if te_id e = occ then e\<lparr>te_entry := set_tool st out (te_entry e)\<rparr> else e))
      \<longleftrightarrow> (te_id e = occ \<longrightarrow> \<not> is_terminal st) \<and> live_call c (te_entry e)"
    if e: "e \<in> set (tl_timeline r)" for e c
  proof (cases "te_id e = occ")
    case True
    have "live_call call (te_entry e)" using live [OF e] a True by auto
    then have "live_call c (te_entry e) \<longleftrightarrow> c = call" by (auto dest: live_call_tool)
    with True hit [OF e True] show ?thesis by (auto simp: live_set_tool)
  qed simp
  note pointwise = this
  show ?thesis
    unfolding coherent_def entries
  proof (intro ballI allI)
    fix e' c
    assume "e' \<in> set (map (\<lambda>e. if te_id e = occ then e\<lparr>te_entry := set_tool st out (te_entry e)\<rparr> else e)
        (tl_timeline r))"
    then obtain e where e: "e \<in> set (tl_timeline r)"
      and e': "e' = (if te_id e = occ then e\<lparr>te_entry := set_tool st out (te_entry e)\<rparr> else e)" by auto
    have "te_id e' = te_id e" by (simp add: e')
    then show "live_call c (te_entry e') \<longleftrightarrow>
        (\<exists>b \<in> set (tl_active ?r). at_occurrence_id b = te_id e' \<and> at_tool_call_id b = c)"
      using pointwise [OF e, of c] live [OF e, of c] active [of "te_id e" c] by (simp only: e')
  qed
qed

lemma coherent_append_text:
  assumes "coherent r" and "timeline_core_wf r"
  shows "coherent (append_text kind text r)"
proof (cases "extend_open kind text r")
  case None
  have "coherent (snd (push (text_entry kind text) (close_open r)))"
    using assms by (intro coherent_push) (cases kind; auto simp: coherent_def timeline_core_wf_def)+
  with None show ?thesis
    by (simp add: append_text_def split_beta coherent_def del: push_fields)
next
  case (Some r')
  then obtain es e k where r: "tl_timeline r = es @ [e]"
    "extend_text kind text (te_entry e) = Some k" "r' = r\<lparr>tl_timeline := es @ [e\<lparr>te_entry := k\<rparr>]\<rparr>"
    by (auto dest: extend_open_Some)
  then have "live_call c k = live_call c (te_entry e)" for c
    by (cases "(kind, text, te_entry e)" rule: extend_text.cases) auto
  with assms(1) Some r show ?thesis by (auto simp: append_text_def coherent_def)
qed

lemma coherent_apply_body:
  assumes "coherent r" and "timeline_core_wf r"
  shows "coherent (apply_body ev r)"
proof -
  have closed: "coherent (close_open r)" "active_wf (tl_next_id (close_open r)) (tl_active (close_open r))"
    using assms by (simp_all add: coherent_def timeline_core_wf_def)
  have pushed: "coherent (snd (push k (close_open r)))" if "\<And>call. \<not> live_call call k" for k
    using closed that by (rule coherent_push)
  have cleared: "coherent (timeline_clear r)" by (simp add: timeline_clear_def coherent_def)
  show ?thesis
    using assms cleared
    by (cases ev) (simp_all add: pushed coherent_update_tool coherent_append_text coherent_start_tool
        del: push_fields)
qed

subsection \<open>Which occurrence an update reaches\<close>

lemma find_map_last_max:
  "sorted_wrt (<) (map key xs) \<Longrightarrow>
     find_map (\<lambda>x. if p x then Some (key x) else None) (rev xs) = Some k \<Longrightarrow>
     \<forall>x \<in> set xs. p x \<longrightarrow> key x \<le> (k :: nat)"
proof (induction xs rule: rev_induct)
  case (snoc x xs)
  then show ?case by (fastforce simp: sorted_wrt_append split: if_splits)
qed simp

lemma find_rev_last:
  "p a \<Longrightarrow> (\<And>x. x \<in> set as \<Longrightarrow> \<not> p x) \<Longrightarrow> List.find p (rev (bs @ a # as)) = Some a"
  by (induction as rule: rev_induct) auto

lemma find_occurrence_newest:
  assumes wf: "timeline_core_wf r" "contiguous r" "coherent r"
    and split: "tl_active r = bs @ a # as" "at_tool_call_id a = call"
    and newest: "\<And>b. b \<in> set as \<Longrightarrow> at_tool_call_id b \<noteq> call"
  shows "find_occurrence call r = Some (at_occurrence_id a)"
proof (cases "find_map (\<lambda>e. if live_call call (te_entry e) then Some (te_id e) else None) (rev (tl_timeline r))")
  case None
  have "List.find (\<lambda>a. at_tool_call_id a = call) (rev (tl_active r)) = Some a"
    unfolding split(1) by (rule find_rev_last) (use split(2) newest in auto)
  with None show ?thesis by (simp add: find_occurrence_def)
next
  case (Some i)
  have sorted: "sorted_wrt (<) (map te_id (tl_timeline r))" "sorted_wrt (<) (map at_occurrence_id (tl_active r))"
    and bound: "at_occurrence_id a < tl_next_id r"
    using wf(1) split(1) by (auto simp: timeline_core_wf_def entries_wf_def active_wf_def)
  obtain e where e: "e \<in> set (tl_timeline r)" "live_call call (te_entry e)" "te_id e = i"
    using Some by (auto dest!: find_map_Some split: if_splits)
  then obtain a' where a': "a' \<in> set (tl_active r)" "at_occurrence_id a' = i" "at_tool_call_id a' = call"
    using wf(3) by (auto simp: coherent_def)
  then have "i \<le> at_occurrence_id a"
    using sorted(2) split newest by (auto simp: sorted_wrt_append dest: less_imp_le)
  moreover have "i \<in> set (map te_id (tl_timeline r))" using e by auto
  ultimately have "at_occurrence_id a \<in> set (map te_id (tl_timeline r))"
    using wf(2) bound by (simp add: contiguous_def del: set_map)
  then obtain e' where e': "e' \<in> set (tl_timeline r)" "te_id e' = at_occurrence_id a" by auto
  then have "live_call call (te_entry e')"
    using wf(3) split by (auto simp: coherent_def)
  then have "at_occurrence_id a \<le> i" using find_map_last_max [OF sorted(1) Some] e' by auto
  with \<open>i \<le> at_occurrence_id a\<close> Some show ?thesis by (simp add: find_occurrence_def)
qed

lemma find_occurrence_none:
  "coherent r \<Longrightarrow> \<forall>a \<in> set (tl_active r). at_tool_call_id a \<noteq> call \<Longrightarrow> find_occurrence call r = None"
  using find_occurrence_active [of r call] by (cases "find_occurrence call r") auto

section \<open>Runs of the reducer\<close>

definition timeline_inv :: "timeline_reducer \<Rightarrow> bool" where
  "timeline_inv r \<longleftrightarrow> timeline_wf r \<and> contiguous r \<and> coherent r"

lemma timeline_inv_new [wf_intros]: "timeline_inv (timeline_new n)"
  by (simp add: timeline_inv_def timeline_wf_new)
    (simp add: timeline_new_def from_parts_def Let_def next_id_of_def contiguous_def coherent_def
      saturating_add_exact u64_max_def)

lemma coherent_sync [simp]: "coherent (sync_window r) = coherent r"
  by (simp add: coherent_def)

lemma timeline_inv_apply [wf_intros]:
  "timeline_inv r \<Longrightarrow> tl_next_id r < u64_max \<Longrightarrow> timeline_inv (timeline_apply ev r)"
  by (simp add: timeline_inv_def timeline_apply_def contiguous_apply_body timeline_wf_def [of r]
      core_wf_apply_body coherent_apply_body)

lemma apply_body_max [simp]: "tl_max (apply_body ev r) = tl_max r"
  by (cases ev) (auto simp: append_text_def start_tool_def timeline_clear_def split_beta
      dest: extend_open_Some split: option.splits)

lemma timeline_apply_fields [simp]:
  "tl_max (timeline_apply ev r) = tl_max r"
  "tl_next_id (timeline_apply ev r) = tl_next_id (apply_body ev r)"
  by (simp_all add: timeline_apply_def)

lemma timeline_inv_fold:
  "timeline_inv r \<Longrightarrow> tl_next_id r + length evs \<le> u64_max \<Longrightarrow>
     timeline_inv (fold timeline_apply evs r)
     \<and> tl_next_id (fold timeline_apply evs r) \<le> tl_next_id r + length evs
     \<and> tl_max (fold timeline_apply evs r) = tl_max r"
proof (induction evs arbitrary: r)
  case (Cons ev evs)
  have "tl_next_id (apply_body ev r) \<le> Suc (tl_next_id r)"
    using next_id_apply_body [of ev r] Cons.prems(2) by (auto simp: saturating_add_exact)
  with Cons.IH [of "timeline_apply ev r"] Cons.prems show ?case
    by (simp add: timeline_inv_apply)
qed simp

text \<open>While the conversation is not cleared, the window accounts for every identity minted.\<close>

definition window_exact :: "nat \<Rightarrow> timeline_reducer \<Rightarrow> bool" where
  "window_exact start r \<longleftrightarrow>
     hw_truncated_before (tl_window r) + length (tl_timeline r) + start = tl_next_id r"

lemma window_exact_push:
  "window_exact b r \<Longrightarrow> tl_next_id r < u64_max \<Longrightarrow> window_exact b (snd (push k (close_open r)))"
  by (auto simp: window_exact_def push_truncated_before saturating_add_exact)

lemma window_exact_append_text:
  assumes "window_exact b r" and "tl_next_id r < u64_max"
  shows "window_exact b (append_text kind text r)"
proof (cases "extend_open kind text r")
  case None
  with window_exact_push [OF assms] show ?thesis
    by (simp add: append_text_def split_beta window_exact_def del: push_fields)
next
  case (Some r')
  with assms show ?thesis by (auto simp: append_text_def window_exact_def dest!: extend_open_Some)
qed

lemma window_exact_apply:
  assumes "window_exact b r" and "tl_next_id r < u64_max" and "ev \<noteq> ConversationCleared"
  shows "window_exact b (timeline_apply ev r)"
proof -
  have upd: "window_exact b (update_tool call st out r)" for call st out
    using assms(1) by (simp add: window_exact_def)
  have started: "window_exact b (snd (start_tool st call name title r))" for st call name title
    using window_exact_push [OF assms(1,2)]
    by (simp add: start_tool_def split_beta window_exact_def del: push_fields)
  have "window_exact b (apply_body ev r)"
    using assms upd started window_exact_append_text window_exact_push
    by (cases ev) (simp_all del: push_fields)
  then show ?thesis by (simp add: timeline_apply_def window_exact_def)
qed

lemma window_exact_fold:
  "window_exact b r \<Longrightarrow> tl_next_id r + length evs \<le> u64_max \<Longrightarrow> ConversationCleared \<notin> set evs \<Longrightarrow>
     window_exact b (fold timeline_apply evs r)"
proof (induction evs arbitrary: r)
  case (Cons ev evs)
  have "tl_next_id (apply_body ev r) \<le> Suc (tl_next_id r)"
    using next_id_apply_body [of ev r] Cons.prems(2) by (auto simp: saturating_add_exact)
  with Cons.IH [of "timeline_apply ev r"] Cons.prems show ?case
    by (auto simp: window_exact_apply)
qed simp

text \<open>Two consecutive deltas of one kind are one delta of their concatenation.\<close>

lemma extend_text_twice:
  "extend_text kind a k = Some k1 \<Longrightarrow> extend_text kind b k1 = extend_text kind (a @ b) k"
  by (cases "(kind, a, k)" rule: extend_text.cases) auto

lemma extend_text_is_Some: "extend_text kind a k = Some k1 \<Longrightarrow> \<exists>k2. extend_text kind b k = Some k2"
  by (cases "(kind, a, k)" rule: extend_text.cases) auto

lemma extend_text_entry: "extend_text kind b (text_entry kind a) = Some (text_entry kind (a @ b))"
  by (cases kind) auto

lemma extend_open_snoc:
  "tl_timeline r = es @ [e] \<Longrightarrow> tl_open r = Some (te_id e) \<Longrightarrow>
     extend_open kind text r =
       map_option (\<lambda>k. r\<lparr>tl_timeline := es @ [e\<lparr>te_entry := k\<rparr>]\<rparr>) (extend_text kind text (te_entry e))"
  by (simp add: extend_open_def)

lemma push_entries:
  assumes "1 \<le> tl_max r" and "tl_open r = None"
  shows "\<exists>es. tl_timeline (snd (push k r)) = es @ [\<lparr>te_id = tl_next_id r, te_order = tl_next_id r, te_entry = k\<rparr>]
    \<and> (\<forall>k'. snd (push k' r) = (snd (push k r))\<lparr>tl_timeline :=
          es @ [\<lparr>te_id = tl_next_id r, te_order = tl_next_id r, te_entry = k'\<rparr>]\<rparr>)"
proof -
  let ?es = "drop (Suc (length (tl_timeline r)) - tl_max r) (tl_timeline r)"
  have "Suc (length (tl_timeline r)) - tl_max r \<le> length (tl_timeline r)" using assms by simp
  then show ?thesis
    using assms(2) by (intro exI [of _ ?es]) (simp add: push_def Let_def trim_to_limit_def sync_window_def)
qed

lemma append_text_twice:
  assumes "1 \<le> tl_max r"
  shows "append_text kind b (append_text kind a r) = append_text kind (a @ b) r"
proof (cases "extend_open kind a r")
  case (Some r1)
  then obtain es e k where r: "tl_timeline r = es @ [e]" "tl_open r = Some (te_id e)"
    "extend_text kind a (te_entry e) = Some k" "r1 = r\<lparr>tl_timeline := es @ [e\<lparr>te_entry := k\<rparr>]\<rparr>"
    by (auto dest: extend_open_Some)
  obtain k2 where "extend_text kind (a @ b) (te_entry e) = Some k2"
    using extend_text_is_Some [OF r(3)] by blast
  then show ?thesis
    using Some r extend_text_twice [OF r(3), of b]
    by (simp add: append_text_def extend_open_snoc)
next
  case None
  let ?r = "close_open r" and ?n = "tl_next_id r"
  have none: "extend_open kind (a @ b) r = None"
  proof (rule ccontr)
    assume "extend_open kind (a @ b) r \<noteq> None"
    then obtain es e k where r: "tl_timeline r = es @ [e]" "tl_open r = Some (te_id e)"
      "extend_text kind (a @ b) (te_entry e) = Some k" by (auto dest: extend_open_Some)
    with None extend_text_is_Some [OF r(3), of a] show False by (auto simp: extend_open_snoc)
  qed
  obtain es where es: "tl_timeline (snd (push (text_entry kind a) ?r)) =
      es @ [\<lparr>te_id = ?n, te_order = ?n, te_entry = text_entry kind a\<rparr>]"
    "\<And>k'. snd (push k' ?r) = (snd (push (text_entry kind a) ?r))\<lparr>tl_timeline :=
          es @ [\<lparr>te_id = ?n, te_order = ?n, te_entry = k'\<rparr>]\<rparr>"
    using push_entries [of ?r "text_entry kind a"] assms unfolding close_open_fields by blast
  have "append_text kind b (append_text kind a r) =
      (snd (push (text_entry kind a) ?r))\<lparr>tl_timeline :=
          es @ [\<lparr>te_id = ?n, te_order = ?n, te_entry = text_entry kind (a @ b)\<rparr>], tl_open := Some ?n\<rparr>"
    using None es(1)
    by (simp add: append_text_def split_beta extend_open_snoc extend_text_entry del: push_fields)
  also have "\<dots> = append_text kind (a @ b) r"
    using none es(2) [of "text_entry kind (a @ b)"]
    by (simp add: append_text_def split_beta del: push_fields)
  finally show ?thesis .
qed

lemma window_wf_append_text: "window_wf r \<Longrightarrow> window_wf (append_text kind text r)"
  using window_wf_push [of "text_entry kind text" "close_open r"]
  by (auto simp: append_text_def split_beta window_wf_def dest!: extend_open_Some
      split: option.splits simp del: push_fields window_wf_push)

lemma append_text_max [simp]: "tl_max (append_text kind text r) = tl_max r"
  by (auto simp: append_text_def split_beta dest!: extend_open_Some split: option.splits)

lemma append_text_chunks:
  "window_wf r \<Longrightarrow> 1 \<le> tl_max r \<Longrightarrow>
     fold (\<lambda>t r. sync_window (append_text kind t r)) (c # cs) r
       = sync_window (append_text kind (concat (c # cs)) r)"
proof (induction cs arbitrary: c r)
  case (Cons d cs)
  have "sync_window (append_text kind c r) = append_text kind c r"
    using Cons.prems by (simp add: sync_window_wf window_wf_append_text)
  with Cons.IH [of "append_text kind c r" d] Cons.prems show ?case
    by (simp add: append_text_twice window_wf_append_text)
qed simp

section \<open>Properties\<close>

text \<open>
  Property C31. Whatever the events, as long as fewer than 2^64 - 1 of them have been applied, the
  reducer keeps at most \<open>max n 1\<close> entries, all with consecutive identities ending just below
  the next one; every retained tool entry is unfinished exactly when its tool is listed as
  running, and the reported window counts what is retained.
\<close>

theorem timeline_run_invariant:
  assumes "length evs < u64_max"
  shows "timeline_inv (fold timeline_apply evs (timeline_new n))
    \<and> length (tl_timeline (fold timeline_apply evs (timeline_new n))) \<le> max n 1"
proof -
  have new: "tl_next_id (timeline_new n) = 1" "tl_max (timeline_new n) = max n 1"
    by (simp_all add: timeline_new_def from_parts_def Let_def next_id_of_def saturating_add_exact u64_max_def)
  then have "timeline_inv (fold timeline_apply evs (timeline_new n))
      \<and> tl_max (fold timeline_apply evs (timeline_new n)) = max n 1"
    using timeline_inv_fold [OF timeline_inv_new, of n evs] assms by simp
  then show ?thesis by (auto simp: timeline_inv_def timeline_wf_def timeline_core_wf_def)
qed

theorem timeline_run_invariant_witness:
  "length (tl_timeline (fold timeline_apply
     [UserMessage ''a'' None, AssistantDelta ''b'', AssistantDone OC_Completed] (timeline_new 2))) \<le> 2"
  using timeline_run_invariant [of "[UserMessage ''a'' None, AssistantDelta ''b'', AssistantDone OC_Completed]" 2]
  by (simp add: u64_max_def)

text \<open>
  Observation. Until the conversation is cleared the window is exact: the entries it reports as
  truncated and the entries retained are together all the entries ever minted, and the retained
  ones are the newest.
\<close>

theorem window_accounts_for_all:
  fixes n and evs
  defines "r \<equiv> fold timeline_apply evs (timeline_new n)"
  assumes "length evs < u64_max" and "ConversationCleared \<notin> set evs"
  shows "hw_truncated_before (tl_window r) + hw_retained (tl_window r) = tl_next_id r - 1
    \<and> hw_total (tl_window r) = Some (tl_next_id r - 1)
    \<and> map te_id (tl_timeline r) = [Suc (hw_truncated_before (tl_window r)) ..< tl_next_id r]"
proof -
  have new: "tl_next_id (timeline_new n) = 1" "window_exact 1 (timeline_new n)"
    by (simp_all add: timeline_new_def from_parts_def Let_def next_id_of_def saturating_add_exact
        u64_max_def window_exact_def trim_truncated_before window_complete_def)
  have inv: "timeline_inv r" "tl_next_id r \<le> Suc (length evs)"
    using timeline_inv_fold [OF timeline_inv_new, of n evs] assms new by simp_all
  have exact: "window_exact 1 r"
    unfolding r_def by (rule window_exact_fold) (use assms new in auto)
  have wf: "window_wf r" "contiguous r" using inv(1) by (simp_all add: timeline_inv_def timeline_wf_def)
  let ?t = "hw_truncated_before (tl_window r)" and ?l = "length (tl_timeline r)"
  have next_id: "tl_next_id r = Suc (?t + ?l)" using exact by (simp add: window_exact_def)
  then have "saturating_add ?t ?l = ?t + ?l" using inv(2) assms(2) by (intro saturating_add_exact) linarith
  with wf next_id show ?thesis by (simp add: window_wf_def contiguous_def)
qed

theorem window_accounts_for_all_witness:
  "hw_truncated_before (tl_window (fold timeline_apply
     [UserMessage ''a'' None, AssistantDelta ''b'', AssistantDone OC_Completed] (timeline_new 2))) = 1"
proof -
  let ?evs = "[UserMessage ''a'' None, AssistantDelta ''b'', AssistantDone OC_Completed]"
  have "tl_next_id (fold timeline_apply ?evs (timeline_new 2)) = 4
      \<and> hw_retained (tl_window (fold timeline_apply ?evs (timeline_new 2))) = 2" by code_simp
  moreover have "length ?evs < u64_max" "ConversationCleared \<notin> set ?evs" by (simp_all add: u64_max_def)
  ultimately show ?thesis using window_accounts_for_all [of ?evs 2] by linarith
qed

text \<open>
  Observation. A terminal tool event reaches the newest running occurrence of its call and
  nothing else: that occurrence leaves the running list, its entry (when still retained) takes
  the status and output of the event, and every other entry and running tool is untouched. When
  the call has no running occurrence the event changes nothing, so a late or repeated finish
  cannot rewrite history.
\<close>

theorem terminal_event_targets_newest:
  assumes "timeline_inv r" and "is_terminal st"
  shows "(tl_active r = before @ a # after \<and> at_tool_call_id a = call
      \<and> (\<forall>b \<in> set after. at_tool_call_id b \<noteq> call) \<longrightarrow>
      tl_active (timeline_apply (ToolCallFinished call st out) r) = before @ after
      \<and> tl_timeline (timeline_apply (ToolCallFinished call st out) r) =
          map (\<lambda>e. if te_id e = at_occurrence_id a
                   then e\<lparr>te_entry := set_tool st (Some out) (te_entry e)\<rparr> else e) (tl_timeline r))
    \<and> ((\<forall>b \<in> set (tl_active r). at_tool_call_id b \<noteq> call) \<longrightarrow>
        timeline_apply (ToolCallFinished call st out) r = r)"
proof (intro conjI impI)
  assume split: "tl_active r = before @ a # after \<and> at_tool_call_id a = call
      \<and> (\<forall>b \<in> set after. at_tool_call_id b \<noteq> call)"
  have wf: "timeline_core_wf r" "contiguous r" "coherent r"
    using assms(1) by (simp_all add: timeline_inv_def timeline_wf_def)
  have occ: "find_occurrence call r = Some (at_occurrence_id a)"
    using find_occurrence_newest [OF wf] split by blast
  have "\<forall>b \<in> set before \<union> set after. at_occurrence_id b \<noteq> at_occurrence_id a"
    using wf(1) split by (auto simp: timeline_core_wf_def active_wf_def sorted_wrt_append)
  then show "tl_active (timeline_apply (ToolCallFinished call st out) r) = before @ after"
    using occ assms(2) split
    by (simp add: timeline_apply_def update_tool_def Let_def filter_id_conv)
  show "tl_timeline (timeline_apply (ToolCallFinished call st out) r) =
      map (\<lambda>e. if te_id e = at_occurrence_id a
               then e\<lparr>te_entry := set_tool st (Some out) (te_entry e)\<rparr> else e) (tl_timeline r)"
    using occ assms(2) update_occurrence_map [OF wf(1)]
    by (simp add: timeline_apply_def update_tool_def Let_def)
next
  assume "\<forall>b \<in> set (tl_active r). at_tool_call_id b \<noteq> call"
  then have "find_occurrence call r = None"
    using assms(1) by (simp add: timeline_inv_def find_occurrence_none)
  then show "timeline_apply (ToolCallFinished call st out) r = r"
    using assms(1) by (simp add: timeline_apply_def update_tool_def timeline_inv_def timeline_wf_def sync_window_wf)
qed

theorem terminal_event_targets_newest_witness:
  "tl_active (timeline_apply (ToolCallFinished ''c'' Completed ''ok'')
     (timeline_apply (ToolCallStarted ''c'' ''n'' ''t'' None) (timeline_new 2))) = []"
proof -
  let ?r = "timeline_apply (ToolCallStarted ''c'' ''n'' ''t'' None) (timeline_new 2)"
  have inv: "timeline_inv ?r"
    by (rule timeline_inv_apply [OF timeline_inv_new]) code_simp
  let ?a = "\<lparr>at_occurrence_id = 1, at_tool_call_id = ''c'', at_name = ''n'', at_title = ''t'',
      at_status = Pending, at_content_truncated = False\<rparr>"
  have "tl_active ?r = [] @ ?a # []" by code_simp
  then show ?thesis
    using terminal_event_targets_newest [OF inv, of Completed "[]" ?a "[]" "''c''" "''ok''"] by simp
qed

text \<open>
  Observation. The boundaries of streamed chunks do not matter: applying the deltas of a reply
  one after another leaves the same reducer as applying their concatenation at once.
\<close>

theorem streamed_text_chunking:
  assumes "timeline_wf r"
  shows "fold timeline_apply (map AssistantDelta (c # cs)) r = timeline_apply (AssistantDelta (concat (c # cs))) r
    \<and> fold timeline_apply (map ThoughtDelta (c # cs)) r = timeline_apply (ThoughtDelta (concat (c # cs))) r"
  using append_text_chunks [of r TK_Assistant c cs] append_text_chunks [of r TK_Thought c cs] assms
  by (simp add: timeline_apply_def [abs_def] fold_map comp_def timeline_wf_def timeline_core_wf_def)

theorem streamed_text_chunking_witness:
  "fold timeline_apply (map AssistantDelta [''he'', ''llo'']) (timeline_new 5)
     = timeline_apply (AssistantDelta ''hello'') (timeline_new 5)"
  using streamed_text_chunking [OF timeline_wf_new, of "''he''" "[''llo'']" 5] by simp

end
