(* ===== verification/View.thy ===== *)
theory View
  imports Timeline
begin

text \<open>
  The frontend state reducer (src/src/frontend_state.rs): a fold over the sequenced session
  events and the canonical snapshots, with its compatibility projections. The lemmas show that
  the projections never drift from the timeline, and that whatever the transport delivers, the
  view is the fold of a prefix of the canonical event log. The locale \<open>event_source\<close> is what a
  client relies on when it catches up from a replay.
\<close>

record view_line =
  vl_role :: transcript_role
  vl_text :: string
  vl_open :: bool

definition committed :: "transcript_role \<Rightarrow> string \<Rightarrow> view_line" where
  "committed role text = \<lparr>vl_role = role, vl_text = text, vl_open = False\<rparr>"

datatype apply_outcome = Applied | Duplicate | Gap nat

record view_state =
  vs_session_id :: string
  vs_last_seq :: nat
  vs_turn_status :: turn_status
  vs_durability_status :: durability_status
  vs_timeline :: timeline_reducer
  vs_transcript :: "view_line list"
  vs_tool_calls :: "tool_call_state list"
  vs_pending_approvals :: "approval_request list"
  vs_runtime_options :: "runtime_option list"
  vs_context_usage :: "context_usage option"
  vs_max_scrollback :: nat
  vs_ending_reason :: "string option"

definition with_scrollback_limit :: "string \<Rightarrow> nat \<Rightarrow> view_state" where
  "with_scrollback_limit session max_entries =
     \<lparr>vs_session_id = session, vs_last_seq = 0, vs_turn_status = Idle, vs_durability_status = Saved,
      vs_timeline = timeline_new max_entries, vs_transcript = [], vs_tool_calls = [],
      vs_pending_approvals = [], vs_runtime_options = [], vs_context_usage = None,
      vs_max_scrollback = max max_entries 1, vs_ending_reason = None\<rparr>"

definition default_scrollback_entries :: nat where "default_scrollback_entries = 2000"

definition view_new :: "string \<Rightarrow> view_state" where
  "view_new session = with_scrollback_limit session default_scrollback_entries"

fun outcome_note :: "assistant_outcome \<Rightarrow> string option" where
  "outcome_note OC_Completed = None"
| "outcome_note (OC_Errored retryable message) = Some (''[turn errored: '' @ message @ '']'')"
| "outcome_note OC_Refused = Some ''[turn refused]''"
| "outcome_note OC_Aborted = Some ''[turn interrupted]''"
| "outcome_note OC_MaxTokens = Some ''[turn hit the output token limit]''"

fun project_line :: "timeline_reducer \<Rightarrow> nat \<Rightarrow> timeline_entry_kind \<Rightarrow> view_line option" where
  "project_line r i (TL_User text _) = Some (committed TR_User text)"
| "project_line r i (TL_Assistant text _) = Some \<lparr>vl_role = TR_Assistant, vl_text = text, vl_open = is_open r i\<rparr>"
| "project_line r i (TL_Thought text _) = Some \<lparr>vl_role = TR_Thought, vl_text = text, vl_open = is_open r i\<rparr>"
| "project_line r i (TL_System text _) = Some (committed TR_System text)"
| "project_line r i (TL_Outcome outcome) = map_option (committed TR_System) (outcome_note outcome)"
| "project_line r i (TL_Tool _ _ _ _ _ _) = None"

fun project_tool :: "timeline_entry_kind \<Rightarrow> tool_call_state option" where
  "project_tool (TL_Tool call name title st out _) =
     Some \<lparr>tcs_id = call, tcs_name = name, tcs_title = title, tcs_status = st, tcs_output = out\<rparr>"
| "project_tool _ = None"

definition projected_transcript :: "timeline_reducer \<Rightarrow> view_line list" where
  "projected_transcript r = List.map_filter (\<lambda>e. project_line r (te_id e) (te_entry e)) (tl_timeline r)"

definition projected_tools :: "timeline_reducer \<Rightarrow> tool_call_state list" where
  "projected_tools r = List.map_filter (\<lambda>e. project_tool (te_entry e)) (tl_timeline r)"

definition sync_projection :: "view_state \<Rightarrow> view_state" where
  "sync_projection v = v\<lparr>vs_transcript := projected_transcript (vs_timeline v),
                         vs_tool_calls := projected_tools (vs_timeline v)\<rparr>"

definition history_truncated :: "view_state \<Rightarrow> bool" where
  "history_truncated v = is_truncated (tl_window (vs_timeline v))"

definition active_approval :: "view_state \<Rightarrow> approval_request option" where
  "active_approval v = (case vs_pending_approvals v of [] \<Rightarrow> None | a # _ \<Rightarrow> Some a)"

definition clear_transcript :: "view_state \<Rightarrow> view_state" where
  "clear_transcript v = sync_projection (v\<lparr>vs_timeline := timeline_clear (vs_timeline v)\<rparr>)"

definition push_system_message :: "string \<Rightarrow> view_state \<Rightarrow> view_state" where
  "push_system_message text v = sync_projection (v\<lparr>vs_timeline := push_system text (vs_timeline v)\<rparr>)"

definition apply_attach_watermark :: "string \<Rightarrow> nat \<Rightarrow> view_state \<Rightarrow> view_state" where
  "apply_attach_watermark session seq v =
     v\<lparr>vs_session_id := session, vs_last_seq := seq, vs_turn_status := Idle,
       vs_durability_status := Saved, vs_timeline := timeline_clear (vs_timeline v),
       vs_transcript := [], vs_tool_calls := [], vs_pending_approvals := [],
       vs_runtime_options := [], vs_context_usage := None, vs_ending_reason := None\<rparr>"

definition apply_snapshot :: "session_snapshot \<Rightarrow> view_state \<Rightarrow> view_state" where
  "apply_snapshot s v =
     (sync_projection (v\<lparr>vs_session_id := ss_session_id s, vs_last_seq := ss_seq s,
        vs_turn_status := ss_turn_status s, vs_durability_status := ss_durability_status s,
        vs_timeline := from_parts (ss_timeline s) (ss_active_tools s) (ss_history_window s)
                         (vs_max_scrollback v),
        vs_pending_approvals := ss_pending_approvals s, vs_runtime_options := ss_runtime_options s,
        vs_context_usage := ss_context_usage s\<rparr>))\<lparr>vs_ending_reason := None\<rparr>"

fun apply_event_body :: "session_event \<Rightarrow> view_state \<Rightarrow> view_state" where
  "apply_event_body (ApprovalRequested request) v =
     (if list_ex (\<lambda>a. ar_id a = ar_id request) (vs_pending_approvals v) then v
      else v\<lparr>vs_pending_approvals := vs_pending_approvals v @ [request]\<rparr>)"
| "apply_event_body (ApprovalResolved approval_id _ _) v =
     v\<lparr>vs_pending_approvals := filter (\<lambda>a. ar_id a \<noteq> approval_id) (vs_pending_approvals v)\<rparr>"
| "apply_event_body (ApprovalDeadlineChanged approval_id deadline paused) v =
     v\<lparr>vs_pending_approvals := update_first (\<lambda>a. ar_id a = approval_id)
         (\<lambda>a. a\<lparr>ar_deadline := Some deadline, ar_paused := paused\<rparr>) (vs_pending_approvals v)\<rparr>"
| "apply_event_body (RuntimeOptionsChanged options) v = v\<lparr>vs_runtime_options := options\<rparr>"
| "apply_event_body (ContextUsageChanged usage) v = v\<lparr>vs_context_usage := Some usage\<rparr>"
| "apply_event_body ConversationCleared v = v\<lparr>vs_pending_approvals := [], vs_ending_reason := None\<rparr>"
| "apply_event_body (TurnStatusChanged st) v = v\<lparr>vs_turn_status := st\<rparr>"
| "apply_event_body (DurabilityStatusChanged st) v = v\<lparr>vs_durability_status := st\<rparr>"
| "apply_event_body (SessionEnding reason) v = v\<lparr>vs_ending_reason := Some reason\<rparr>"
| "apply_event_body _ v = v"

definition apply_event :: "nat \<Rightarrow> session_event \<Rightarrow> view_state \<Rightarrow> apply_outcome \<times> view_state" where
  "apply_event seq ev v =
     (if seq \<le> vs_last_seq v then (Duplicate, v)
      else (let expected = vs_last_seq v + 1 in
        if seq \<noteq> expected then (Gap expected, v)
        else (Applied,
          sync_projection (apply_event_body ev
            (v\<lparr>vs_last_seq := seq, vs_timeline := timeline_apply ev (vs_timeline v)\<rparr>)))))"

definition deliver :: "nat \<times> session_event \<Rightarrow> view_state \<Rightarrow> view_state" where
  "deliver d v = snd (apply_event (fst d) (snd d) v)"

section \<open>The projections follow the timeline\<close>

definition projected :: "view_state \<Rightarrow> bool" where
  "projected v \<longleftrightarrow> vs_transcript v = projected_transcript (vs_timeline v)
     \<and> vs_tool_calls v = projected_tools (vs_timeline v)"

definition view_wf :: "view_state \<Rightarrow> bool" where
  "view_wf v \<longleftrightarrow> projected v \<and> timeline_core_wf (vs_timeline v)
     \<and> distinct (map ar_id (vs_pending_approvals v)) \<and> tl_max (vs_timeline v) = vs_max_scrollback v"

lemma sync_projection_fields [simp]:
  "vs_timeline (sync_projection v) = vs_timeline v" "vs_last_seq (sync_projection v) = vs_last_seq v"
  "vs_pending_approvals (sync_projection v) = vs_pending_approvals v"
  "vs_max_scrollback (sync_projection v) = vs_max_scrollback v"
  "projected (sync_projection v)"
  by (simp_all add: sync_projection_def projected_def)

lemma apply_event_body_fields [simp]:
  "vs_timeline (apply_event_body ev v) = vs_timeline v" "vs_last_seq (apply_event_body ev v) = vs_last_seq v"
  "vs_max_scrollback (apply_event_body ev v) = vs_max_scrollback v"
  by (cases ev; simp)+

lemma apply_event_body_distinct:
  "distinct (map ar_id (vs_pending_approvals v)) \<Longrightarrow>
     distinct (map ar_id (vs_pending_approvals (apply_event_body ev v)))"
  by (cases ev) (auto simp: list_ex_iff distinct_map_filter map_update_first)

lemma projected_empty:
  "tl_timeline r = [] \<Longrightarrow> projected_transcript r = [] \<and> projected_tools r = []"
  by (simp add: projected_transcript_def projected_tools_def map_filter_simps)

lemma view_wf_new [wf_intros]: "view_wf (with_scrollback_limit session n)"
proof -
  have new: "tl_timeline (timeline_new n) = []" "tl_max (timeline_new n) = max n 1"
    by (simp_all add: timeline_new_def from_parts_def Let_def)
  show ?thesis
    using timeline_wf_new [of n] projected_empty [OF new(1)] new(2)
    by (simp add: view_wf_def with_scrollback_limit_def projected_def timeline_wf_def)
qed

lemma deliver_cases:
  "deliver (seq, ev) v =
     (if seq = Suc (vs_last_seq v)
      then sync_projection (apply_event_body ev
             (v\<lparr>vs_last_seq := seq, vs_timeline := timeline_apply ev (vs_timeline v)\<rparr>))
      else v)"
  by (simp add: deliver_def apply_event_def Let_def)

lemma view_wf_deliver [wf_intros]:
  assumes "view_wf v" and "tl_next_id (vs_timeline v) < u64_max"
  shows "view_wf (deliver (seq, ev) v)"
proof -
  have "timeline_core_wf (timeline_apply ev (vs_timeline v))"
    using assms core_wf_apply_body by (simp add: view_wf_def timeline_apply_def)
  with assms show ?thesis
    by (simp add: deliver_cases view_wf_def apply_event_body_distinct)
qed

text \<open>What a canonical snapshot promises: ordered entries and running tools, one request per approval.\<close>

definition snapshot_wf :: "session_snapshot \<Rightarrow> bool" where
  "snapshot_wf s \<longleftrightarrow> entries_wf u64_max (ss_timeline s) \<and> active_wf u64_max (ss_active_tools s)
     \<and> distinct (map ar_id (ss_pending_approvals s))"

lemma fold_max_ge: "(m :: nat) \<le> fold max xs m \<and> (\<forall>x \<in> set xs. x \<le> fold max xs m)"
proof (induction xs arbitrary: m)
  case (Cons x xs)
  from Cons [of "max x m"] show ?case by auto
qed simp

lemma fold_max_less: "m < n \<Longrightarrow> \<forall>x \<in> set xs. x < n \<Longrightarrow> fold max xs m < (n :: nat)"
  by (induction xs arbitrary: m) auto

lemma fold_update_occurrence_fields:
  "tl_active (fold (\<lambda>a. update_occurrence (f a) (g a) out) as r) = tl_active r
   \<and> tl_max (fold (\<lambda>a. update_occurrence (f a) (g a) out) as r) = tl_max r
   \<and> tl_next_id (fold (\<lambda>a. update_occurrence (f a) (g a) out) as r) = tl_next_id r
   \<and> tl_open (fold (\<lambda>a. update_occurrence (f a) (g a) out) as r) = tl_open r
   \<and> map te_id (tl_timeline (fold (\<lambda>a. update_occurrence (f a) (g a) out) as r)) = map te_id (tl_timeline r)
   \<and> map te_order (tl_timeline (fold (\<lambda>a. update_occurrence (f a) (g a) out) as r)) = map te_order (tl_timeline r)"
  by (induction as arbitrary: r) simp_all

lemma next_id_of_bound:
  assumes "entries_wf u64_max entries" and "active_wf u64_max active"
  shows "entries_wf (next_id_of entries active) entries \<and> active_wf (next_id_of entries active) active"
proof -
  let ?ids = "map (\<lambda>e. max (te_id e) (te_order e)) entries @ map at_occurrence_id active"
  have "fold max ?ids 0 < u64_max"
    by (rule fold_max_less) (use assms in \<open>auto simp: entries_wf_def active_wf_def u64_max_def\<close>)
  then have "next_id_of entries active = Suc (fold max ?ids 0)"
    by (simp add: next_id_of_def saturating_add_exact)
  moreover have "\<forall>i \<in> set ?ids. i \<le> fold max ?ids 0" using fold_max_ge by blast
  ultimately show ?thesis
    using assms by (auto simp: entries_wf_def active_wf_def less_Suc_eq_le)
qed

lemma core_wf_from_parts:
  assumes "entries_wf u64_max entries" and "active_wf u64_max active"
  shows "timeline_core_wf (from_parts entries active window n)"
    and "tl_max (from_parts entries active window n) = max n 1"
proof -
  let ?r = "\<lparr>tl_timeline = entries, tl_active = active, tl_window = window,
               tl_max = max n 1, tl_next_id = next_id_of entries active, tl_open = None\<rparr>"
  let ?u = "fold (\<lambda>a. update_occurrence (at_occurrence_id a) (at_status a) None) active ?r"
  have u: "tl_active ?u = active" "tl_max ?u = max n 1" "tl_next_id ?u = next_id_of entries active"
    "tl_open ?u = None" "map te_id (tl_timeline ?u) = map te_id entries"
    "map te_order (tl_timeline ?u) = map te_order entries"
    using fold_update_occurrence_fields [of at_occurrence_id at_status None active ?r] by simp_all
  have eq: "from_parts entries active window n = sync_window (trim_to_limit ?u)"
    by (simp add: from_parts_def Let_def)
  have "entries_wf (next_id_of entries active) (tl_timeline ?u)"
    using next_id_of_bound [OF assms] entries_wf_same_ids [OF u(5,6)] by blast
  then show "timeline_core_wf (from_parts entries active window n)"
    using next_id_of_bound [OF assms] u
    unfolding eq timeline_core_wf_sync by (simp add: timeline_core_wf_def entries_wf_drop)
  show "tl_max (from_parts entries active window n) = max n 1" unfolding eq using u(2) by simp
qed

lemma view_wf_snapshot [wf_intros]:
  "snapshot_wf s \<Longrightarrow> 1 \<le> vs_max_scrollback v \<Longrightarrow> view_wf (apply_snapshot s v)"
  by (simp add: snapshot_wf_def apply_snapshot_def view_wf_def core_wf_from_parts)
    (simp add: sync_projection_def projected_def)

lemma view_wf_watermark [wf_intros]: "view_wf v \<Longrightarrow> view_wf (apply_attach_watermark session seq v)"
  using projected_empty [of "timeline_clear (vs_timeline v)"]
  by (simp add: view_wf_def apply_attach_watermark_def projected_def core_wf_clear)
    (simp add: timeline_clear_def)

lemma view_wf_clear [wf_intros]: "view_wf v \<Longrightarrow> view_wf (clear_transcript v)"
  by (simp add: view_wf_def clear_transcript_def core_wf_clear) (simp add: timeline_clear_def)

lemma view_wf_system [wf_intros]:
  "view_wf v \<Longrightarrow> tl_next_id (vs_timeline v) < u64_max \<Longrightarrow> view_wf (push_system_message text v)"
  by (simp add: view_wf_def push_system_message_def push_system_def core_wf_push del: push_fields)
    (simp add: push_fields)

section \<open>Delivery in any order\<close>

text \<open>
  \<open>log\<close> is the canonical stream: the event of every sequence number. The view after the first
  \<open>n\<close> events is the fold of the log from the view's own watermark.
\<close>

definition catch_up :: "(nat \<Rightarrow> session_event) \<Rightarrow> nat \<Rightarrow> view_state \<Rightarrow> view_state" where
  "catch_up log n v = fold deliver (map (\<lambda>s. (s, log s)) [Suc (vs_last_seq v) ..< Suc n]) v"

lemma deliver_next [simp]: "vs_last_seq (deliver (seq, ev) v) =
    (if seq = Suc (vs_last_seq v) then seq else vs_last_seq v)"
  by (simp add: deliver_cases)

lemma applied_iff: "fst (apply_event seq ev v) = Applied \<longleftrightarrow> seq = Suc (vs_last_seq v)"
  by (simp add: apply_event_def Let_def)

lemma deliver_other: "seq \<noteq> Suc (vs_last_seq v) \<Longrightarrow> deliver (seq, ev) v = v"
  by (simp add: deliver_cases)

lemma catch_up_seq: "vs_last_seq v \<le> n \<Longrightarrow> vs_last_seq (catch_up log n v) = n"
proof (induction n)
  case (Suc n)
  then show ?case
    by (cases "vs_last_seq v = Suc n") (simp_all add: catch_up_def)
qed (simp add: catch_up_def)

lemma catch_up_Suc:
  "vs_last_seq v \<le> n \<Longrightarrow> catch_up log (Suc n) v = deliver (Suc n, log (Suc n)) (catch_up log n v)"
  by (simp add: catch_up_def)

lemma catch_up_here [simp]: "catch_up log (vs_last_seq v) v = v"
  by (simp add: catch_up_def)

lemma delivered_prefix:
  "\<exists>n \<ge> vs_last_seq v. fold deliver (map (\<lambda>s. (s, log s)) ss) v = catch_up log n v"
proof (induction ss rule: rev_induct)
  case Nil
  show ?case by (intro exI [of _ "vs_last_seq v"]) simp
next
  case (snoc s ss)
  then obtain n where n: "vs_last_seq v \<le> n"
    and prefix: "fold deliver (map (\<lambda>s. (s, log s)) ss) v = catch_up log n v" by blast
  show ?case
  proof (cases "s = Suc n")
    case True
    with n prefix show ?thesis by (intro exI [of _ "Suc n"]) (simp add: catch_up_Suc)
  next
    case False
    with n prefix show ?thesis
      by (intro exI [of _ n]) (simp add: deliver_other catch_up_seq)
  qed
qed

lemma deliver_mono: "vs_last_seq v \<le> vs_last_seq (fold deliver ds v)"
proof (induction ds arbitrary: v)
  case (Cons d ds)
  have "vs_last_seq v \<le> vs_last_seq (deliver d v)" by (cases d) simp
  with Cons [of "deliver d v"] show ?case by simp
qed simp

lemma subseq_reaches:
  "subseq [Suc (vs_last_seq v) ..< Suc n] ss \<Longrightarrow>
     n \<le> vs_last_seq (fold deliver (map (\<lambda>s. (s, log s)) ss) v)"
proof (induction ss arbitrary: v)
  case (Cons s ss)
  show ?case
  proof (cases "vs_last_seq v < n")
    case True
    then have upt: "[Suc (vs_last_seq v) ..< Suc n] = Suc (vs_last_seq v) # [Suc (Suc (vs_last_seq v)) ..< Suc n]"
      by (simp add: upt_conv_Cons del: upt_Suc)
    show ?thesis
    proof (cases "s = Suc (vs_last_seq v)")
      case True
      with Cons.prems upt have "subseq [Suc (Suc (vs_last_seq v)) ..< Suc n] ss"
        by (simp del: upt_Suc)
      with Cons.IH [of "deliver (s, log s) v"] True show ?thesis by (simp del: upt_Suc)
    next
      case False
      with Cons.prems upt have "subseq [Suc (vs_last_seq v) ..< Suc n] ss"
        by (simp del: upt_Suc)
      with Cons.IH [of v] False show ?thesis by (simp add: deliver_other del: upt_Suc)
    qed
  next
    case False
    with deliver_mono [of v "map (\<lambda>s. (s, log s)) (s # ss)"] show ?thesis by simp
  qed
qed (auto split: if_splits)

section \<open>What a client relies on to catch up\<close>

text \<open>
  A source answers a request for the events after a watermark either with a batch or with a
  demand for a snapshot. A batch starts just after the watermark, has no holes and ends at the
  latest sequence number; asking later returns a suffix of what would have been returned.
\<close>

locale event_source =
  fixes valid :: "'s \<Rightarrow> bool"
    and latest :: "'s \<Rightarrow> nat"
    and since :: "'s \<Rightarrow> nat \<Rightarrow> (nat \<times> session_event) list option"
  assumes contiguous_batch:
      "valid s \<Longrightarrow> since s n = Some es \<Longrightarrow> n \<le> latest s \<and> map fst es = [Suc n ..< Suc (latest s)]"
    and suffix_batch:
      "valid s \<Longrightarrow> since s n = Some es \<Longrightarrow> n \<le> m \<Longrightarrow> m \<le> latest s \<Longrightarrow> since s m = Some (drop (m - n) es)"
begin

lemma batch_applies:
  "map fst es = [Suc (vs_last_seq v) ..< Suc k] \<Longrightarrow> vs_last_seq v \<le> k \<Longrightarrow>
     vs_last_seq (fold deliver es v) = k
     \<and> (\<forall>i < length es. fst (apply_event (fst (es ! i)) (snd (es ! i)) (fold deliver (take i es) v)) = Applied)"
proof (induction es arbitrary: v)
  case (Cons d es)
  obtain s e where d: "d = (s, e)" by force
  have lt: "vs_last_seq v < k" using Cons.prems(1)
    by (cases "vs_last_seq v < k") (simp_all add: not_less del: upt_Suc)
  then have upt: "[Suc (vs_last_seq v) ..< Suc k] = Suc (vs_last_seq v) # [Suc (Suc (vs_last_seq v)) ..< Suc k]"
    by (simp add: upt_conv_Cons del: upt_Suc)
  have s: "s = Suc (vs_last_seq v)" using Cons.prems(1) d upt by (simp del: upt_Suc)
  have "vs_last_seq (fold deliver es (deliver d v)) = k
     \<and> (\<forall>i < length es. fst (apply_event (fst (es ! i)) (snd (es ! i)) (fold deliver (take i es) (deliver d v))) = Applied)"
    using Cons.IH [of "deliver d v"] Cons.prems(1) lt d s upt by (simp del: upt_Suc)
  then show ?case
    by (auto simp: d s applied_iff less_Suc_eq_0_disj)
qed (simp split: if_splits)

lemma client_catches_up:
  assumes "valid s" and "since s (vs_last_seq v) = Some es"
  shows "vs_last_seq (fold deliver es v) = latest s"
    and "\<And>i. i < length es \<Longrightarrow>
           fst (apply_event (fst (es ! i)) (snd (es ! i)) (fold deliver (take i es) v)) = Applied"
proof -
  have "vs_last_seq v \<le> latest s" "map fst es = [Suc (vs_last_seq v) ..< Suc (latest s)]"
    using contiguous_batch [OF assms] by simp_all
  then show "vs_last_seq (fold deliver es v) = latest s"
    "\<And>i. i < length es \<Longrightarrow>
        fst (apply_event (fst (es ! i)) (snd (es ! i)) (fold deliver (take i es) v)) = Applied"
    using batch_applies [of es v "latest s"] by simp_all
qed

text \<open>Reconnecting in the middle of a batch ends in the same view as applying it whole.\<close>

lemma reconnect_converges:
  assumes "valid s" and "since s (vs_last_seq v) = Some es" and "k \<le> length es"
  shows "\<exists>rest. since s (vs_last_seq (fold deliver (take k es) v)) = Some rest
      \<and> fold deliver rest (fold deliver (take k es) v) = fold deliver es v"
proof -
  let ?n = "vs_last_seq v"
  have ids: "?n \<le> latest s" "map fst es = [Suc ?n ..< Suc (latest s)]"
    using contiguous_batch [OF assms(1,2)] by simp_all
  then have len: "length es = latest s - ?n"
    by (metis Suc_diff_Suc diff_Suc_Suc length_map length_upt)
  have "map fst (take k es) = [Suc ?n ..< Suc (?n + k)]"
    using ids len assms(3) by (simp add: take_map [symmetric] del: upt_Suc)
  then have "vs_last_seq (fold deliver (take k es) v) = ?n + k"
    using batch_applies [of "take k es" v "?n + k"] by simp
  moreover have "since s (?n + k) = Some (drop k es)"
    using suffix_batch [OF assms(1,2), of "?n + k"] assms(3) len ids(1) by simp
  moreover have "fold deliver (drop k es) (fold deliver (take k es) v) = fold deliver es v"
    by (metis append_take_drop_id fold_append comp_apply)
  ultimately show ?thesis by auto
qed

end

section \<open>Properties\<close>

text \<open>
  Observation. The compatibility projections never drift: after any sequence of deliveries the
  transcript and the tool calls are the projection of the timeline, no approval is listed twice
  and the scrollback bound is respected, starting from a fresh view or from a snapshot.
\<close>

theorem view_projection_invariant:
  assumes "snapshot_wf s" and "1 \<le> vs_max_scrollback v"
    and "tl_next_id (vs_timeline (apply_snapshot s v)) + length ds \<le> u64_max"
  shows "view_wf (fold deliver ds (apply_snapshot s v))
    \<and> length (tl_timeline (vs_timeline (fold deliver ds (apply_snapshot s v)))) \<le> vs_max_scrollback v"
proof -
  have "view_wf (fold deliver ds u) \<and> vs_max_scrollback (fold deliver ds u) = vs_max_scrollback u"
    if "view_wf u" "tl_next_id (vs_timeline u) + length ds \<le> u64_max" for u
    using that
  proof (induction ds arbitrary: u)
    case (Cons d ds)
    obtain seq ev where d: "d = (seq, ev)" by force
    have "tl_next_id (vs_timeline (deliver d u)) \<le> Suc (tl_next_id (vs_timeline u))"
      using next_id_apply_body [of ev "vs_timeline u"] Cons.prems(2)
      by (auto simp: d deliver_cases saturating_add_exact)
    moreover have "view_wf (deliver d u)" using Cons.prems by (simp add: d view_wf_deliver)
    moreover have "vs_max_scrollback (deliver d u) = vs_max_scrollback u" by (simp add: d deliver_cases)
    ultimately show ?case using Cons.IH [of "deliver d u"] Cons.prems(2) by simp
  qed simp
  moreover have "vs_max_scrollback (apply_snapshot s v) = vs_max_scrollback v"
    by (simp add: apply_snapshot_def)
  ultimately have "view_wf (fold deliver ds (apply_snapshot s v))
      \<and> vs_max_scrollback (fold deliver ds (apply_snapshot s v)) = vs_max_scrollback v"
    using view_wf_snapshot [OF assms(1,2)] assms(3) by simp
  then show ?thesis by (auto simp: view_wf_def timeline_core_wf_def)
qed

text \<open>
  Observation. Whatever the transport delivers (losses, repetitions, any order), the view is the
  fold of a prefix of the canonical log and never a torn mixture; and once every event up to \<open>n\<close>
  has been delivered in order, with anything interleaved, the prefix reaches \<open>n\<close>.
\<close>

theorem view_is_prefix_fold:
  "\<exists>m \<ge> vs_last_seq v. fold deliver (map (\<lambda>s. (s, log s)) ss) v = catch_up log m v
     \<and> vs_last_seq (fold deliver (map (\<lambda>s. (s, log s)) ss) v) = m
     \<and> (subseq [Suc (vs_last_seq v) ..< Suc n] ss \<longrightarrow> n \<le> m)"
proof -
  obtain m where m: "vs_last_seq v \<le> m" "fold deliver (map (\<lambda>s. (s, log s)) ss) v = catch_up log m v"
    using delivered_prefix by blast
  moreover have "vs_last_seq (fold deliver (map (\<lambda>s. (s, log s)) ss) v) = m"
    using m by (simp add: catch_up_seq)
  ultimately show ?thesis using subseq_reaches [of v n ss log] by (intro exI [of _ m]) simp
qed

theorem view_is_prefix_fold_witness:
  "\<exists>m \<ge> 2. fold deliver (map (\<lambda>s. (s, AssistantDelta ''x'')) [1, 3, 1, 2]) (view_new ''s'')
     = catch_up (\<lambda>_. AssistantDelta ''x'') m (view_new ''s'')"
proof -
  have "vs_last_seq (view_new ''s'') = 0" by (simp add: view_new_def with_scrollback_limit_def)
  moreover have "subseq [Suc 0 ..< Suc 2] [1, 3, 1, 2]" by (simp add: upt_rec)
  ultimately show ?thesis
    using view_is_prefix_fold [of "view_new ''s''" "\<lambda>_. AssistantDelta ''x''" "[1, 3, 1, 2]" 2] by metis
qed

theorem view_projection_invariant_witness:
  "length (tl_timeline (vs_timeline (fold deliver [(1, AssistantDelta ''x''), (2, AssistantDone OC_Refused)]
     (apply_snapshot \<lparr>ss_session_id = ''s'', ss_seq = 0, ss_turn_status = Idle, ss_durability_status = Saved,
        ss_timeline = [], ss_active_tools = [], ss_history_window = window_complete 0,
        ss_pending_approvals = [], ss_runtime_options = [], ss_context_usage = None\<rparr>
        (with_scrollback_limit ''s'' 1))))) \<le> 1"
proof -
  let ?s = "\<lparr>ss_session_id = ''s'', ss_seq = 0, ss_turn_status = Idle, ss_durability_status = Saved,
        ss_timeline = [], ss_active_tools = [], ss_history_window = window_complete 0,
        ss_pending_approvals = [], ss_runtime_options = [], ss_context_usage = None\<rparr>"
  let ?v = "with_scrollback_limit ''s'' 1" and ?ds = "[(1, AssistantDelta ''x''), (2, AssistantDone OC_Refused)]"
  have "snapshot_wf ?s" by (simp add: snapshot_wf_def entries_wf_def active_wf_def)
  moreover have "vs_max_scrollback ?v = 1" by (simp add: with_scrollback_limit_def)
  moreover have "tl_next_id (vs_timeline (apply_snapshot ?s ?v)) + length ?ds \<le> u64_max" by code_simp
  ultimately show ?thesis using view_projection_invariant [of ?s ?v ?ds] by simp
qed

end
