(* ===== verification/Event_Router.thy ===== *)
theory Event_Router
  imports View
begin

text \<open>
  The session event router (SessionEventRouter of src/src/session_core.rs): sequence numbers,
  the bounded replay buffer, the handlers and the durability transitions that are serialised
  with the stream. The dispatch mutex makes every operation atomic, so an operation is one state
  transformer. A handler is an opaque value; whether it panics on an event is the parameter
  \<open>panics\<close>. The router is an \<open>event_source\<close>, so a view can catch up from it.
\<close>

datatype session_event_error = SequenceExhausted | HandlerPanicked | HandlerLimitReached nat

datatype session_replay =
    Available "(nat \<times> session_event) list" nat
  | SnapshotRequired nat

record 'h session_event_router =
  rt_sequence :: nat
  rt_next_id :: nat
  rt_fixed_count :: nat
  rt_entries :: "(nat \<times> 'h) list"
  rt_replay :: "(nat \<times> session_event) list"
  rt_max_replay :: nat

definition new_with_replay :: "'h option \<Rightarrow> nat \<Rightarrow> 'h session_event_router" where
  "new_with_replay handler max_replay =
     \<lparr>rt_sequence = 0, rt_next_id = 1,
      rt_fixed_count = (if handler = None then 0 else 1),
      rt_entries = (case handler of None \<Rightarrow> [] | Some h \<Rightarrow> [(0, h)]),
      rt_replay = [], rt_max_replay = max_replay\<rparr>"

definition router_new :: "'h option \<Rightarrow> 'h session_event_router" where
  "router_new handler = new_with_replay handler 0"

definition remember :: "nat \<Rightarrow> session_event \<Rightarrow> 'h session_event_router \<Rightarrow> 'h session_event_router" where
  "remember sequence ev r =
     (if rt_max_replay r > 0 then
        (let replay = rt_replay r @ [(sequence, ev)]
         in r\<lparr>rt_replay := drop (length replay - rt_max_replay r) replay\<rparr>)
      else r)"

text \<open>
  An emission returns the result, the handlers that were called (with what), and the router. The
  handlers run after the event has been numbered and remembered, each under its own panic guard.
\<close>

definition emit_locked ::
  "('h \<Rightarrow> nat \<Rightarrow> session_event \<Rightarrow> bool) \<Rightarrow> session_event \<Rightarrow> 'h session_event_router
    \<Rightarrow> (session_event_error + nat) \<times> (nat \<times> 'h \<times> nat \<times> session_event) list \<times> 'h session_event_router" where
  "emit_locked panics ev r =
     (case checked_add (rt_sequence r) 1 of
        None \<Rightarrow> (Inl SequenceExhausted, [], r)
      | Some sequence \<Rightarrow>
          (let r1 = remember sequence ev (r\<lparr>rt_sequence := sequence\<rparr>);
               calls = map (\<lambda>(i, h). (i, h, sequence, ev)) (rt_entries r1);
               handler_panicked = list_ex (\<lambda>(i, h, s, e). panics h s e) calls
           in (if handler_panicked then Inl HandlerPanicked else Inr sequence, calls, r1)))"

definition emit ::
  "('h \<Rightarrow> nat \<Rightarrow> session_event \<Rightarrow> bool) \<Rightarrow> session_event \<Rightarrow> 'h session_event_router
    \<Rightarrow> (session_event_error + nat) \<times> (nat \<times> 'h \<times> nat \<times> session_event) list \<times> 'h session_event_router" where
  "emit panics ev r = emit_locked panics ev r"

fun durability_status_code :: "durability_status \<Rightarrow> nat" where
  "durability_status_code Saved = 0"
| "durability_status_code Unsaved = 1"
| "durability_status_code Saving = 2"
| "durability_status_code Degraded = 3"
| "durability_status_code Superseded = 4"

definition durability_status_from_code :: "nat \<Rightarrow> durability_status" where
  "durability_status_from_code code =
     (if code = 0 then Saved else if code = 1 then Unsaved else if code = 2 then Saving
      else if code = 4 then Superseded else Degraded)"

definition durability_blocked :: "durability_status \<Rightarrow> durability_status \<Rightarrow> bool" where
  "durability_blocked previous status \<longleftrightarrow>
     previous = Superseded
     \<or> (previous = Degraded \<and> \<not> (status = Saved \<or> status = Superseded))
     \<or> (previous = Saving \<and> status = Unsaved)"

definition transition_durability ::
  "('h \<Rightarrow> nat \<Rightarrow> session_event \<Rightarrow> bool) \<Rightarrow> durability_status \<Rightarrow> nat \<times> 'h session_event_router
    \<Rightarrow> nat \<times> 'h session_event_router" where
  "transition_durability panics status = (\<lambda>(current, r).
     (let previous = durability_status_from_code current in
      if previous = status \<or> durability_blocked previous status then (current, r)
      else (durability_status_code status,
            snd (snd (emit_locked panics (DurabilityStatusChanged status) r)))))"

definition capture_sequence :: "('h session_event_router \<Rightarrow> 'a) \<Rightarrow> 'h session_event_router \<Rightarrow> nat \<times> 'a" where
  "capture_sequence capture r = (rt_sequence r, capture r)"

definition subscribe ::
  "nat \<Rightarrow> 'h \<Rightarrow> 'h session_event_router \<Rightarrow> (session_event_error + nat) \<times> 'h session_event_router" where
  "subscribe max_handlers handler r =
     (let dynamic_count = length (rt_entries r) - rt_fixed_count r in
      if dynamic_count \<ge> max_handlers then (Inl (HandlerLimitReached max_handlers), r)
      else (let handler_id = rt_next_id r in
        case checked_add (rt_next_id r) 1 of
          None \<Rightarrow> (Inl SequenceExhausted, r)
        | Some next_id \<Rightarrow>
            (Inr handler_id, r\<lparr>rt_next_id := next_id, rt_entries := rt_entries r @ [(handler_id, handler)]\<rparr>)))"

definition subscribe_and_capture ::
  "nat \<Rightarrow> 'h \<Rightarrow> ('h session_event_router \<Rightarrow> 'a) \<Rightarrow> 'h session_event_router
    \<Rightarrow> (session_event_error + nat \<times> 'a) \<times> 'h session_event_router" where
  "subscribe_and_capture max_handlers handler capture r =
     (case subscribe max_handlers handler r of
        (Inl e, r1) \<Rightarrow> (Inl e, r1)
      | (Inr i, r1) \<Rightarrow> (Inr (i, capture r1), r1))"

definition drop_subscription :: "nat \<Rightarrow> 'h session_event_router \<Rightarrow> 'h session_event_router" where
  "drop_subscription handler_id r = r\<lparr>rt_entries := filter (\<lambda>(i, h). i \<noteq> handler_id) (rt_entries r)\<rparr>"

definition latest_sequence :: "'h session_event_router \<Rightarrow> nat" where
  "latest_sequence r = rt_sequence r"

definition replay_since :: "nat \<Rightarrow> 'h session_event_router \<Rightarrow> session_replay" where
  "replay_since last_seen r =
     (let latest = rt_sequence r in
      if last_seen > latest then SnapshotRequired latest
      else if last_seen = latest then Available [] latest
      else (case rt_replay r of
              [] \<Rightarrow> SnapshotRequired latest
            | (earliest, _) # _ \<Rightarrow>
                if saturating_add last_seen 1 < earliest then SnapshotRequired latest
                else Available (filter (\<lambda>(s, _). s > last_seen) (rt_replay r)) latest))"

section \<open>The invariant of the buffer\<close>

text \<open>
  The buffer holds the newest events, without holes, up to the current sequence number; the
  dynamic handlers have distinct identities below the next one.
\<close>

definition router_wf :: "'h session_event_router \<Rightarrow> bool" where
  "router_wf r \<longleftrightarrow> rt_sequence r \<le> u64_max
     \<and> length (rt_replay r) = min (rt_max_replay r) (rt_sequence r)
     \<and> map fst (rt_replay r) = [Suc (rt_sequence r - length (rt_replay r)) ..< Suc (rt_sequence r)]"

definition handlers_wf :: "'h session_event_router \<Rightarrow> bool" where
  "handlers_wf r \<longleftrightarrow> distinct (map fst (rt_entries r)) \<and> (\<forall>(i, h) \<in> set (rt_entries r). i < rt_next_id r)
     \<and> 1 \<le> rt_next_id r
     \<and> length (filter (\<lambda>(i, h). i = 0) (rt_entries r)) = rt_fixed_count r"

lemma remember_fields [simp]:
  "rt_sequence (remember s ev r) = rt_sequence r" "rt_next_id (remember s ev r) = rt_next_id r"
  "rt_fixed_count (remember s ev r) = rt_fixed_count r" "rt_entries (remember s ev r) = rt_entries r"
  "rt_max_replay (remember s ev r) = rt_max_replay r"
  "rt_replay (remember s ev r) =
     (if rt_max_replay r = 0 then rt_replay r
      else drop (Suc (length (rt_replay r)) - rt_max_replay r) (rt_replay r @ [(s, ev)]))"
  by (simp_all add: remember_def Let_def)

lemma router_wf_new [wf_intros]: "router_wf (new_with_replay h n)"
  by (simp add: router_wf_def new_with_replay_def)

lemma upt_snoc_drop:
  "m \<le> n \<Longrightarrow> drop d ([Suc (n - m) ..< Suc n] @ [Suc n]) = [Suc (n - m) + d ..< Suc (Suc n)]"
  by (metis Suc_leI diff_le_self drop_upt le_imp_less_Suc less_Suc_eq_le not_less_eq_eq upt_Suc_append)

lemma router_wf_remember:
  assumes "router_wf r" and "rt_sequence r < u64_max"
  shows "router_wf (remember (Suc (rt_sequence r)) ev (r\<lparr>rt_sequence := Suc (rt_sequence r)\<rparr>))"
proof (cases "rt_max_replay r = 0")
  case True
  with assms show ?thesis by (simp add: router_wf_def)
next
  case False
  let ?l = "length (rt_replay r)" and ?n = "rt_sequence r" and ?m = "rt_max_replay r"
  have l: "?l = min ?m ?n" and ids: "map fst (rt_replay r) = [Suc (?n - ?l) ..< Suc ?n]"
    using assms(1) by (simp_all add: router_wf_def)
  let ?d = "Suc ?l - ?m"
  have "map fst (drop ?d (rt_replay r @ [(Suc ?n, ev)])) = drop ?d ([Suc (?n - ?l) ..< Suc ?n] @ [Suc ?n])"
    using ids by (simp add: drop_map [symmetric] del: upt_Suc drop_append)
  also have "\<dots> = [Suc (?n - ?l) + ?d ..< Suc (Suc ?n)]" using l by (intro upt_snoc_drop) simp
  also have "Suc (?n - ?l) + ?d = Suc (Suc ?n - length (drop ?d (rt_replay r @ [(Suc ?n, ev)])))"
    using l False by (auto simp: min_def)
  finally show ?thesis
    using False l assms(2) by (auto simp: router_wf_def min_def simp del: upt_Suc drop_append)
qed

lemma emit_locked_cases:
  "rt_sequence r < u64_max \<Longrightarrow> snd (snd (emit_locked panics ev r)) =
     remember (Suc (rt_sequence r)) ev (r\<lparr>rt_sequence := Suc (rt_sequence r)\<rparr>)"
  "rt_sequence r \<ge> u64_max \<Longrightarrow> emit_locked panics ev r = (Inl SequenceExhausted, [], r)"
  by (simp_all add: emit_locked_def checked_add_def Let_def)

lemma router_wf_emit [wf_intros]: "router_wf r \<Longrightarrow> router_wf (snd (snd (emit_locked panics ev r)))"
  by (cases "rt_sequence r < u64_max") (simp_all add: emit_locked_cases router_wf_remember)

lemma router_wf_transition [wf_intros]:
  "router_wf r \<Longrightarrow> router_wf (snd (transition_durability panics status (current, r)))"
  by (simp add: transition_durability_def Let_def router_wf_emit)

lemma router_wf_subscribe [wf_intros]: "router_wf r \<Longrightarrow> router_wf (snd (subscribe n h r))"
  by (simp add: subscribe_def Let_def router_wf_def split: option.splits del: upt_Suc)

lemma router_wf_drop [wf_intros]: "router_wf r \<Longrightarrow> router_wf (drop_subscription i r)"
  by (simp add: drop_subscription_def router_wf_def)

lemma filter_contiguous:
  "map fst es = [Suc a ..< Suc b] \<Longrightarrow> a \<le> n \<Longrightarrow> filter (\<lambda>(s, _). s > n) es = drop (n - a) es"
proof (induction es arbitrary: a)
  case (Cons e es)
  have "a < b" using Cons.prems(1) by (cases "a < b") (simp_all add: not_less del: upt_Suc)
  then have upt: "[Suc a ..< Suc b] = Suc a # [Suc (Suc a) ..< Suc b]" by (simp add: upt_conv_Cons del: upt_Suc)
  show ?case
  proof (cases "a = n")
    case True
    have "\<forall>x \<in> set (e # es). fst x > n"
      using Cons.prems(1) True by (metis Suc_le_lessD atLeastLessThan_iff imageI list.set_map set_upt)
    then show ?thesis using True by (simp add: case_prod_beta filter_id_conv)
  next
    case False
    then have "n - a = Suc (n - Suc a)" using Cons.prems(2) by simp
    with Cons.IH [of "Suc a"] Cons.prems upt False show ?thesis
      by (auto simp: case_prod_beta simp del: upt_Suc)
  qed
qed simp

lemma replay_since_wf:
  assumes "router_wf r"
  shows "replay_since k r =
    (if k \<le> rt_sequence r \<and> rt_sequence r - k \<le> length (rt_replay r)
     then Available (drop (length (rt_replay r) - (rt_sequence r - k)) (rt_replay r)) (rt_sequence r)
     else SnapshotRequired (rt_sequence r))"
proof (cases "k < rt_sequence r \<and> rt_replay r \<noteq> []")
  case True
  let ?l = "length (rt_replay r)" and ?n = "rt_sequence r"
  have wf: "?n \<le> u64_max" "?l \<le> ?n" "map fst (rt_replay r) = [Suc (?n - ?l) ..< Suc ?n]"
    using assms by (simp_all add: router_wf_def)
  obtain first ev es where replay: "rt_replay r = (first, ev) # es" using True by (cases "rt_replay r") auto
  then have first: "first = Suc (?n - ?l)"
    using wf(2,3) by (simp add: upt_conv_Cons del: upt_Suc)
  have sat: "saturating_add k 1 = Suc k" using True wf(1) by (simp add: saturating_add_exact)
  have eq: "replay_since k r = (if k < ?n - ?l then SnapshotRequired ?n
      else Available (filter (\<lambda>(s, _). s > k) (rt_replay r)) ?n)"
  proof -
    have "saturating_add k 1 < first \<longleftrightarrow> k < ?n - ?l" using sat first by simp
    then show ?thesis using True unfolding replay_since_def Let_def replay by simp
  qed
  show ?thesis
  proof (cases "?n - ?l \<le> k")
    case True
    moreover have "k - (?n - ?l) = ?l - (?n - k)" using \<open>k < ?n \<and> rt_replay r \<noteq> []\<close> wf(2) by linarith
    ultimately show ?thesis
      using filter_contiguous [OF wf(3) True] \<open>k < ?n \<and> rt_replay r \<noteq> []\<close> by (simp add: eq)
  next
    case False
    then show ?thesis by (auto simp: eq)
  qed
next
  case False
  then consider "k > rt_sequence r" | "k = rt_sequence r" | "k < rt_sequence r" "rt_replay r = []" by linarith
  then show ?thesis by cases (simp_all add: replay_since_def Let_def)
qed

section \<open>The router as an event source\<close>

definition router_batch :: "'h session_event_router \<Rightarrow> nat \<Rightarrow> (nat \<times> session_event) list option" where
  "router_batch r n = (case replay_since n r of Available es _ \<Rightarrow> Some es | SnapshotRequired _ \<Rightarrow> None)"

interpretation router: event_source router_wf latest_sequence router_batch
proof
  fix r :: "'h session_event_router" and n es
  assume wf: "router_wf r" and batch: "router_batch r n = Some es"
  let ?l = "length (rt_replay r)" and ?s = "rt_sequence r"
  have n: "n \<le> ?s" "?s - n \<le> ?l" and es: "es = drop (?l - (?s - n)) (rt_replay r)"
    using batch by (auto simp: router_batch_def replay_since_wf [OF wf] split: if_splits)
  have ids: "?l \<le> ?s" "map fst (rt_replay r) = [Suc (?s - ?l) ..< Suc ?s]"
    using wf by (simp_all add: router_wf_def)
  have "Suc (?s - ?l) + (?l - (?s - n)) = Suc n" using n ids(1) by linarith
  then have "map fst es = [Suc n ..< Suc ?s]"
    using ids(2) by (simp add: es drop_map [symmetric] del: upt_Suc)
  then show "n \<le> latest_sequence r \<and> map fst es = [Suc n ..< Suc (latest_sequence r)]"
    using n(1) by (simp add: latest_sequence_def del: upt_Suc)
  fix m
  assume m: "n \<le> m" "m \<le> latest_sequence r"
  then have m': "m \<le> ?s" "?s - m \<le> ?l" and eq: "?l - (?s - m) = (m - n) + (?l - (?s - n))"
    using n by (auto simp: latest_sequence_def)
  show "router_batch r m = Some (drop (m - n) es)"
    using m' eq by (simp add: router_batch_def replay_since_wf [OF wf] es)
qed

section \<open>Runs of emissions\<close>

definition emit_all ::
  "('h \<Rightarrow> nat \<Rightarrow> session_event \<Rightarrow> bool) \<Rightarrow> session_event list \<Rightarrow> 'h session_event_router \<Rightarrow> 'h session_event_router" where
  "emit_all panics evs r = fold (\<lambda>ev r. snd (snd (emit panics ev r))) evs r"

definition numbered :: "session_event list \<Rightarrow> (nat \<times> session_event) list" where
  "numbered evs = List.enumerate 1 evs"

lemma numbered_snoc: "numbered (evs @ [ev]) = numbered evs @ [(Suc (length evs), ev)]"
  by (simp add: numbered_def enumerate_append_eq)

lemma length_numbered [simp]: "length (numbered evs) = length evs"
  by (simp add: numbered_def)

lemma emit_all_snoc: "emit_all panics (evs @ [ev]) r = snd (snd (emit panics ev (emit_all panics evs r)))"
  by (simp add: emit_all_def)

lemma emit_all_new:
  assumes "length evs \<le> u64_max"
  shows "rt_sequence (emit_all panics evs (new_with_replay h n)) = length evs
    \<and> rt_max_replay (emit_all panics evs (new_with_replay h n)) = n
    \<and> rt_replay (emit_all panics evs (new_with_replay h n)) = drop (length evs - n) (numbered evs)"
  using assms
proof (induction evs rule: rev_induct)
  case Nil
  show ?case by (simp add: emit_all_def new_with_replay_def numbered_def)
next
  case (snoc ev evs)
  let ?r = "emit_all panics evs (new_with_replay h n)" and ?k = "length evs"
  have IH: "rt_sequence ?r = ?k" "rt_max_replay ?r = n" "rt_replay ?r = drop (?k - n) (numbered evs)"
    using snoc by simp_all
  have emitted: "snd (snd (emit panics ev ?r)) = remember (Suc ?k) ev (?r\<lparr>rt_sequence := Suc ?k\<rparr>)"
    using snoc.prems IH(1) by (simp add: emit_def emit_locked_cases)
  have "drop (Suc (?k - (?k - n)) - n) (drop (?k - n) (numbered evs) @ [(Suc ?k, ev)]) =
      drop (Suc ?k - n) (numbered evs @ [(Suc ?k, ev)])" if "0 < n"
    using that by (cases "?k < n") (auto simp: Suc_diff_le)
  then show ?case
    unfolding emit_all_snoc emitted numbered_snoc
    using IH by (cases "n = 0") (simp_all del: drop_append)
qed

lemma router_wf_emit_all [wf_intros]: "router_wf r \<Longrightarrow> router_wf (emit_all panics evs r)"
  by (induction evs rule: rev_induct) (simp_all add: emit_all_snoc emit_def router_wf_emit, simp add: emit_all_def)

section \<open>Handlers\<close>

lemma handlers_wf_new [wf_intros]: "handlers_wf (new_with_replay h n)"
  by (simp add: handlers_wf_def new_with_replay_def split: option.splits)

lemma handlers_wf_emit [wf_intros]: "handlers_wf r \<Longrightarrow> handlers_wf (snd (snd (emit_locked panics ev r)))"
  by (cases "rt_sequence r < u64_max") (simp_all add: emit_locked_cases handlers_wf_def)

lemma handlers_wf_subscribe [wf_intros]: "handlers_wf r \<Longrightarrow> handlers_wf (snd (subscribe n h r))"
  by (auto simp: subscribe_def Let_def handlers_wf_def split: option.splits)

lemma handlers_wf_drop [wf_intros]:
  assumes "handlers_wf r" and "i \<noteq> 0"
  shows "handlers_wf (drop_subscription i r)"
proof -
  have "filter (\<lambda>(j, h). j = 0) (filter (\<lambda>(j, h). j \<noteq> i) es) = filter (\<lambda>(j, h). j = 0) es" for es :: "(nat \<times> 'a) list"
    using assms(2) by (induction es) auto
  with assms(1) show ?thesis
    by (auto simp: handlers_wf_def drop_subscription_def distinct_map_filter)
qed

section \<open>Durability transitions\<close>

lemma durability_code_roundtrip [simp]: "durability_status_from_code (durability_status_code st) = st"
  by (cases st) (simp_all add: durability_status_from_code_def)

definition durability_edge :: "durability_status \<Rightarrow> durability_status \<Rightarrow> bool" where
  "durability_edge p q \<longleftrightarrow> p \<noteq> q \<and> \<not> durability_blocked p q"

lemma transition_cases:
  "transition_durability panics status (durability_status_code p, r) =
     (if durability_edge p status
      then (durability_status_code status, emit_all panics [DurabilityStatusChanged status] r)
      else (durability_status_code p, r))"
  by (auto simp: transition_durability_def durability_edge_def emit_all_def emit_def)

lemma transitions_path:
  "\<exists>path. fold (transition_durability panics) sts (durability_status_code p, r) =
       (durability_status_code (last (p # path)), emit_all panics (map DurabilityStatusChanged path) r)
     \<and> successively durability_edge (p # path)"
proof (induction sts arbitrary: p r)
  case Nil
  show ?case by (intro exI [of _ "[]"]) (simp add: emit_all_def)
next
  case (Cons st sts)
  show ?case
  proof (cases "durability_edge p st")
    case True
    obtain path where "fold (transition_durability panics) sts
        (durability_status_code st, emit_all panics [DurabilityStatusChanged st] r) =
       (durability_status_code (last (st # path)),
        emit_all panics (map DurabilityStatusChanged path) (emit_all panics [DurabilityStatusChanged st] r))"
      "successively durability_edge (st # path)" using Cons by blast
    with True show ?thesis
      by (intro exI [of _ "st # path"]) (simp add: transition_cases emit_all_def)
  next
    case False
    with Cons [of p r] show ?thesis by (simp add: transition_cases)
  qed
qed

section \<open>Properties\<close>

text \<open>
  Observation. A replay is exact. After any list of emitted events, with whichever handlers
  panicking, a client that has seen \<open>k\<close> of them is given exactly the events after \<open>k\<close>, numbered
  from \<open>k + 1\<close>, when at most \<open>n\<close> are missing, and is told to take a snapshot otherwise.
\<close>

theorem replay_since_exact:
  assumes "length evs \<le> u64_max"
  shows "replay_since k (emit_all panics evs (new_with_replay h n)) =
    (if k \<le> length evs \<and> length evs - k \<le> n
     then Available (drop k (List.enumerate 1 evs)) (length evs)
     else SnapshotRequired (length evs))"
proof -
  let ?r = "emit_all panics evs (new_with_replay h n)"
  have wf: "router_wf ?r" by (intro router_wf_emit_all router_wf_new)
  have "length evs - n + (length evs - (length evs - n) - (length evs - k)) = k"
    if "k \<le> length evs" "length evs - k \<le> n" using that by linarith
  then show ?thesis
    using emit_all_new [OF assms, of panics h n] by (auto simp: replay_since_wf [OF wf] numbered_def)
qed

theorem replay_since_exact_witness:
  "replay_since 1 (emit_all (\<lambda>_ _ _. True) [ConversationCleared, SessionEnding ''bye''] (new_with_replay (Some ()) 1))
     = Available [(2, SessionEnding ''bye'')] 2"
  using replay_since_exact [of "[ConversationCleared, SessionEnding ''bye'']" 1 "\<lambda>_ _ _. True" "Some ()" 1]
  by (simp add: u64_max_def)

text \<open>
  Observation. An emission calls every subscribed handler once, with the same event and the
  next sequence number; a panicking handler changes only the result, never the numbering, the
  replay buffer or what the other handlers receive; and only exhausted numbers stop an emission,
  which then changes nothing.
\<close>

theorem emit_isolates_handlers:
  "(rt_sequence r < u64_max \<longrightarrow>
      fst (snd (emit panics ev r)) = map (\<lambda>(i, h). (i, h, Suc (rt_sequence r), ev)) (rt_entries r)
      \<and> snd (snd (emit panics ev r)) = snd (snd (emit (\<lambda>_ _ _. False) ev r))
      \<and> rt_sequence (snd (snd (emit panics ev r))) = Suc (rt_sequence r)
      \<and> rt_entries (snd (snd (emit panics ev r))) = rt_entries r
      \<and> fst (emit panics ev r) =
          (if \<exists>(i, h) \<in> set (rt_entries r). panics h (Suc (rt_sequence r)) ev
           then Inl HandlerPanicked else Inr (Suc (rt_sequence r))))
   \<and> (rt_sequence r \<ge> u64_max \<longrightarrow> emit panics ev r = (Inl SequenceExhausted, [], r))"
  by (auto simp: emit_def emit_locked_def checked_add_def Let_def list_ex_iff)

theorem emit_isolates_handlers_witness:
  "fst (emit (\<lambda>h _ _. h = 1) ConversationCleared
     (new_with_replay (Some (0::nat)) 1)) = Inr 1"
  using emit_isolates_handlers [of "new_with_replay (Some (0::nat)) 1" "\<lambda>h _ _. h = 1" ConversationCleared]
  by (simp add: u64_max_def new_with_replay_def)

text \<open>
  Observation. Durability status changes are published faithfully and never move backwards out
  of a terminal state: any list of requested transitions publishes a path of distinct
  consecutive statuses, the recorded status is the last one published, nothing follows
  \<open>Superseded\<close>, and a degraded session only becomes saved or superseded.
\<close>

theorem durability_transitions_publish_path:
  "\<exists>path. fold (transition_durability panics) sts (durability_status_code p, r) =
       (durability_status_code (last (p # path)), emit_all panics (map DurabilityStatusChanged path) r)
     \<and> (\<forall>i. Suc i < length (p # path) \<longrightarrow>
          (p # path) ! i \<noteq> (p # path) ! Suc i \<and> (p # path) ! i \<noteq> Superseded
          \<and> ((p # path) ! i = Degraded \<longrightarrow> (p # path) ! Suc i \<in> {Saved, Superseded})
          \<and> ((p # path) ! i = Saving \<longrightarrow> (p # path) ! Suc i \<noteq> Unsaved))"
proof -
  obtain path where path: "fold (transition_durability panics) sts (durability_status_code p, r) =
       (durability_status_code (last (p # path)), emit_all panics (map DurabilityStatusChanged path) r)"
    "successively durability_edge (p # path)" using transitions_path by blast
  have "durability_edge ((p # path) ! i) ((p # path) ! Suc i)" if "Suc i < length (p # path)" for i
    using path(2) that by (simp only: successively_conv_nth)
  with path(1) show ?thesis
    by (intro exI [of _ path] conjI allI impI) (auto simp: durability_edge_def durability_blocked_def)
qed

theorem durability_transitions_publish_path_witness:
  "\<exists>path. fold (transition_durability (\<lambda>_ _ _. False)) [Unsaved, Degraded, Saving]
        (durability_status_code Saved, new_with_replay (None :: unit option) 8) =
      (durability_status_code (last (Saved # path)),
       emit_all (\<lambda>_ _ _. False) (map DurabilityStatusChanged path) (new_with_replay None 8))
     \<and> (\<forall>i. Suc i < length (Saved # path) \<longrightarrow> (Saved # path) ! i \<noteq> Superseded)"
  using durability_transitions_publish_path
    [of "\<lambda>_ _ _. False" "[Unsaved, Degraded, Saving]" Saved "new_with_replay (None :: unit option) 8"]
  by blast

text \<open>
  Observation. Subscriptions respect the limit and never collide: a subscription is refused
  exactly when the dynamic handlers have reached the limit (or the identities are used up), a
  granted one has an identity no other handler has, the fixed handler is never counted or
  removed, and a dropped subscription receives nothing more.
\<close>

theorem subscribe_bounded_and_fresh:
  assumes "handlers_wf r" and "rt_next_id r < u64_max"
  shows "(case subscribe limit h r of
      (Inl e, r') \<Rightarrow> e = HandlerLimitReached limit \<and> r' = r
        \<and> limit \<le> length (filter (\<lambda>(i, h). i \<noteq> 0) (rt_entries r))
    | (Inr i, r') \<Rightarrow> handlers_wf r' \<and> i \<notin> fst ` set (rt_entries r) \<and> (i, h) \<in> set (rt_entries r')
        \<and> length (filter (\<lambda>(i, h). i \<noteq> 0) (rt_entries r')) \<le> limit
        \<and> rt_entries (drop_subscription i r') = rt_entries r)"
proof -
  have split: "length (rt_entries r) = length (filter (\<lambda>(i, h). i \<noteq> 0) (rt_entries r)) + rt_fixed_count r"
    using assms(1) sum_length_filter_compl [of "\<lambda>(i, h). i \<noteq> 0" "rt_entries r"]
    by (simp add: handlers_wf_def case_prod_unfold)
  have fresh: "rt_next_id r \<notin> fst ` set (rt_entries r)" "rt_next_id r \<noteq> 0"
    using assms(1) by (force simp: handlers_wf_def)+
  have "filter (\<lambda>(i, h). i \<noteq> rt_next_id r) (rt_entries r) = rt_entries r"
    using fresh by (force simp: filter_id_conv)
  then show ?thesis
    using assms handlers_wf_subscribe [OF assms(1), of limit h] fresh split
    by (auto simp: subscribe_def Let_def checked_add_def drop_subscription_def split: if_splits)
qed

theorem subscribe_bounded_and_fresh_witness:
  "fst (subscribe 1 ''h'' (new_with_replay (Some ''fixed'') 4)) = Inr 1
   \<and> handlers_wf (snd (subscribe 1 ''h'' (new_with_replay (Some ''fixed'') 4)))"
proof -
  have next_id: "rt_next_id (new_with_replay (Some ''fixed'') 4) < u64_max"
    by (simp add: new_with_replay_def u64_max_def)
  have eq: "subscribe 1 ''h'' (new_with_replay (Some ''fixed'') 4) =
      (Inr 1, snd (subscribe 1 ''h'' (new_with_replay (Some ''fixed'') 4)))"
    by (simp add: subscribe_def new_with_replay_def checked_add_def u64_max_def)
  show ?thesis
    using subscribe_bounded_and_fresh [OF handlers_wf_new next_id, of 1 "''h''"]
    by (subst (asm) eq, subst eq) simp
qed



end
