(* ===== verification/Approvals.thy ===== *)
theory Approvals
  imports Event_Router "HOL-Library.AList" "HOL-Library.Multiset"
begin

text \<open>
  The approval broker and the task that waits for one approval (ApprovalBroker,
  approval_sequence, request_approval and deny_failed_approval of src/src/session_core.rs).

  The broker's maps are association lists keyed by approval id; the one-shot channel of a request
  is the mailbox \<open>br_mail\<close>, which \<open>resolve\<close> and \<open>cancel_all\<close> fill. Events go to a stream: a list
  of what was emitted, with \<open>accept\<close> telling which emissions report success (an emission is
  recorded either way, as for the router). Clocks, other tasks and the choice of the \<open>select!\<close>
  branch are arguments of the waiting loop.
\<close>

record approval_resolution =
  res_id :: string
  res_tool :: string
  res_decision :: approval_decision
  res_by :: string

datatype approval_error =
    NotPending | AlreadyResolved | MissingCapability client_capability
  | AllowAlwaysUnavailable | IdExhausted

record approval_broker =
  br_pending :: "(string \<times> approval_request) list"
  br_unemitted :: "(string \<times> approval_resolution) list"
  br_next_id :: nat
  br_mail :: "string \<rightharpoonup> approval_resolution"
  br_allow_always :: bool
  br_timeout :: "nat option"
  br_once_clients :: nat
  br_always_clients :: nat

section \<open>The broker\<close>

definition broker_new :: "bool \<Rightarrow> approval_broker" where
  "broker_new allow_always =
     \<lparr>br_pending = [], br_unemitted = [], br_next_id = 0, br_mail = Map.empty, br_allow_always = allow_always,
      br_timeout = None, br_once_clients = 0, br_always_clients = 0\<rparr>"

definition broker_new_with_timeout :: "bool \<Rightarrow> nat \<Rightarrow> approval_broker" where
  "broker_new_with_timeout allow_always timeout = (broker_new allow_always)\<lparr>br_timeout := Some timeout\<rparr>"

definition set_eligible_client_counts :: "nat \<Rightarrow> nat \<Rightarrow> approval_broker \<Rightarrow> approval_broker" where
  "set_eligible_client_counts once always b = b\<lparr>br_once_clients := once, br_always_clients := always\<rparr>"

definition has_eligible_client :: "string \<Rightarrow> approval_broker \<Rightarrow> bool" where
  "has_eligible_client approval_id b =
     (case map_of (br_pending b) approval_id of
        None \<Rightarrow> False
      | Some request \<Rightarrow> br_once_clients b > 0 \<or> ar_allow_always request \<and> br_always_clients b > 0)"

definition approval_prefix :: string where "approval_prefix = ''approval-''"

definition approval_sequence :: "string \<Rightarrow> nat" where
  "approval_sequence approval_id =
     (case strip_prefix approval_prefix approval_id of
        None \<Rightarrow> u64_max
      | Some digits \<Rightarrow> (case parse_u64 digits of Some n \<Rightarrow> n | None \<Rightarrow> u64_max))"

definition approval_id_of :: "nat \<Rightarrow> string" where
  "approval_id_of n = approval_prefix @ show_nat n"

definition register :: "approval_request \<Rightarrow> approval_broker \<Rightarrow> (approval_error + approval_request) \<times> approval_broker" where
  "register request b =
     (case checked_add (br_next_id b) 1 of
        None \<Rightarrow> (Inl IdExhausted, b)
      | Some n \<Rightarrow>
          (let request1 = request\<lparr>ar_id := approval_id_of n,
                                  ar_allow_always := ar_allow_always request \<and> br_allow_always b\<rparr>
           in (Inr request1,
               b\<lparr>br_next_id := n, br_pending := AList.update (ar_id request1) request1 (br_pending b),
                 br_mail := (br_mail b)(ar_id request1 := None)\<rparr>)))"

definition pending :: "approval_broker \<Rightarrow> approval_request list" where
  "pending b = sort_key ar_id (map snd (br_pending b))"

definition update_deadline :: "string \<Rightarrow> nat \<Rightarrow> bool \<Rightarrow> approval_broker \<Rightarrow> bool \<times> approval_broker" where
  "update_deadline approval_id deadline paused b =
     (case map_of (br_pending b) approval_id of
        None \<Rightarrow> (False, b)
      | Some request \<Rightarrow>
          if ar_deadline request = Some deadline \<and> ar_paused request = paused then (False, b)
          else (True, b\<lparr>br_pending := AList.update approval_id
                  (request\<lparr>ar_deadline := Some deadline, ar_paused := paused\<rparr>) (br_pending b)\<rparr>))"

definition required_capability :: "approval_decision \<Rightarrow> client_capability" where
  "required_capability decision = (case decision of AllowAlways \<Rightarrow> ApproveAlways | _ \<Rightarrow> ApproveOnce)"

definition resolve ::
  "string \<Rightarrow> string \<Rightarrow> client_capability list \<Rightarrow> approval_decision \<Rightarrow> approval_broker
    \<Rightarrow> (approval_error + approval_resolution) \<times> approval_broker" where
  "resolve approval_id resolved_by capabilities decision b =
     (if required_capability decision \<notin> set capabilities
      then (Inl (MissingCapability (required_capability decision)), b)
      else (case map_of (br_pending b) approval_id of
        None \<Rightarrow> (Inl (if approval_sequence approval_id \<le> br_next_id b then AlreadyResolved else NotPending), b)
      | Some request \<Rightarrow>
          if decision = AllowAlways \<and> \<not> ar_allow_always request then (Inl AllowAlwaysUnavailable, b)
          else (let resolution = \<lparr>res_id = approval_id, res_tool = ar_tool request,
                                  res_decision = decision, res_by = resolved_by\<rparr>
                in (Inr resolution,
                    b\<lparr>br_pending := AList.delete approval_id (br_pending b),
                      br_unemitted := AList.update approval_id resolution (br_unemitted b),
                      br_mail := (br_mail b)(approval_id \<mapsto> resolution)\<rparr>))))"

definition cancelled_resolution :: "string \<Rightarrow> string \<times> approval_request \<Rightarrow> approval_resolution" where
  "cancelled_resolution resolved_by entry =
     \<lparr>res_id = fst entry, res_tool = ar_tool (snd entry), res_decision = Deny, res_by = resolved_by\<rparr>"

definition cancel_all :: "string \<Rightarrow> approval_broker \<Rightarrow> approval_resolution list \<times> approval_broker" where
  "cancel_all resolved_by b =
     (let drained = sort_key (\<lambda>e. approval_sequence (fst e)) (br_pending b);
          resolutions = map (cancelled_resolution resolved_by) drained;
          mail = fold (\<lambda>res m. m(res_id res \<mapsto> res)) resolutions (br_mail b)
      in (sort_key (\<lambda>res. approval_sequence (res_id res)) (resolutions @ map snd (br_unemitted b)),
          b\<lparr>br_pending := [], br_unemitted := [], br_mail := mail\<rparr>))"

definition take_unemitted :: "string \<Rightarrow> approval_broker \<Rightarrow> approval_resolution option \<times> approval_broker" where
  "take_unemitted approval_id b =
     (map_of (br_unemitted b) approval_id, b\<lparr>br_unemitted := AList.delete approval_id (br_unemitted b)\<rparr>)"

section \<open>The waiting task\<close>

datatype approval_request_error = Broker approval_error | EventFailed | BrokerClosed

type_synonym stream = "session_event list"

definition emit_to :: "(nat \<Rightarrow> bool) \<Rightarrow> session_event \<Rightarrow> stream \<Rightarrow> bool \<times> stream" where
  "emit_to accept ev tr = (accept (length tr), tr @ [ev])"

definition resolved_event :: "approval_resolution \<Rightarrow> session_event" where
  "resolved_event res = ApprovalResolved (res_id res) (res_decision res) (res_by res)"

definition deny_failed_approval :: "string \<Rightarrow> string \<Rightarrow> approval_broker \<times> stream \<Rightarrow> approval_broker \<times> stream" where
  "deny_failed_approval approval_id resolved_by = (\<lambda>(b, tr).
     (let b1 = snd (resolve approval_id resolved_by [ApproveOnce] Deny b);
          b2 = snd (take_unemitted approval_id b1)
      in (b2, tr @ [TurnStatusChanged Running])))"

definition request_start ::
  "(nat \<Rightarrow> bool) \<Rightarrow> approval_request \<Rightarrow> approval_broker \<times> stream
    \<Rightarrow> (approval_request_error + string) \<times> approval_broker \<times> stream" where
  "request_start accept request = (\<lambda>(b, tr).
     (case register request b of
        (Inl e, b1) \<Rightarrow> (Inl (Broker e), b1, tr)
      | (Inr registered, b1) \<Rightarrow>
          (let (ok1, tr1) = emit_to accept (TurnStatusChanged WaitingForApproval) tr in
           if \<not> ok1 then (Inl EventFailed, deny_failed_approval (ar_id registered) ''status_event_failed'' (b1, tr1))
           else (let (ok2, tr2) = emit_to accept (ApprovalRequested registered) tr1 in
             if \<not> ok2 then (Inl EventFailed, deny_failed_approval (ar_id registered) ''request_event_failed'' (b1, tr2))
             else (Inr (ar_id registered), b1, tr2)))))"

text \<open>
  One pass through the waiting loop with a timeout. \<open>clock\<close> is the deadline a first ineligible
  pass computes; \<open>others\<close> is what other tasks do before the select returns, \<open>wake\<close> the branch
  that returns, and \<open>late\<close> what other tasks do after the select has seen an empty channel and
  before the expired deadline is acted upon.
\<close>

datatype wake = WakeResolved | WakeEligibility | WakeDeadline

record wait_round =
  wr_clock :: nat
  wr_others :: "approval_broker \<Rightarrow> approval_broker"
  wr_wake :: wake
  wr_late :: "approval_broker \<Rightarrow> approval_broker"

definition channel_closed :: "string \<Rightarrow> approval_broker \<Rightarrow> bool" where
  "channel_closed approval_id b \<longleftrightarrow>
     br_mail b approval_id = None \<and> map_of (br_pending b) approval_id = None"

definition deadline_event ::
  "string \<Rightarrow> nat \<Rightarrow> bool \<Rightarrow> approval_broker \<times> stream \<Rightarrow> approval_broker \<times> stream" where
  "deadline_event approval_id deadline paused = (\<lambda>(b, tr).
     (let (changed, b1) = update_deadline approval_id deadline paused b
      in (b1, if changed then tr @ [ApprovalDeadlineChanged approval_id deadline paused] else tr)))"

fun wait_loop ::
  "string \<Rightarrow> nat option \<Rightarrow> wait_round list \<Rightarrow> approval_broker \<times> stream
    \<Rightarrow> ((approval_request_error + approval_resolution) \<times> approval_broker \<times> stream) option" where
  "wait_loop approval_id deadline [] (b, tr) = None"
| "wait_loop approval_id deadline (round # rounds) (b, tr) =
     (case br_mail b approval_id of
        Some resolution \<Rightarrow> Some (Inr resolution, b, tr)
      | None \<Rightarrow>
        if channel_closed approval_id b then Some (Inl BrokerClosed, b, tr @ [TurnStatusChanged Running])
        else
          (let eligible = has_eligible_client approval_id b;
               deadline1 = (if eligible then deadline
                            else Some (case deadline of Some d \<Rightarrow> d | None \<Rightarrow> wr_clock round));
               (b1, tr1) = (case deadline1 of
                              Some d \<Rightarrow> deadline_event approval_id d eligible (b, tr)
                            | None \<Rightarrow> (b, tr));
               b2 = wr_others round b1
           in (case br_mail b2 approval_id of
                 Some resolution \<Rightarrow> Some (Inr resolution, b2, tr1)
               | None \<Rightarrow>
                   if channel_closed approval_id b2
                   then Some (Inl BrokerClosed, b2, tr1 @ [TurnStatusChanged Running])
                   else if wr_wake round = WakeDeadline \<and> \<not> eligible then
                     (case resolve approval_id ''approval_timeout'' [ApproveOnce] Deny (wr_late round b2) of
                        (Inr resolution, b3) \<Rightarrow> Some (Inr resolution, b3, tr1)
                      | (Inl NotPending, b3) \<Rightarrow> wait_loop approval_id deadline1 rounds (b3, tr1)
                      | (Inl e, b3) \<Rightarrow> Some (Inl (Broker e), b3, tr1))
                   else wait_loop approval_id deadline1 rounds (b2, tr1))))"

definition request_finish ::
  "string \<Rightarrow> approval_resolution \<Rightarrow> approval_broker \<times> stream \<Rightarrow> approval_resolution \<times> approval_broker \<times> stream" where
  "request_finish approval_id resolution = (\<lambda>(b, tr).
     (let (taken, b1) = take_unemitted approval_id b;
          tr1 = (case taken of Some u \<Rightarrow> tr @ [resolved_event u] | None \<Rightarrow> tr)
      in (resolution, b1, tr1 @ [TurnStatusChanged Running])))"

definition request_approval ::
  "(nat \<Rightarrow> bool) \<Rightarrow> approval_request \<Rightarrow> wait_round list \<Rightarrow> approval_broker \<times> stream
    \<Rightarrow> ((approval_request_error + approval_resolution) \<times> approval_broker \<times> stream) option" where
  "request_approval accept request rounds = (\<lambda>(b, tr).
     (case request_start accept request (b, tr) of
        (Inl e, b1, tr1) \<Rightarrow> Some (Inl e, b1, tr1)
      | (Inr approval_id, b1, tr1) \<Rightarrow>
          (let waited =
             (case br_timeout b of
                Some _ \<Rightarrow> wait_loop approval_id None rounds (b1, tr1)
              | None \<Rightarrow>
                  (let b2 = fold wr_others rounds b1 in
                   case br_mail b2 approval_id of
                     Some resolution \<Rightarrow> Some (Inr resolution, b2, tr1)
                   | None \<Rightarrow>
                       if channel_closed approval_id b2
                       then Some (Inl BrokerClosed, b2, tr1 @ [TurnStatusChanged Running]) else None))
           in (case waited of
                 None \<Rightarrow> None
               | Some (Inl e, b2, tr2) \<Rightarrow> Some (Inl e, b2, tr2)
               | Some (Inr resolution, b2, tr2) \<Rightarrow>
                   (case request_finish approval_id resolution (b2, tr2) of
                      (res, b3, tr3) \<Rightarrow> Some (Inr res, b3, tr3))))))"

section \<open>Identifiers\<close>

lemma approval_sequence_id [simp]: "n \<le> u64_max \<Longrightarrow> approval_sequence (approval_id_of n) = n"
  by (simp add: approval_sequence_def approval_id_of_def parse_u64_show_nat)

lemma approval_id_inj: "approval_id_of m = approval_id_of n \<Longrightarrow> m \<le> u64_max \<Longrightarrow> n \<le> u64_max \<Longrightarrow> m = n"
  by (metis approval_sequence_id)

definition issued :: "approval_broker \<Rightarrow> string set" where
  "issued b = approval_id_of ` {1 .. br_next_id b}"

section \<open>The invariant of the broker\<close>

abbreviation pending_ids :: "approval_broker \<Rightarrow> string set" where
  "pending_ids b \<equiv> fst ` set (br_pending b)"

abbreviation unemitted_ids :: "approval_broker \<Rightarrow> string set" where
  "unemitted_ids b \<equiv> fst ` set (br_unemitted b)"

definition broker_wf :: "approval_broker \<Rightarrow> bool" where
  "broker_wf b \<longleftrightarrow> br_next_id b \<le> u64_max
     \<and> distinct (map fst (br_pending b)) \<and> distinct (map fst (br_unemitted b))
     \<and> (\<forall>(i, q) \<in> set (br_pending b). ar_id q = i)
     \<and> (\<forall>(i, r) \<in> set (br_unemitted b). res_id r = i)
     \<and> pending_ids b \<subseteq> issued b \<and> unemitted_ids b \<subseteq> issued b
     \<and> pending_ids b \<inter> unemitted_ids b = {}"

lemma issued_inj:
  "broker_wf b \<Longrightarrow> i \<in> issued b \<Longrightarrow> j \<in> issued b \<Longrightarrow> approval_sequence i = approval_sequence j \<Longrightarrow> i = j"
  by (auto simp: issued_def broker_wf_def)

lemma broker_wf_new [wf_intros]: "broker_wf (broker_new always)" "broker_wf (broker_new_with_timeout always t)"
  by (simp_all add: broker_wf_def broker_new_def broker_new_with_timeout_def)

lemma AList_update_fst: "fst ` set (AList.update k v xs) = insert k (fst ` set xs)"
  by (simp add: AList.dom_update)

lemma AList_delete_fst: "fst ` set (AList.delete k xs) = fst ` set xs - {k}"
  by (auto simp: AList.delete_eq)

lemma AList_delete_distinct: "distinct (map fst xs) \<Longrightarrow> distinct (map fst (AList.delete k xs))"
  by (rule AList.distinct_delete)

lemma AList_update_elem: "x \<in> set (AList.update k v xs) \<Longrightarrow> x = (k, v) \<or> x \<in> set xs"
  by (induction xs) (auto split: if_splits)

lemma AList_delete_elem: "x \<in> set (AList.delete k xs) \<Longrightarrow> x \<in> set xs"
  by (simp add: AList.delete_eq)

lemmas alist_simps = AList_update_fst AList_delete_fst AList_delete_distinct AList.distinct_update

lemma register_Inr:
  assumes "register request b = (Inr q, b')"
  shows "br_next_id b < u64_max" and "br_next_id b' = Suc (br_next_id b)"
    and "ar_id q = approval_id_of (Suc (br_next_id b))"
    and "br_pending b' = AList.update (ar_id q) q (br_pending b)" and "br_unemitted b' = br_unemitted b"
    and "issued b' = insert (ar_id q) (issued b)"
    and "ar_allow_always q = (ar_allow_always request \<and> br_allow_always b)"
  using assms
  by (auto simp: register_def Let_def checked_add_def issued_def atLeastAtMostSuc_conv
      split: option.splits if_splits)

lemma register_fresh:
  assumes "br_next_id b < u64_max"
  shows "approval_id_of (Suc (br_next_id b)) \<notin> issued b"
  using assms by (auto simp: issued_def dest!: approval_id_inj)

lemma broker_wf_register:
  assumes "broker_wf b" and "register request b = (Inr q, b')"
  shows "broker_wf b'"
proof -
  note r = register_Inr [OF assms(2)]
  have "ar_id q \<notin> issued b" using register_fresh [OF r(1)] r(3) by simp
  with assms(1) r show ?thesis
    by (auto simp: broker_wf_def alist_simps dest!: AList_update_elem)
qed

lemma resolve_Inl: "resolve i by caps d b = (Inl e, b') \<Longrightarrow> b' = b"
  by (auto simp: resolve_def Let_def split: if_splits option.splits)

lemma resolve_Inr:
  assumes "resolve i by caps d b = (Inr r, b')"
  shows "i \<in> pending_ids b" and "res_id r = i" and "res_decision r = d" and "res_by r = by"
    and "br_pending b' = AList.delete i (br_pending b)" and "br_unemitted b' = AList.update i r (br_unemitted b)"
    and "br_next_id b' = br_next_id b" and "br_mail b' = (br_mail b)(i \<mapsto> r)"
    and "required_capability d \<in> set caps"
    and "d = AllowAlways \<Longrightarrow> \<exists>q. map_of (br_pending b) i = Some q \<and> ar_allow_always q"
  using assms
  by (auto simp: resolve_def Let_def map_of_eq_None_iff split: if_splits option.splits
      intro: rev_image_eqI [OF map_of_SomeD])

lemma broker_wf_resolve:
  assumes "broker_wf b" and "resolve i by caps d b = (res, b')"
  shows "broker_wf b'"
proof (cases res)
  case (Inl e)
  with assms show ?thesis by (auto dest!: resolve_Inl)
next
  case (Inr r)
  note eqs = resolve_Inr [OF assms(2) [unfolded Inr]]
  have "issued b' = issued b" by (simp add: issued_def eqs)
  with assms(1) eqs(1,2) show ?thesis
    unfolding broker_wf_def eqs(5-7)
    by (auto simp: alist_simps dest!: AList_update_elem AList_delete_elem)
qed

lemma broker_wf_take: "broker_wf b \<Longrightarrow> broker_wf (snd (take_unemitted i b))"
  by (auto simp: broker_wf_def take_unemitted_def alist_simps issued_def dest!: AList_delete_elem)

lemma broker_wf_cancel: "broker_wf b \<Longrightarrow> broker_wf (snd (cancel_all by b))"
  by (simp add: broker_wf_def cancel_all_def Let_def)

lemma update_deadline_fields:
  "br_unemitted (snd (update_deadline i d p b)) = br_unemitted b"
  "br_next_id (snd (update_deadline i d p b)) = br_next_id b"
  "pending_ids (snd (update_deadline i d p b)) = pending_ids b"
  by (auto simp: update_deadline_def AList_update_fst split: option.splits
      intro: rev_image_eqI [OF map_of_SomeD])

lemma broker_wf_deadline:
  assumes "broker_wf b"
  shows "broker_wf (snd (update_deadline i d p b))"
proof -
  have elem: "ar_id q = j" if "(j, q) \<in> set (br_pending (snd (update_deadline i d p b)))" for j q
    using that assms
    by (auto simp: update_deadline_def broker_wf_def split: option.splits if_splits
        dest!: AList_update_elem map_of_SomeD)
  have "distinct (map fst (br_pending (snd (update_deadline i d p b))))"
    using assms by (auto simp: update_deadline_def broker_wf_def AList.distinct_update split: option.splits)
  moreover have "\<forall>(j, q) \<in> set (br_pending (snd (update_deadline i d p b))). ar_id q = j"
    using elem by auto
  ultimately show ?thesis
    using assms by (simp add: broker_wf_def update_deadline_fields issued_def)
qed

section \<open>Tasks around one broker\<close>

text \<open>
  Any number of requesting tasks, clients, timeouts and cancellation cleanups share the broker.
  Every broker operation holds the broker's mutex, so it is one step; taking a resolution and
  emitting its event are separate steps of a cleanup, which empties its list in order, and one
  step each of the requesting task, which may also be dropped at any point.
\<close>

datatype waiter = W_None | W_Waiting | W_Answered | W_Gone

record approval_world =
  aw_broker :: approval_broker
  aw_stream :: stream
  aw_waiters :: "string \<Rightarrow> waiter"
  aw_cleanups :: "approval_resolution list list"

inductive approval_step :: "approval_world \<Rightarrow> approval_world \<Rightarrow> bool" where
  start: "request_start accept request (aw_broker w, aw_stream w) = (Inr i, b', tr') \<Longrightarrow>
    approval_step w (w\<lparr>aw_broker := b', aw_stream := tr', aw_waiters := (aw_waiters w)(i := W_Waiting)\<rparr>)"
| start_failed: "request_start accept request (aw_broker w, aw_stream w) = (Inl e, b', tr') \<Longrightarrow>
    approval_step w (w\<lparr>aw_broker := b', aw_stream := tr'\<rparr>)"
| answer: "resolve i who caps d (aw_broker w) = (res, b') \<Longrightarrow> approval_step w (w\<lparr>aw_broker := b'\<rparr>)"
| deadline: "update_deadline i d paused (aw_broker w) = (changed, b') \<Longrightarrow>
    approval_step w (w\<lparr>aw_broker := b'\<rparr>)"
| clients: "approval_step w (w\<lparr>aw_broker := set_eligible_client_counts once always (aw_broker w)\<rparr>)"
| receive: "aw_waiters w i = W_Waiting \<Longrightarrow> br_mail (aw_broker w) i \<noteq> None \<Longrightarrow>
    approval_step w (w\<lparr>aw_waiters := (aw_waiters w)(i := W_Answered)\<rparr>)"
| finish: "aw_waiters w i = W_Answered \<Longrightarrow>
    request_finish i r (aw_broker w, aw_stream w) = (r', b', tr') \<Longrightarrow>
    approval_step w (w\<lparr>aw_broker := b', aw_stream := tr', aw_waiters := (aw_waiters w)(i := W_Gone)\<rparr>)"
| waiter_dropped: "aw_waiters w i \<noteq> W_None \<Longrightarrow>
    approval_step w (w\<lparr>aw_waiters := (aw_waiters w)(i := W_Gone)\<rparr>)"
| cleanup: "cancel_all who (aw_broker w) = (rs, b') \<Longrightarrow>
    approval_step w (w\<lparr>aw_broker := b', aw_cleanups := aw_cleanups w @ [rs]\<rparr>)"
| cleanup_emit: "aw_cleanups w = before @ (r # rs) # after \<Longrightarrow>
    approval_step w (w\<lparr>aw_stream := aw_stream w @ [resolved_event r], aw_cleanups := before @ rs # after\<rparr>)"
| other_event: "(\<And>i d who. ev \<noteq> ApprovalResolved i d who) \<Longrightarrow>
    approval_step w (w\<lparr>aw_stream := aw_stream w @ [ev]\<rparr>)"

definition approval_start :: "approval_broker \<Rightarrow> approval_world" where
  "approval_start b = \<lparr>aw_broker = b, aw_stream = [], aw_waiters = (\<lambda>_. W_None), aw_cleanups = []\<rparr>"

fun resolves :: "string \<Rightarrow> session_event \<Rightarrow> bool" where
  "resolves i (ApprovalResolved j _ _) = (j = i)"
| "resolves i _ = False"

text \<open>How many times an approval is accounted for: emitted, taken for emission, or still held.\<close>

definition emitted :: "string \<Rightarrow> stream \<Rightarrow> nat" where
  "emitted i tr = length (filter (resolves i) tr)"

definition queued :: "string \<Rightarrow> approval_resolution list list \<Rightarrow> nat" where
  "queued i qs = length (filter (\<lambda>r. res_id r = i) (concat qs))"

definition held :: "string \<Rightarrow> approval_broker \<Rightarrow> nat" where
  "held i b = of_bool (i \<in> pending_ids b) + of_bool (i \<in> unemitted_ids b)"

definition accounted :: "string \<Rightarrow> approval_world \<Rightarrow> nat" where
  "accounted i w = emitted i (aw_stream w) + queued i (aw_cleanups w) + held i (aw_broker w)"

definition world_inv :: "approval_world \<Rightarrow> bool" where
  "world_inv w \<longleftrightarrow> broker_wf (aw_broker w)
     \<and> (\<forall>i. aw_waiters w i \<noteq> W_None \<longrightarrow> i \<in> issued (aw_broker w))
     \<and> (\<forall>i. accounted i w = of_bool (aw_waiters w i \<noteq> W_None))"

lemma emitted_snoc [simp]: "emitted i (tr @ [ev]) = emitted i tr + of_bool (resolves i ev)"
  by (simp add: emitted_def)

lemma resolves_resolved [simp]: "resolves i (resolved_event r) = (res_id r = i)"
  by (simp add: resolved_event_def)

lemma not_resolves: "(\<And>i d who. ev \<noteq> ApprovalResolved i d who) \<Longrightarrow> \<not> resolves i ev"
  by (cases ev) auto

lemma held_take:
  assumes "broker_wf b"
  shows "held j (snd (take_unemitted i b)) + of_bool (fst (take_unemitted i b) \<noteq> None \<and> j = i) = held j b"
  by (cases "map_of (br_unemitted b) i")
    (auto simp: held_def take_unemitted_def AList_delete_fst map_of_eq_None_iff
      intro: rev_image_eqI [OF map_of_SomeD])

lemma take_id: "broker_wf b \<Longrightarrow> fst (take_unemitted i b) = Some r \<Longrightarrow> res_id r = i"
  by (auto simp: broker_wf_def take_unemitted_def dest!: map_of_SomeD)

lemma held_resolve:
  assumes "broker_wf b" and "resolve i who caps d b = (res, b')"
  shows "held j b' = held j b"
proof (cases res)
  case (Inl e)
  with assms show ?thesis by (auto dest: resolve_Inl)
next
  case (Inr r)
  note eqs = resolve_Inr [OF assms(2) [unfolded Inr]]
  have "i \<notin> unemitted_ids b" using assms(1) eqs(1) by (auto simp: broker_wf_def)
  with eqs(1) show ?thesis by (auto simp: held_def eqs alist_simps)
qed

lemma distinct_map_count: "(\<And>i. length (filter (\<lambda>x. f x = i) xs) \<le> 1) \<Longrightarrow> distinct (map f xs)"
proof (induction xs)
  case (Cons x xs)
  have "length (filter (\<lambda>y. f y = i) xs) \<le> 1" for i
    using Cons.prems [of i] by (simp split: if_splits)
  moreover have "filter (\<lambda>y. f y = f x) xs = []" using Cons.prems [of "f x"] by simp
  ultimately show ?case using Cons.IH by (auto simp: filter_empty_conv)
qed simp

lemma count_keyed: "distinct (map fst xs) \<Longrightarrow> length (filter (\<lambda>x. fst x = i) xs) = of_bool (i \<in> fst ` set xs)"
  by (induction xs) auto

lemma held_cancel:
  assumes "broker_wf b" and "cancel_all who b = (rs, b')"
  shows "length (filter (\<lambda>r. res_id r = i) rs) = held i b" and "held i b' = 0" and "br_next_id b' = br_next_id b"
proof -
  have b': "br_pending b' = []" "br_unemitted b' = []" "br_next_id b' = br_next_id b"
    using assms(2) by (auto simp: cancel_all_def Let_def)
  then show "held i b' = 0" "br_next_id b' = br_next_id b" by (simp_all add: held_def)
  have "mset rs = mset (map (cancelled_resolution who) (br_pending b) @ map snd (br_unemitted b))"
    using assms(2) by (auto simp: cancel_all_def Let_def)
  then have "length (filter (\<lambda>r. res_id r = i) rs) =
      length (filter (\<lambda>r. res_id r = i) (map (cancelled_resolution who) (br_pending b) @ map snd (br_unemitted b)))"
    by (metis mset_filter size_mset)
  also have "\<dots> = length (filter (\<lambda>e. fst e = i) (br_pending b)) + length (filter (\<lambda>e. fst e = i) (br_unemitted b))"
  proof -
    have "filter (\<lambda>e. res_id (snd e) = i) (br_unemitted b) = filter (\<lambda>e. fst e = i) (br_unemitted b)"
      using assms(1) by (intro filter_cong) (auto simp: broker_wf_def)
    then show ?thesis by (simp add: filter_map comp_def cancelled_resolution_def)
  qed
  finally show "length (filter (\<lambda>r. res_id r = i) rs) = held i b"
    using assms(1) by (simp add: held_def count_keyed broker_wf_def)
qed

lemma request_start_Inr:
  assumes "request_start accept request (b, tr) = (Inr i, b', tr')"
  shows "\<exists>q. register request b = (Inr q, b') \<and> i = ar_id q
    \<and> tr' = tr @ [TurnStatusChanged WaitingForApproval, ApprovalRequested q]"
  using assms
  by (auto simp: request_start_def emit_to_def deny_failed_approval_def Let_def split: sum.splits prod.splits if_splits)

lemma held_register:
  assumes "broker_wf b" and "register request b = (Inr q, b')"
  shows "held j b' = held j b + of_bool (j = ar_id q)" and "ar_id q \<notin> issued b"
proof -
  note r = register_Inr [OF assms(2)]
  show fresh: "ar_id q \<notin> issued b" using register_fresh [OF r(1)] r(3) by simp
  then have "ar_id q \<notin> pending_ids b" "ar_id q \<notin> unemitted_ids b"
    using assms(1) by (auto simp: broker_wf_def)
  then show "held j b' = held j b + of_bool (j = ar_id q)"
    by (auto simp: held_def r(4,5) AList_update_fst)
qed

lemma deny_failed_effect:
  assumes "broker_wf b" and "register request b = (Inr q, b1)"
    and "deny_failed_approval (ar_id q) who (b1, tr) = (b', tr')"
  shows "broker_wf b' \<and> issued b \<subseteq> issued b' \<and> held j b' = held j b \<and> tr' = tr @ [TurnStatusChanged Running]"
proof -
  note r = register_Inr [OF assms(2)]
  have wf1: "broker_wf b1" by (rule broker_wf_register [OF assms(1,2)])
  have q: "map_of (br_pending b1) (ar_id q) = Some q" by (simp add: r(4) AList.update_conv')
  obtain res b2 where res: "resolve (ar_id q) who [ApproveOnce] Deny b1 = (Inr res, b2)"
    using q by (auto simp: resolve_def required_capability_def Let_def)
  have wf2: "broker_wf b2" by (rule broker_wf_resolve [OF wf1 res])
  have b': "b' = snd (take_unemitted (ar_id q) b2)" "tr' = tr @ [TurnStatusChanged Running]"
    using assms(3) by (simp_all add: deny_failed_approval_def Let_def res)
  have taken: "fst (take_unemitted (ar_id q) b2) \<noteq> None"
    by (simp add: take_unemitted_def resolve_Inr(6) [OF res] AList.update_conv')
  have "held j b' + of_bool (j = ar_id q) = held j b2"
    using held_take [OF wf2, of j "ar_id q"] taken by (simp add: b')
  also have "\<dots> = held j b + of_bool (j = ar_id q)"
    using held_resolve [OF wf1 res, of j] held_register(1) [OF assms(1,2), of j] by simp
  finally have "held j b' = held j b" by simp
  moreover have "issued b' = issued b1"
    by (simp add: b' issued_def take_unemitted_def resolve_Inr(7) [OF res])
  ultimately show ?thesis using broker_wf_take [OF wf2] r(6) b' by auto
qed

lemma request_start_Inl:
  assumes "broker_wf b" and "request_start accept request (b, tr) = (Inl e, b', tr')"
  shows "broker_wf b' \<and> issued b \<subseteq> issued b' \<and> held j b' = held j b \<and> emitted j tr' = emitted j tr"
proof (cases "register request b")
  case (Pair res b1)
  show ?thesis
  proof (cases res)
    case (Inl e')
    then have "b1 = b" using Pair by (auto simp: register_def Let_def split: option.splits)
    with Pair Inl assms show ?thesis by (simp add: request_start_def)
  next
    case (Inr q)
    note reg = Pair [unfolded Inr]
    let ?tr1 = "tr @ [TurnStatusChanged WaitingForApproval]"
    consider "deny_failed_approval (ar_id q) ''status_event_failed'' (b1, ?tr1) = (b', tr')"
      | "deny_failed_approval (ar_id q) ''request_event_failed'' (b1, ?tr1 @ [ApprovalRequested q]) = (b', tr')"
      using assms(2) by (auto simp: request_start_def reg emit_to_def split: if_splits)
    then show ?thesis
    proof cases
      case 1
      from deny_failed_effect [OF assms(1) reg 1, of j] show ?thesis by (auto simp: emitted_def)
    next
      case 2
      from deny_failed_effect [OF assms(1) reg 2, of j] show ?thesis by (auto simp: emitted_def)
    qed
  qed
qed

lemma world_inv_step:
  assumes "approval_step w w'" and "world_inv w"
  shows "world_inv w'"
proof -
  have wf: "broker_wf (aw_broker w)" and known: "\<And>i. aw_waiters w i \<noteq> W_None \<Longrightarrow> i \<in> issued (aw_broker w)"
    and acc: "\<And>i. accounted i w = of_bool (aw_waiters w i \<noteq> W_None)"
    using assms(2) by (auto simp: world_inv_def)
  from assms(1) show ?thesis
  proof cases
    case (start accept request i b' tr')
    obtain q where q: "register request (aw_broker w) = (Inr q, b')" "i = ar_id q"
      "tr' = aw_stream w @ [TurnStatusChanged WaitingForApproval, ApprovalRequested q]"
      using request_start_Inr [OF start(2)] by blast
    have "aw_waiters w i = W_None" using known held_register(2) [OF wf q(1)] q(2) by blast
    moreover have "emitted j tr' = emitted j (aw_stream w)" for j by (simp add: q(3) emitted_def)
    ultimately show ?thesis
      using acc known register_Inr(6) [OF q(1)] held_register(1) [OF wf q(1)] broker_wf_register [OF wf q(1)]
      by (auto simp: start(1) world_inv_def accounted_def q(2))
  next
    case (start_failed accept request e b' tr')
    with request_start_Inl [OF wf start_failed(2)] acc known show ?thesis
      by (auto simp: world_inv_def accounted_def)
  next
    case (answer i who caps d res b')
    have "issued b' = issued (aw_broker w)"
      using answer(2) resolve_Inl [of i who caps d "aw_broker w"] resolve_Inr(7) [of i who caps d "aw_broker w"]
      by (cases res) (auto simp: issued_def)
    with answer broker_wf_resolve [OF wf answer(2)] held_resolve [OF wf answer(2)] acc known show ?thesis
      by (auto simp: world_inv_def accounted_def)
  next
    case (deadline i d paused changed b')
    have b': "b' = snd (update_deadline i d paused (aw_broker w))" using deadline(2) by simp
    show ?thesis
      using deadline(1) broker_wf_deadline [OF wf, of i d paused] acc known
      by (auto simp: b' world_inv_def accounted_def held_def issued_def update_deadline_fields)
  next
    case (clients once always)
    with wf acc known show ?thesis
      by (auto simp: world_inv_def accounted_def held_def issued_def set_eligible_client_counts_def broker_wf_def)
  next
    case (finish i r r' b' tr')
    let ?t = "take_unemitted i (aw_broker w)"
    have b': "b' = snd ?t" and tr': "tr' = (case fst ?t of Some u \<Rightarrow> aw_stream w @ [resolved_event u] | None \<Rightarrow> aw_stream w)
        @ [TurnStatusChanged Running]"
      using finish(3) by (auto simp: request_finish_def split_beta Let_def)
    have "emitted j tr' = emitted j (aw_stream w) + of_bool (fst ?t \<noteq> None \<and> j = i)" for j
      using take_id [OF wf, of i] by (cases "fst ?t") (auto simp: tr' emitted_def)
    then have "accounted j w' = accounted j w" for j
      using held_take [OF wf, of j i] by (simp add: finish(1) accounted_def b')
    moreover have "issued b' = issued (aw_broker w)" by (simp add: b' issued_def take_unemitted_def)
    ultimately show ?thesis
      using finish(1,2) broker_wf_take [OF wf, of i] acc known by (auto simp: world_inv_def b')
  next
    case (cleanup who rs b')
    note eff = held_cancel [OF wf cleanup(2)]
    have "broker_wf b'" using broker_wf_cancel [OF wf, of who] cleanup(2) by simp
    moreover have "issued b' = issued (aw_broker w)" by (simp add: issued_def eff(3))
    moreover have "accounted i w' = accounted i w" for i
      by (simp add: cleanup(1) accounted_def queued_def eff(1,2))
    ultimately show ?thesis using cleanup(1) acc known by (auto simp: world_inv_def)
  next
    case (cleanup_emit before r rs after)
    have "accounted i w' = accounted i w" for i
      by (simp add: cleanup_emit accounted_def queued_def)
    with cleanup_emit wf acc known show ?thesis by (auto simp: world_inv_def)
  next
    case (other_event ev)
    with wf acc known show ?thesis by (auto simp: world_inv_def accounted_def not_resolves)
  qed (use wf acc known in \<open>auto simp: world_inv_def accounted_def\<close>)
qed

lemma world_inv_reachable:
  assumes "approval_step\<^sup>*\<^sup>* (approval_start b) w" and "broker_wf b" and "br_pending b = []" and "br_unemitted b = []"
  shows "world_inv w"
  using assms(1)
proof (induction rule: rtranclp_induct)
  case base
  show ?case using assms(2-4)
    by (simp add: world_inv_def approval_start_def accounted_def emitted_def queued_def held_def)
next
  case (step w w')
  then show ?case using world_inv_step by blast
qed

section \<open>Properties\<close>





text \<open>
  Observation. Approval identities never repeat and cancellation reports in issue order: a
  registration takes the next number and no identity that was ever issued, and cancelling all
  returns every unreported approval exactly once, in the numeric order of issue.
\<close>

theorem approval_ids_fresh_and_ordered:
  assumes "broker_wf b"
  shows "(register request b = (Inr q, b1) \<longrightarrow> ar_id q \<notin> issued b \<and> issued b1 = insert (ar_id q) (issued b)
       \<and> (ar_allow_always q \<longrightarrow> br_allow_always b \<and> ar_allow_always request))
    \<and> sorted_wrt (<) (map (approval_sequence \<circ> res_id) (fst (cancel_all who b)))
    \<and> res_id ` set (fst (cancel_all who b)) = pending_ids b \<union> unemitted_ids b"
proof (intro conjI impI)
  assume "register request b = (Inr q, b1)"
  then show "ar_id q \<notin> issued b" "issued b1 = insert (ar_id q) (issued b)"
    "ar_allow_always q \<Longrightarrow> br_allow_always b" "ar_allow_always q \<Longrightarrow> ar_allow_always request"
    using held_register(2) [OF assms] register_Inr(6,7) by metis+
next
  let ?rs = "fst (cancel_all who b)"
  have count: "length (filter (\<lambda>r. res_id r = i) ?rs) = held i b" for i
    using held_cancel(1) [OF assms, of who ?rs "snd (cancel_all who b)"] by simp
  have "set (map res_id ?rs) = {i. held i b \<noteq> 0}"
    by (auto simp: count [symmetric] filter_empty_conv)
  then show ids: "res_id ` set ?rs = pending_ids b \<union> unemitted_ids b" by (auto simp: held_def)
  have "held i b \<le> 1" for i using assms by (auto simp: held_def broker_wf_def)
  then have distinct: "distinct (map res_id ?rs)"
    using count by (intro distinct_map_count) simp
  have "inj_on approval_sequence (set (map res_id ?rs))"
  proof (rule inj_onI)
    fix i j
    assume "i \<in> set (map res_id ?rs)" "j \<in> set (map res_id ?rs)" "approval_sequence i = approval_sequence j"
    moreover have "set (map res_id ?rs) \<subseteq> issued b" using ids assms by (auto simp: broker_wf_def)
    ultimately show "i = j" using issued_inj [OF assms, of i j] by blast
  qed
  then have "distinct (map (approval_sequence \<circ> res_id) ?rs)"
    using distinct by (simp add: distinct_map comp_inj_on)
  moreover have "sorted (map (approval_sequence \<circ> res_id) ?rs)"
    by (simp add: cancel_all_def Let_def comp_def)
  ultimately show "sorted_wrt (<) (map (approval_sequence \<circ> res_id) ?rs)" by (simp add: strict_sorted_iff)
qed

theorem approval_ids_fresh_and_ordered_witness:
  "res_id ` set (fst (cancel_all ''x'' (broker_new True))) = {}"
  using approval_ids_fresh_and_ordered [OF broker_wf_new(1), of _ True _ _ "''x''"]
  by (simp add: broker_new_def)



text \<open>
  Observation. A resolution that arrives while the deadline expires is lost to the waiting task.
  The loop means to continue when the approval is no longer pending, but for an issued approval
  the broker answers \<open>AlreadyResolved\<close>: the task fails, and although a client has approved, no
  \<open>ApprovalResolved\<close> and no \<open>Running\<close> status is published.
\<close>

theorem late_resolution_fails_the_request:
  "case request_approval (\<lambda>_. True) (unassigned ''c'' ''exec'' ''ls'' False)
        [\<lparr>wr_clock = 100, wr_others = id, wr_wake = WakeDeadline,
          wr_late = (\<lambda>b. snd (resolve ''approval-1'' ''client'' [ApproveOnce] AllowOnce b))\<rparr>]
        (broker_new_with_timeout False 5, []) of
     Some (Inl e, b, tr) \<Rightarrow> e = Broker AlreadyResolved \<and> emitted ''approval-1'' tr = 0
        \<and> TurnStatusChanged Running \<notin> set tr \<and> map fst (br_unemitted b) = [''approval-1'']
   | _ \<Rightarrow> False"
  by code_simp

text \<open>
  Observation. The list of pending approvals is ordered by text, not by age: with ten requests
  and the first answered, the tenth comes before the second, while cancellation, which orders by
  number, reports the second first.
\<close>

theorem pending_order_is_lexicographic:
  "let b = snd (resolve ''approval-1'' ''client'' [ApproveOnce] Deny
             (fold (\<lambda>_ b. snd (register (unassigned ''c'' ''exec'' ''ls'' False) b)) [0 ..< 10] (broker_new False)))
   in map ar_id (take 2 (pending b)) = [''approval-10'', ''approval-2'']
      \<and> map res_id (take 2 (fst (cancel_all ''x'' (b\<lparr>br_unemitted := []\<rparr>)))) = [''approval-2'', ''approval-3'']"
  by code_simp

end
