(* ===== verification/Text_Lib.thy ===== *)
theory Text_Lib
  imports Prelude
begin

text \<open>
  The functions of Rust's \<open>str\<close> that the components use, on UTF-8 byte strings: white space,
  \<open>trim\<close>, \<open>lines\<close>, \<open>split_whitespace\<close>, \<open>split_once\<close> and ASCII lower case.
\<close>

section \<open>White space, trimming and lines\<close>

text \<open>
  \<open>ws_prefix\<close> is the width of the white space character that a UTF-8 string starts with, 0 when
  it starts with something else (Unicode White_Space, as \<open>str::trim\<close> uses it).
\<close>

definition ws_prefix :: "string \<Rightarrow> nat" where
  "ws_prefix s =
     (case map (of_char :: char \<Rightarrow> nat) (take 3 s) of
        [] \<Rightarrow> 0
      | a # bs \<Rightarrow>
          if 9 \<le> a \<and> a \<le> 13 \<or> a = 32 then 1
          else (case bs of
            [] \<Rightarrow> 0
          | b # cs \<Rightarrow>
              if a = 194 \<and> (b = 133 \<or> b = 160) then 2
              else (case cs of
                [] \<Rightarrow> 0
              | c # _ \<Rightarrow>
                  if a = 225 \<and> b = 154 \<and> c = 128
                     \<or> a = 226 \<and> b = 128 \<and> (128 \<le> c \<and> c \<le> 138 \<or> c = 168 \<or> c = 169 \<or> c = 175)
                     \<or> a = 226 \<and> b = 129 \<and> c = 159
                     \<or> a = 227 \<and> b = 128 \<and> c = 128 then 3 else 0)))"

definition ws_suffix :: "string \<Rightarrow> nat" where
  "ws_suffix s =
     (case List.find (\<lambda>k. k \<le> length s \<and> ws_prefix (drop (length s - k) s) = k) [1, 2, 3] of
        Some k \<Rightarrow> k | None \<Rightarrow> 0)"

function trim_start :: "string \<Rightarrow> string" where
  "trim_start s = (if s = [] \<or> ws_prefix s = 0 then s else trim_start (drop (ws_prefix s) s))"
  by pat_completeness auto
termination
  by (relation "measure length") (auto simp: diff_less)

function trim_end :: "string \<Rightarrow> string" where
  "trim_end s = (if s = [] \<or> ws_suffix s = 0 then s else trim_end (take (length s - ws_suffix s) s))"
  by pat_completeness auto
termination
  by (relation "measure length") (auto simp: min_less_iff_disj intro: diff_less)

declare trim_start.simps [simp del] trim_end.simps [simp del]

definition trim :: "string \<Rightarrow> string" where
  "trim s = trim_end (trim_start s)"

definition newline :: char where "newline = CHR 0x0A"
definition carriage_return :: char where "carriage_return = CHR 0x0D"

definition strip_cr :: "string \<Rightarrow> string" where
  "strip_cr s = (if s \<noteq> [] \<and> last s = carriage_return then butlast s else s)"

fun lines_from :: "string \<Rightarrow> string \<Rightarrow> string list" where
  "lines_from acc [] = (if acc = [] then [] else [acc])"
| "lines_from acc (c # cs) =
     (if c = newline then strip_cr acc # lines_from [] cs else lines_from (acc @ [c]) cs)"

definition lines :: "string \<Rightarrow> string list" where
  "lines s = lines_from [] s"


text \<open>\<open>str::split_whitespace\<close>: the maximal runs without white space.\<close>

function words_from :: "string \<Rightarrow> string \<Rightarrow> string list" where
  "words_from acc s =
     (if s = [] then (if acc = [] then [] else [acc])
      else if ws_prefix s > 0
      then (if acc = [] then [] else [acc]) @ words_from [] (drop (ws_prefix s) s)
      else words_from (acc @ [hd s]) (tl s))"
  by pat_completeness auto
termination
  by (relation "measure (\<lambda>(acc, s). length s)") (auto simp: diff_less)

declare words_from.simps [simp del]

definition split_whitespace :: "string \<Rightarrow> string list" where
  "split_whitespace s = words_from [] s"

text \<open>\<open>str::split_once\<close> at a character, and \<open>to_ascii_lowercase\<close>.\<close>

fun split_once :: "char \<Rightarrow> string \<Rightarrow> (string \<times> string) option" where
  "split_once d [] = None"
| "split_once d (c # cs) =
     (if c = d then Some ([], cs)
      else (case split_once d cs of None \<Rightarrow> None | Some (a, b) \<Rightarrow> Some (c # a, b)))"

definition lower_char :: "char \<Rightarrow> char" where
  "lower_char c = (let n = of_char c :: nat in if 65 \<le> n \<and> n \<le> 90 then char_of (n + 32) else c)"

definition to_ascii_lowercase :: "string \<Rightarrow> string" where
  "to_ascii_lowercase s = map lower_char s"

lemma split_once_Some: "split_once d s = Some (a, b) \<Longrightarrow> s = a @ d # b \<and> d \<notin> set a"
  by (induction s arbitrary: a b) (auto split: if_splits option.splits)

lemma split_once_append: "d \<notin> set a \<Longrightarrow> split_once d (a @ d # b) = Some (a, b)"
  by (induction a) auto

lemma split_once_None: "split_once d s = None \<longleftrightarrow> d \<notin> set s"
  by (induction s) (auto split: option.splits)

lemma words_nonempty: "w \<in> set (words_from acc s) \<Longrightarrow> w \<noteq> []"
proof (induction acc s rule: words_from.induct)
  case (1 acc s)
  from "1.prems" show ?case
    by (subst (asm) words_from.simps) (auto split: if_splits dest: "1.IH")
qed

section \<open>Lines\<close>

lemma lines_from_newline_free:
  "newline \<notin> set name \<Longrightarrow> lines_from acc (name @ newline # rest) = strip_cr (acc @ name) # lines_from [] rest"
  by (induction name arbitrary: acc) auto

text \<open>A string that is empty or ends with a newline consists of whole lines.\<close>

definition whole_lines :: "string \<Rightarrow> bool" where
  "whole_lines s \<longleftrightarrow> s = [] \<or> last s = newline"

lemma lines_from_append:
  "s \<noteq> [] \<Longrightarrow> last s = newline \<Longrightarrow> lines_from acc (s @ t) = lines_from acc s @ lines_from [] t"
  by (induction s arbitrary: acc) (auto split: if_splits)

lemma lines_append:
  "whole_lines s \<Longrightarrow> newline \<notin> set name \<Longrightarrow> lines (s @ name @ [newline]) = lines s @ [strip_cr name]"
  using lines_from_newline_free [of name "[]" "[]"] lines_from_append [of s "[]" "name @ [newline]"]
  by (cases "s = []") (simp_all add: lines_def whole_lines_def)

section \<open>Trimming\<close>

lemma trim_start_fixed: "ws_prefix s = 0 \<Longrightarrow> trim_start s = s"
  by (subst trim_start.simps) simp

lemma trim_end_fixed: "ws_suffix s = 0 \<Longrightarrow> trim_end s = s"
  by (subst trim_end.simps) simp

lemma length_trim_end: "length (trim_end s) \<le> length s"
proof (induction s rule: trim_end.induct)
  case (1 s)
  then show ?case by (subst trim_end.simps) (auto intro: order_trans)
qed

lemma length_trim_start: "length (trim_start s) \<le> length s"
proof (induction s rule: trim_start.induct)
  case (1 s)
  then show ?case by (subst trim_start.simps) (auto intro: order_trans)
qed

lemma trim_fixed_no_suffix:
  assumes "trim s = s"
  shows "ws_suffix s = 0 \<or> s = []"
proof (rule ccontr)
  assume contra: "\<not> (ws_suffix s = 0 \<or> s = [])"
  have start: "trim_start s = s"
  proof (rule ccontr)
    assume "trim_start s \<noteq> s"
    then have "ws_prefix s \<noteq> 0" "s \<noteq> []" using trim_start.simps [of s] by (auto split: if_splits)
    moreover from this have "trim_start s = trim_start (drop (ws_prefix s) s)"
      using trim_start.simps [of s] by simp
    ultimately have "length (trim_start s) < length s"
      using length_trim_start [of "drop (ws_prefix s) s"] by (simp add: le_less_trans [OF _ diff_less])
    with assms length_trim_end [of "trim_start s"] show False by (simp add: trim_def)
  qed
  have "trim_end s = trim_end (take (length s - ws_suffix s) s)" using contra trim_end.simps [of s] by simp
  moreover have "length s - ws_suffix s < length s" using contra by simp
  ultimately have "length (trim_end s) < length s"
    using length_trim_end [of "take (length s - ws_suffix s) s"] by simp
  with assms start show False by (simp add: trim_def)
qed

end
