(* ===== verification/Safety.thy ===== *)
theory Safety
  imports Text_Lib
begin

text \<open>
  The safety policy (src/src/safety.rs): the deterministic gate (denylist, allowlist, approval
  mode, remembered approvals), the decision around an operator's answer, and the approvals file.
  The file is its content when it can be read, with what the operating system allows of it. The
  locale \<open>approval_gate\<close> is the contract that every approval surface relies on.
\<close>

section \<open>The policy\<close>

definition destructive_tools :: "string list" where
  "destructive_tools =
     [''exec'', ''write_file'', ''edit_file'', ''append_file'', ''git'', ''docker'', ''cargo'', ''gh'']"

definition remote_tool_prefix :: string where "remote_tool_prefix = ''mcp__''"

definition is_destructive_tool :: "string \<Rightarrow> bool" where
  "is_destructive_tool name \<longleftrightarrow> name \<in> set destructive_tools \<or> starts_with remote_tool_prefix name"

datatype approval_mode = Auto | Interactive | Paranoid

datatype safety_decision = SD_Deny | SD_Once | SD_Always

text \<open>
  An approvals file: its content (\<open>None\<close> when there is no file), whether it can be read (an
  access right, and UTF-8 content), whether it can be opened for appending (and created), and
  whether it is a regular file with one name only, which the protected variant demands (it also
  refuses to follow a link, so a link is not openable there).
\<close>

record approvals_file =
  af_content :: "string option"
  af_readable :: bool
  af_writable :: bool
  af_plain :: bool

record safety_policy =
  sp_mode :: approval_mode
  sp_allowed :: "string list"
  sp_denied :: "string list"
  sp_auto_approve :: "string list"
  sp_approvals :: "approvals_file option"
  sp_secure :: bool

definition default_policy :: safety_policy where
  "default_policy = \<lparr>sp_mode = Auto, sp_allowed = [], sp_denied = [], sp_auto_approve = [],
     sp_approvals = None, sp_secure = False\<rparr>"

datatype gate = Block string | Allow | NeedsApproval

definition quoted :: "string \<Rightarrow> string" where
  "quoted name = [CHR 0x27] @ name @ [CHR 0x27]"

definition denied_reason :: "string \<Rightarrow> string" where
  "denied_reason name = ''blocked by policy: '' @ quoted name @ '' is in the denied-commands list''"

definition unlisted_reason :: "string \<Rightarrow> string" where
  "unlisted_reason name = ''blocked by policy: '' @ quoted name @ '' is not in the allowed-commands list''"

definition declined_reason :: "string \<Rightarrow> string" where
  "declined_reason name = ''blocked: operator declined approval for '' @ quoted name"

definition gate :: "safety_policy \<Rightarrow> string \<Rightarrow> gate" where
  "gate p name =
     (if list_ex (\<lambda>d. d = name) (sp_denied p) then
        Block (denied_reason name)
      else if sp_allowed p \<noteq> [] \<and> \<not> list_ex (\<lambda>a. a = name) (sp_allowed p) then
        Block (unlisted_reason name)
      else
        (let needs_approval =
           (case sp_mode p of Auto \<Rightarrow> False | Interactive \<Rightarrow> is_destructive_tool name | Paranoid \<Rightarrow> True)
         in if \<not> needs_approval then Allow
            else if name \<in> set (sp_auto_approve p) then Allow
            else NeedsApproval))"

definition parse_approvals :: "string \<Rightarrow> string list" where
  "parse_approvals content =
     filter (\<lambda>l. l \<noteq> [] \<and> \<not> starts_with ''#'' l) (map trim (lines content))"

definition load_approvals :: "approvals_file \<Rightarrow> string list" where
  "load_approvals f =
     (case af_content f of Some c \<Rightarrow> if af_readable f then parse_approvals c else [] | None \<Rightarrow> [])"

definition content_of :: "approvals_file \<Rightarrow> string" where
  "content_of f = (case af_content f of Some c \<Rightarrow> c | None \<Rightarrow> [])"

definition append_line :: "string \<Rightarrow> approvals_file \<Rightarrow> approvals_file" where
  "append_line name f = f\<lparr>af_content := Some (content_of f @ name @ [newline])\<rparr>"

definition persist_approval :: "string \<Rightarrow> approvals_file \<Rightarrow> approvals_file" where
  "persist_approval name f =
     (if name \<in> set (load_approvals f) then f
      else if af_writable f then append_line name f
      else f)"

definition persist_state_approval :: "string \<Rightarrow> approvals_file \<Rightarrow> approvals_file" where
  "persist_state_approval name f =
     (if \<not> af_writable f then f
      else (let opened = f\<lparr>af_content := Some (content_of f)\<rparr> in
        if \<not> af_plain f then opened
        else if \<not> af_readable f \<or> list_ex (\<lambda>line. trim line = name) (lines (content_of f)) then opened
        else append_line name opened))"

definition remember_always :: "string \<Rightarrow> safety_policy \<Rightarrow> safety_policy" where
  "remember_always name p =
     (let p1 = p\<lparr>sp_auto_approve := List.insert name (sp_auto_approve p)\<rparr> in
      if starts_with remote_tool_prefix name then p1
      else (case sp_approvals p1 of
              None \<Rightarrow> p1
            | Some f \<Rightarrow>
                p1\<lparr>sp_approvals := Some (if sp_secure p1 then persist_state_approval name f
                                          else persist_approval name f)\<rparr>))"

datatype hook_result = HookAllow | HookBlock string

definition decide ::
  "(string \<Rightarrow> 'v \<Rightarrow> safety_decision) option \<Rightarrow> string \<Rightarrow> 'v \<Rightarrow> safety_policy \<Rightarrow> hook_result \<times> safety_policy" where
  "decide approve_fn name input p =
     (case gate p name of
        Block reason \<Rightarrow> (HookBlock reason, p)
      | Allow \<Rightarrow> (HookAllow, p)
      | NeedsApproval \<Rightarrow>
          (case (case approve_fn of Some f \<Rightarrow> f name input | None \<Rightarrow> SD_Once) of
             SD_Deny \<Rightarrow>
               (HookBlock (declined_reason name), p)
           | SD_Once \<Rightarrow> (HookAllow, p)
           | SD_Always \<Rightarrow> (HookAllow, remember_always name p)))"

definition stdin_decision :: "string \<Rightarrow> safety_decision" where
  "stdin_decision line =
     (if trim line = ''Y'' then SD_Always else if trim line = ''y'' then SD_Once else SD_Deny)"

section \<open>The approvals file\<close>

text \<open>A tool name that survives the file format: what \<open>trim\<close> keeps, in one line, not a comment.\<close>

definition plain_name :: "string \<Rightarrow> bool" where
  "plain_name name \<longleftrightarrow> name \<noteq> [] \<and> newline \<notin> set name \<and> trim name = name \<and> \<not> starts_with ''#'' name"

lemma strip_cr_plain:
  assumes "plain_name name"
  shows "strip_cr name = name"
proof (rule ccontr)
  assume "strip_cr name \<noteq> name"
  then have "name \<noteq> []" "last name = carriage_return" by (auto simp: strip_cr_def split: if_splits)
  then obtain b where b: "name = b @ [carriage_return]" by (metis append_butlast_last_id)
  have "ws_prefix [carriage_return] = 1" by code_simp
  with b have "ws_suffix name = 1" by (simp add: ws_suffix_def)
  with trim_fixed_no_suffix [of name] assms show False by (auto simp: plain_name_def)
qed

lemma parse_append:
  "whole_lines c \<Longrightarrow> plain_name name \<Longrightarrow> parse_approvals (c @ name @ [newline]) = parse_approvals c @ [name]"
  using lines_append [of c name] strip_cr_plain [of name]
  by (simp add: parse_approvals_def plain_name_def)

section \<open>The contract of the gate\<close>

text \<open>
  What an approval surface relies on: a blocked tool stays blocked whatever is remembered, a
  remembered tool is never asked about again, and remembering one tool changes the gate of no
  other tool.
\<close>

locale approval_gate =
  fixes ask :: "'p \<Rightarrow> string \<Rightarrow> gate"
    and remember :: "string \<Rightarrow> 'p \<Rightarrow> 'p"
  assumes block_stable: "ask p n = Block reason \<Longrightarrow> ask (remember m p) n = Block reason"
    and remembered: "ask (remember n p) n \<noteq> NeedsApproval"
    and remember_other: "m \<noteq> n \<Longrightarrow> ask (remember m p) n = ask p n"
    and allow_stable: "ask p n = Allow \<Longrightarrow> ask (remember m p) n = Allow"
begin

text \<open>The names asked about in a run of requests, each remembered when the answer says so.\<close>

fun run :: "(string \<times> bool) list \<Rightarrow> 'p \<Rightarrow> string list \<times> 'p" where
  "run [] p = ([], p)"
| "run ((n, always) # rs) p =
     (if ask p n = NeedsApproval
      then (let (asked, q) = run rs (if always then remember n p else p) in (n # asked, q))
      else run rs p)"

lemma run_settled: "ask p n \<noteq> NeedsApproval \<Longrightarrow> n \<notin> set (fst (run rs p)) \<and> ask (snd (run rs p)) n = ask p n"
proof (induction rs arbitrary: p)
  case (Cons r rs)
  obtain m always where r: "r = (m, always)" by force
  have keep: "ask (remember m p) n = ask p n"
    using Cons.prems block_stable allow_stable by (cases "ask p n") auto
  show ?case
  proof (cases "ask p m = NeedsApproval")
    case True
    then have "m \<noteq> n" using Cons.prems by auto
    then show ?thesis
      using True Cons.IH [of "remember m p"] Cons.IH [of p] Cons.prems keep by (auto simp: r split_beta)
  next
    case False
    with Cons.IH [of p] Cons.prems show ?thesis by (simp add: r)
  qed
qed simp

lemma asked_once_then_always:
  "ask p n = NeedsApproval \<Longrightarrow> n \<notin> set (fst (run rs (remember n p)))"
  using run_settled [OF remembered] by blast

end

lemma gate_remember_fields [simp]:
  "sp_mode (remember_always m p) = sp_mode p" "sp_allowed (remember_always m p) = sp_allowed p"
  "sp_denied (remember_always m p) = sp_denied p" "sp_secure (remember_always m p) = sp_secure p"
  "set (sp_auto_approve (remember_always m p)) = insert m (set (sp_auto_approve p))"
  by (simp_all add: remember_always_def Let_def split: option.splits)

lemma gate_unfold:
  "gate p name =
     (if name \<in> set (sp_denied p) then
        Block (denied_reason name)
      else if sp_allowed p \<noteq> [] \<and> name \<notin> set (sp_allowed p) then
        Block (unlisted_reason name)
      else if (sp_mode p = Paranoid \<or> sp_mode p = Interactive \<and> is_destructive_tool name)
              \<and> name \<notin> set (sp_auto_approve p) then NeedsApproval
      else Allow)"
  by (cases "sp_mode p") (auto simp: gate_def Let_def list_ex_iff)

interpretation policy: approval_gate gate remember_always
  by unfold_locales (auto simp: gate_unfold split: if_splits)

lemma load_readable: "af_readable f \<Longrightarrow> load_approvals f = parse_approvals (content_of f)"
  by (auto simp: load_approvals_def content_of_def parse_approvals_def lines_def split: option.splits)

lemma persist_effect:
  assumes f: "af_readable f" "af_writable f" "af_plain f" "whole_lines (content_of f)"
    and name: "plain_name name"
    and f': "f' = persist_approval name f \<or> f' = persist_state_approval name f"
  shows "set (load_approvals f') = insert name (set (load_approvals f))"
    and "whole_lines (content_of f')"
    and "persist_approval name f' = f'" and "persist_state_approval name f' = f'"
proof -
  let ?c = "content_of f"
  have known: "list_ex (\<lambda>line. trim line = name) (lines c) \<longleftrightarrow> name \<in> set (parse_approvals c)" for c
    using name by (auto simp: parse_approvals_def plain_name_def list_ex_iff)
  have some: "af_content f \<noteq> None" if "name \<in> set (parse_approvals ?c)"
    using that by (auto simp: content_of_def parse_approvals_def lines_def split: option.splits)
  have content: "af_content f' = Some (if name \<in> set (parse_approvals ?c) then ?c else ?c @ name @ [newline])"
    and same: "af_readable f'" "af_writable f'" "af_plain f'"
    using f f' some known [of ?c]
    by (auto simp: persist_approval_def persist_state_approval_def load_readable append_line_def content_of_def)
  have "set (parse_approvals (content_of f')) = insert name (set (parse_approvals ?c))"
    using content parse_append [OF f(4) name] by (auto simp: content_of_def [of f'])
  then show "set (load_approvals f') = insert name (set (load_approvals f))"
    using f(1) same(1) by (simp add: load_readable)
  then show "persist_approval name f' = f'" "persist_state_approval name f' = f'"
    using same content known [of "content_of f'"]
    by (simp_all add: persist_approval_def persist_state_approval_def load_readable content_of_def [of f'])
  show "whole_lines (content_of f')" using content f(4) by (auto simp: content_of_def [of f'] whole_lines_def)
qed

section \<open>Properties\<close>



text \<open>
  Observation. An answer of \<open>Always\<close> is asked for once: after it, no later request in the
  session asks about that tool again, blocked tools stay blocked and no other tool's gate moves.
\<close>

theorem always_is_asked_once:
  assumes "gate p name = NeedsApproval"
  shows "name \<notin> set (fst (policy.run requests (remember_always name p)))
    \<and> gate (snd (policy.run requests (remember_always name p))) name = Allow
    \<and> (m \<noteq> name \<longrightarrow> gate (remember_always name p) m = gate p m)"
proof -
  have allow: "gate (remember_always name p) name = Allow"
    using assms by (auto simp: gate_unfold split: if_splits)
  then show ?thesis
    using policy.run_settled [of "remember_always name p" name requests]
      policy.asked_once_then_always [OF assms] policy.remember_other [of name m p] by auto
qed

theorem always_is_asked_once_witness:
  "gate (remember_always ''exec'' (default_policy\<lparr>sp_mode := Interactive\<rparr>)) ''git'' = NeedsApproval"
  using always_is_asked_once [of "default_policy\<lparr>sp_mode := Interactive\<rparr>" "''exec''" "[]" "''git''"]
  by (simp add: gate_unfold default_policy_def is_destructive_tool_def destructive_tools_def)

text \<open>
  Observation. Remembered approvals survive a restart, remote tools excepted: with a writable,
  readable file of whole lines, remembering an ordinary tool makes the file load to exactly the
  earlier approvals and that tool, remembering it again leaves the file as it is, and
  remembering a remote tool never touches the file.
\<close>

theorem approvals_roundtrip:
  assumes "sp_approvals p = Some f" and "af_readable f" and "af_writable f" and "af_plain f"
    and "whole_lines (content_of f)" and "plain_name name"
  shows "(starts_with remote_tool_prefix name \<longrightarrow> sp_approvals (remember_always name p) = Some f)
    \<and> (\<not> starts_with remote_tool_prefix name \<longrightarrow>
        (\<exists>f'. sp_approvals (remember_always name p) = Some f'
           \<and> set (load_approvals f') = insert name (set (load_approvals f))
           \<and> whole_lines (content_of f')
           \<and> sp_approvals (remember_always name (remember_always name p)) = Some f'))"
proof (cases "starts_with remote_tool_prefix name")
  case True
  with assms(1) show ?thesis by (simp add: remember_always_def)
next
  case False
  let ?f = "if sp_secure p then persist_state_approval name f else persist_approval name f"
  have eq: "sp_approvals (remember_always name p) = Some ?f"
    using assms(1) False by (simp add: remember_always_def)
  have f: "?f = persist_approval name f \<or> ?f = persist_state_approval name f" by simp
  note effect = persist_effect [OF assms(2-6) f]
  have "sp_approvals (remember_always name (remember_always name p)) = Some ?f"
    using False eq effect(3,4)
    by (cases "sp_secure p") (simp_all add: remember_always_def [of name "remember_always name p"])
  with eq effect(1,2) False show ?thesis by blast
qed

theorem approvals_roundtrip_witness:
  "\<exists>f'. sp_approvals (remember_always ''exec''
       (default_policy\<lparr>sp_approvals := Some \<lparr>af_content = None, af_readable = True, af_writable = True, af_plain = True\<rparr>\<rparr>)) = Some f'
     \<and> set (load_approvals f') = {''exec''}"
proof -
  let ?f = "\<lparr>af_content = None, af_readable = True, af_writable = True, af_plain = True\<rparr>"
  have "plain_name ''exec''" by code_simp
  moreover have "whole_lines (content_of ?f)" by (simp add: content_of_def whole_lines_def)
  moreover have "\<not> starts_with remote_tool_prefix ''exec''" by code_simp
  ultimately show ?thesis
    using approvals_roundtrip [of "default_policy\<lparr>sp_approvals := Some ?f\<rparr>" ?f "''exec''"]
    by (auto simp: load_approvals_def [of ?f])
qed

text \<open>
  Observation. The file must end with a newline for that: appending to a hand-edited file whose
  last line is not terminated glues the new tool to the last one, so after a restart neither of
  them is approved.
\<close>

theorem unterminated_approvals_are_glued:
  "load_approvals (persist_approval ''exec''
     \<lparr>af_content = Some ''git'', af_readable = True, af_writable = True, af_plain = True\<rparr>) = [''gitexec'']"
  by code_simp

end
