(* ===== verification/Tool_Lifecycle.thy ===== *)
theory Tool_Lifecycle
  imports Approvals Safety
begin

text \<open>
  The canonical tool lifecycle (CanonicalToolLifecycle, approval_denial_reason,
  bounded_tool_output and tool_call_title of src/src/session_core.rs): admission under a bound,
  authorisation through the safety policy and the approval broker, and one terminal event per
  admitted call. A tool input is represented by its \<open>command\<close> text, the only part that is read.
\<close>

record tool_call_info =
  ti_id :: string
  ti_name :: string
  ti_command :: "string option"

record tool_lifecycle =
  lc_active :: "string list"
  lc_max_active :: nat
  lc_max_output :: "nat option"

definition lifecycle_new :: "nat \<Rightarrow> tool_lifecycle" where
  "lifecycle_new max_active = \<lparr>lc_active = [], lc_max_active = max max_active 1, lc_max_output = None\<rparr>"

definition lifecycle_new_with_output_limit :: "nat \<Rightarrow> nat \<Rightarrow> tool_lifecycle" where
  "lifecycle_new_with_output_limit max_active max_output =
     \<lparr>lc_active = [], lc_max_active = max max_active 1, lc_max_output = Some (max max_output 16)\<rparr>"

definition tool_call_title :: "tool_call_info \<Rightarrow> string" where
  "tool_call_title info =
     (if ti_name info = ''exec'' then (case ti_command info of Some c \<Rightarrow> c | None \<Rightarrow> ti_name info)
      else ti_name info)"

definition approval_denial_reason :: "string \<Rightarrow> approval_resolution \<Rightarrow> string" where
  "approval_denial_reason tool resolution =
     (let who = res_by resolution in
      (if who = ''acp_cancelled'' then ''permission request cancelled for ''
       else if who = ''acp_unrecognized'' then ''unrecognized permission outcome for ''
       else if who = ''acp_request_failed'' \<or> who = ''acp_unavailable'' \<or> who = ''acp_spawn_failed''
         then ''permission request failed for ''
       else if who = ''broker_closed'' then ''permission broker closed for ''
       else if who = ''resolution_failed'' then ''permission resolution failed for ''
       else ''permission denied for '') @ quoted tool)"

definition marker :: string where
  "marker = newline # ''[tool output truncated]''"

definition bounded_tool_output :: "string \<Rightarrow> nat \<Rightarrow> string" where
  "bounded_tool_output output max_bytes =
     (if length output \<le> max_bytes then output
      else (let prefix_budget = max_bytes - length marker;
                end_at = floor_boundary output (min prefix_budget (length output))
            in take end_at output @
               (if max_bytes \<ge> length marker then marker else take max_bytes marker)))"

definition project_output :: "tool_lifecycle \<Rightarrow> string \<Rightarrow> string" where
  "project_output lc output =
     (case lc_max_output lc of None \<Rightarrow> output | Some m \<Rightarrow> bounded_tool_output output m)"

definition approval_required :: "safety_policy \<Rightarrow> string \<Rightarrow> bool" where
  "approval_required p tool \<longleftrightarrow> gate p tool = NeedsApproval"

definition reserve :: "tool_call_info \<Rightarrow> tool_lifecycle \<times> stream \<Rightarrow> (string + unit) \<times> tool_lifecycle \<times> stream" where
  "reserve info = (\<lambda>(lc, tr).
     (if ti_id info \<in> set (lc_active lc)
      then (Inl (''tool call '' @ quoted (ti_id info) @ '' is already active''), lc, tr)
      else if length (lc_active lc) \<ge> lc_max_active lc
      then (Inl (''active tool-call limit ('' @ show_nat (lc_max_active lc) @ '') reached''), lc, tr)
      else (Inr (), lc\<lparr>lc_active := ti_id info # lc_active lc\<rparr>,
            tr @ [ToolCallStarted (ti_id info) (ti_name info) (ti_name info) None])))"

definition finish :: "tool_call_info \<Rightarrow> string \<Rightarrow> bool \<Rightarrow> tool_lifecycle \<times> stream \<Rightarrow> bool \<times> tool_lifecycle \<times> stream" where
  "finish info output is_error = (\<lambda>(lc, tr).
     (if ti_id info \<notin> set (lc_active lc) then (False, lc, tr)
      else (True, lc\<lparr>lc_active := removeAll (ti_id info) (lc_active lc)\<rparr>,
            tr @ [ToolCallFinished (ti_id info) (if is_error then Failed else Completed)
                    (project_output lc output)])))"

text \<open>
  Authorisation in two parts, since other tasks run while an approval is awaited: the decision,
  with the environment of the wait as \<open>rounds\<close> (\<open>None\<close> while the approval is outstanding), and
  what is published once it is known.
\<close>

definition unavailable_reason :: "string \<Rightarrow> string" where
  "unavailable_reason name = ''permission broker unavailable for '' @ quoted name"

definition authorize_decide ::
  "(nat \<Rightarrow> bool) \<Rightarrow> tool_call_info \<Rightarrow> wait_round list \<Rightarrow> safety_policy \<times> approval_broker \<times> stream
    \<Rightarrow> (hook_result \<times> safety_policy \<times> approval_broker \<times> stream) option" where
  "authorize_decide accept info rounds = (\<lambda>(p, b, tr).
     (case gate p (ti_name info) of
        Block reason \<Rightarrow> Some (HookBlock reason, p, b, tr)
      | Allow \<Rightarrow> Some (HookAllow, p, b, tr)
      | NeedsApproval \<Rightarrow>
          (case request_approval accept
                  (unassigned (ti_id info) (ti_name info) (tool_call_title info) True) rounds (b, tr) of
             None \<Rightarrow> None
           | Some (Inr resolution, b1, tr1) \<Rightarrow>
               Some (case res_decision resolution of
                       AllowOnce \<Rightarrow> (HookAllow, p, b1, tr1)
                     | AllowAlways \<Rightarrow> (HookAllow, remember_always (ti_name info) p, b1, tr1)
                     | Deny \<Rightarrow> (HookBlock (approval_denial_reason (ti_name info) resolution), p, b1, tr1))
           | Some (Inl _, b1, tr1) \<Rightarrow> Some (HookBlock (unavailable_reason (ti_name info)), p, b1, tr1))))"

definition authorize_publish ::
  "tool_call_info \<Rightarrow> hook_result \<Rightarrow> tool_lifecycle \<times> stream \<Rightarrow> tool_lifecycle \<times> stream" where
  "authorize_publish info decision = (\<lambda>(lc, tr).
     (case decision of
        HookAllow \<Rightarrow> (lc, tr @ [ToolCallUpdated (ti_id info) InProgress])
      | HookBlock _ \<Rightarrow>
          snd (finish info ''blocked'' True (lc, tr @ [ToolCallUpdated (ti_id info) Failed]))))"

definition cancel_tools :: "tool_lifecycle \<times> stream \<Rightarrow> tool_lifecycle \<times> stream" where
  "cancel_tools = (\<lambda>(lc, tr).
     (lc\<lparr>lc_active := []\<rparr>,
      tr @ concat (map (\<lambda>i. [ToolCallUpdated i ToolCancelled, ToolCallFinished i ToolCancelled ''cancelled''])
                     (sort (lc_active lc)))))"

definition apply_approval_side_effects :: "approval_resolution \<Rightarrow> safety_policy \<Rightarrow> safety_policy" where
  "apply_approval_side_effects resolution p =
     (if res_decision resolution = AllowAlways then remember_always (res_tool resolution) p else p)"

section \<open>One terminal event per admitted call\<close>

fun starts :: "string \<Rightarrow> session_event \<Rightarrow> bool" where
  "starts i (ToolCallStarted j _ _ _) = (j = i)"
| "starts i _ = False"

fun finishes :: "string \<Rightarrow> session_event \<Rightarrow> bool" where
  "finishes i (ToolCallFinished j _ _) = (j = i)"
| "finishes i _ = False"

definition started_count :: "string \<Rightarrow> stream \<Rightarrow> nat" where
  "started_count i tr = length (filter (starts i) tr)"

definition finished_count :: "string \<Rightarrow> stream \<Rightarrow> nat" where
  "finished_count i tr = length (filter (finishes i) tr)"

text \<open>The operations on the lifecycle, in any order and for any calls.\<close>

datatype lifecycle_op =
    OpReserve tool_call_info
  | OpPublish tool_call_info hook_result
  | OpFinish tool_call_info string bool
  | OpCancelAll
  | OpOther session_event

fun lifecycle_step :: "lifecycle_op \<Rightarrow> tool_lifecycle \<times> stream \<Rightarrow> tool_lifecycle \<times> stream" where
  "lifecycle_step (OpReserve info) s = snd (reserve info s)"
| "lifecycle_step (OpPublish info decision) s = authorize_publish info decision s"
| "lifecycle_step (OpFinish info output is_error) s = snd (finish info output is_error s)"
| "lifecycle_step OpCancelAll s = cancel_tools s"
| "lifecycle_step (OpOther ev) (lc, tr) =
     (lc, case ev of ToolCallStarted _ _ _ _ \<Rightarrow> tr | ToolCallFinished _ _ _ \<Rightarrow> tr | _ \<Rightarrow> tr @ [ev])"

fun lifecycle_inv :: "tool_lifecycle \<times> stream \<Rightarrow> bool" where
  "lifecycle_inv (lc, tr) \<longleftrightarrow> distinct (lc_active lc) \<and> length (lc_active lc) \<le> lc_max_active lc
     \<and> (\<forall>i. started_count i tr = finished_count i tr + of_bool (i \<in> set (lc_active lc)))"

lemma counts_append [simp]:
  "started_count i (tr @ tr') = started_count i tr + started_count i tr'"
  "finished_count i (tr @ tr') = finished_count i tr + finished_count i tr'"
  by (simp_all add: started_count_def finished_count_def)

lemma counts_Cons [simp]:
  "started_count i (ev # tr) = of_bool (starts i ev) + started_count i tr"
  "finished_count i (ev # tr) = of_bool (finishes i ev) + finished_count i tr"
  "started_count i [] = 0" "finished_count i [] = 0"
  by (simp_all add: started_count_def finished_count_def)

lemma counts_cancelled:
  "started_count i (concat (map (\<lambda>j. [ToolCallUpdated j a, ToolCallFinished j b c]) ids)) = 0"
  "finished_count i (concat (map (\<lambda>j. [ToolCallUpdated j a, ToolCallFinished j b c]) ids)) = count_list ids i"
  by (induction ids) auto

lemma lifecycle_inv_reserve: "lifecycle_inv s \<Longrightarrow> lifecycle_inv (snd (reserve info s))"
  by (cases s) (auto simp: reserve_def)

lemma lifecycle_inv_finish:
  assumes "lifecycle_inv s"
  shows "lifecycle_inv (snd (finish info output is_error s))"
proof -
  obtain lc tr where s: "s = (lc, tr)" by force
  have "length (removeAll (ti_id info) (lc_active lc)) \<le> length (lc_active lc)"
    by (simp add: removeAll_filter_not_eq)
  also have "\<dots> \<le> lc_max_active lc" using assms by (simp add: s)
  finally show ?thesis using assms by (auto simp: s finish_def distinct_removeAll)
qed

lemma lifecycle_inv_update:
  "lifecycle_inv (lc, tr) \<Longrightarrow> lifecycle_inv (lc, tr @ [ToolCallUpdated i st])"
  by simp

lemma lifecycle_inv_publish: "lifecycle_inv s \<Longrightarrow> lifecycle_inv (authorize_publish info decision s)"
  using lifecycle_inv_finish [OF lifecycle_inv_update]
  by (cases s; cases decision) (simp_all add: authorize_publish_def lifecycle_inv_update del: lifecycle_inv.simps)

lemma count_list_distinct: "distinct xs \<Longrightarrow> count_list xs i = of_bool (i \<in> set xs)"
  by (induction xs) auto

lemma lifecycle_inv_cancel:
  assumes "lifecycle_inv s"
  shows "lifecycle_inv (cancel_tools s)"
proof -
  obtain lc tr where s: "s = (lc, tr)" by force
  have "count_list (sort (lc_active lc)) i = of_bool (i \<in> set (lc_active lc))" for i
    using assms by (simp add: s count_list_distinct)
  then show ?thesis using assms by (simp add: s cancel_tools_def counts_cancelled)
qed

lemma lifecycle_inv_step: "lifecycle_inv s \<Longrightarrow> lifecycle_inv (lifecycle_step op s)"
proof (cases op)
  case (OpOther ev)
  assume "lifecycle_inv s"
  then show ?thesis by (cases s; cases ev) (simp_all add: OpOther)
qed (simp_all add: lifecycle_inv_reserve lifecycle_inv_publish lifecycle_inv_finish lifecycle_inv_cancel)

lemma lifecycle_inv_run: "lifecycle_inv s \<Longrightarrow> lifecycle_inv (fold lifecycle_step ops s)"
  by (induction ops arbitrary: s) (simp_all add: lifecycle_inv_step)

lemma publish_max [simp]: "lc_max_active (fst (authorize_publish info decision s)) = lc_max_active (fst s)"
  by (cases s; cases decision) (simp_all add: authorize_publish_def finish_def)

lemma lifecycle_step_max [simp]: "lc_max_active (fst (lifecycle_step op s)) = lc_max_active (fst s)"
  by (cases op; cases s) (auto simp: reserve_def finish_def cancel_tools_def)

lemma lifecycle_run_max [simp]: "lc_max_active (fst (fold lifecycle_step ops s)) = lc_max_active (fst s)"
  by (induction ops arbitrary: s) simp_all

section \<open>Bounded output\<close>

lemma utf8_ok_ascii: "list_all (\<lambda>c. (of_char c :: nat) < 128) s \<Longrightarrow> utf8_ok s"
  by (induction s) (simp_all add: utf8_ok_Cons utf8_width_def Let_def)

lemma marker_ascii: "list_all (\<lambda>c. (of_char c :: nat) < 128) marker"
  by code_simp

lemma utf8_ok_marker_prefix: "utf8_ok (take k marker)"
  using marker_ascii by (intro utf8_ok_ascii) (auto simp: list_all_iff dest: in_set_takeD)

section \<open>Properties\<close>

text \<open>
  Property C2. Every admitted tool call ends exactly once. Whatever the order of admissions,
  published decisions, completions (duplicate or late ones included) and cancellations, a call
  has as many terminal events as announcements, less one exactly while it is active; no more than
  the bound are active; and after a cancellation of all, every announced call has ended.
\<close>

theorem tool_calls_end_exactly_once:
  fixes ops n
  defines "s \<equiv> fold lifecycle_step ops (lifecycle_new n, [])"
  shows "started_count i (snd s) = finished_count i (snd s) + of_bool (i \<in> set (lc_active (fst s)))
    \<and> length (lc_active (fst s)) \<le> max n 1
    \<and> started_count i (snd (cancel_tools s)) = finished_count i (snd (cancel_tools s))"
proof -
  have inv: "lifecycle_inv s"
    unfolding s_def by (rule lifecycle_inv_run) (simp add: lifecycle_new_def)
  moreover have "lc_max_active (fst s) = max n 1" by (simp add: s_def lifecycle_new_def)
  moreover have "lifecycle_inv (cancel_tools s)" by (rule lifecycle_inv_cancel [OF inv])
  moreover have "lc_active (fst (cancel_tools s)) = []" by (simp add: cancel_tools_def split_beta)
  ultimately show ?thesis by (cases s; cases "cancel_tools s") auto
qed

text \<open>
  Property C30. A tool runs only with permission: authorisation answers \<open>Allow\<close> only when the
  policy allows the tool outright, or asks and a resolution other than a denial came back; the
  policy changes only by remembering this tool on \<open>AllowAlways\<close>; and a failed request blocks.
\<close>

theorem authorize_needs_permission:
  assumes "authorize_decide accept info rounds (p, b, tr) = Some (decision, p', b', tr')"
  shows "(decision = HookAllow \<longrightarrow> gate p (ti_name info) = Allow
      \<or> gate p (ti_name info) = NeedsApproval
        \<and> (\<exists>res. request_approval accept (unassigned (ti_id info) (ti_name info) (tool_call_title info) True)
                    rounds (b, tr) = Some (Inr res, b', tr') \<and> res_decision res \<noteq> Deny))
    \<and> (p' \<noteq> p \<longrightarrow> decision = HookAllow \<and> p' = remember_always (ti_name info) p)
    \<and> (ti_name info \<in> set (sp_denied p) \<longrightarrow> decision \<noteq> HookAllow \<and> b' = b \<and> tr' = tr)"
proof (cases "gate p (ti_name info)")
  case NeedsApproval
  then have "ti_name info \<notin> set (sp_denied p)" by (auto simp: gate_unfold)
  then show ?thesis
    using assms NeedsApproval
    by (auto simp: authorize_decide_def split: option.splits sum.splits prod.splits approval_decision.splits)
qed (use assms in \<open>auto simp: authorize_decide_def gate_unfold split: if_splits\<close>)

theorem authorize_needs_permission_witness:
  "\<exists>d p' b' tr'. authorize_decide (\<lambda>_. True) \<lparr>ti_id = ''1'', ti_name = ''git'', ti_command = None\<rparr> []
      (default_policy\<lparr>sp_denied := [''git'']\<rparr>, broker_new True, []) = Some (d, p', b', tr') \<and> d \<noteq> HookAllow"
proof -
  let ?p = "default_policy\<lparr>sp_denied := [''git'']\<rparr>" and ?i = "\<lparr>ti_id = ''1'', ti_name = ''git'', ti_command = None\<rparr>"
  have run: "authorize_decide (\<lambda>_. True) ?i [] (?p, broker_new True, []) =
      Some (HookBlock (denied_reason ''git''), ?p, broker_new True, [])"
    by (simp add: authorize_decide_def gate_unfold)
  show ?thesis using authorize_needs_permission [OF run] run by auto
qed

text \<open>
  Observation. Tool output is bounded without breaking characters: the projection never exceeds
  the limit, is the output itself when that fits, is well-formed UTF-8 when the output is, and
  otherwise (when the marker fits) is the longest whole-character prefix that leaves room for
  the marker, followed by it.
\<close>

theorem bounded_tool_output_correct:
  assumes "utf8_ok output"
  shows "length (bounded_tool_output output m) \<le> m
    \<and> (length output \<le> m \<longrightarrow> bounded_tool_output output m = output)
    \<and> utf8_ok (bounded_tool_output output m)
    \<and> (m < length output \<and> length marker \<le> m \<longrightarrow>
        (\<exists>k. bounded_tool_output output m = take k output @ marker \<and> k + length marker \<le> m
           \<and> (\<forall>j. is_char_boundary output j \<and> j + length marker \<le> m \<longrightarrow> j \<le> k)))"
proof (cases "length output \<le> m")
  case True
  with assms show ?thesis by (simp add: bounded_tool_output_def)
next
  case False
  let ?k = "floor_boundary output (m - length marker)"
  have eq: "bounded_tool_output output m =
      take ?k output @ (if length marker \<le> m then marker else take m marker)"
    using False by (simp add: bounded_tool_output_def Let_def min_absorb1)
  have le: "?k \<le> m - length marker" by (rule floor_boundary_le)
  have "utf8_ok (take ?k output)"
    by (rule utf8_ok_take_boundary [OF assms floor_boundary_is_boundary])
  then have "utf8_ok (bounded_tool_output output m)"
    using utf8_ok_marker_prefix [of "length marker"] utf8_ok_marker_prefix [of m]
    by (simp add: eq utf8_ok_append)
  moreover have "length (bounded_tool_output output m) \<le> m" using le by (auto simp: eq min_def)
  moreover have "j \<le> ?k" if "is_char_boundary output j" "j + length marker \<le> m" for j
    using floor_boundary_greatest [of j "m - length marker" "output"] that by simp
  ultimately show ?thesis using False le eq by (intro conjI impI exI [of _ ?k]) auto
qed

theorem bounded_tool_output_correct_witness:
  "length (bounded_tool_output (replicate 100 (CHR ''a'')) 30) \<le> 30
   \<and> utf8_ok (bounded_tool_output (replicate 100 (CHR ''a'')) 30)"
proof -
  have "utf8_ok (replicate 100 (CHR ''a''))" by (rule utf8_ok_ascii) code_simp
  from bounded_tool_output_correct [OF this, of 30] show ?thesis by simp
qed

text \<open>
  Observation. The terminal output of a blocked or cancelled call does not reach the timeline.
  The lifecycle publishes a terminal status update just before the finishing event; the reducer
  ends the call at the update and ignores the finishing event, so the entry has the status but
  no output.
\<close>

theorem blocked_output_is_dropped:
  "let info = \<lparr>ti_id = ''1'', ti_name = ''git'', ti_command = None\<rparr>;
       tr = snd (authorize_publish info (HookBlock ''no'') (snd (reserve info (lifecycle_new 1, []))))
   in tr = [ToolCallStarted ''1'' ''git'' ''git'' None, ToolCallUpdated ''1'' Failed,
            ToolCallFinished ''1'' Failed ''blocked'']
      \<and> map te_entry (tl_timeline (fold timeline_apply tr (timeline_new 10))) =
          [TL_Tool ''1'' ''git'' ''git'' Failed None False]"
  by code_simp

end
