(* ===== verification/Turn.thy ===== *)
theory Turn
  imports Event_Router
begin

text \<open>
  Turn ownership and its exclusion with history mutation (SessionMutationPermit, TurnSignal,
  TurnController, ActiveTurn, SessionTurn and the guards of begin_turn, cancel_turn and
  clear_history in src/src/session_core.rs).

  The first part has the operations as state transformers. The second part lets any number of
  turn, clear and cancel tasks interleave: one step per atomic access, in the program order of
  the source. The slot is accessed under its mutex and the flags are read and written with
  compare-exchange, acquire loads and release stores around it, so an interleaving of atomic
  steps is the execution model. Waiting (for the lifecycle mutex, the notification or the
  provider) is the absence of a step.
\<close>

datatype turn_error = TurnBusy
datatype history_mutation_error = MutationBusy

type_synonym signal = nat

record turn_shared =
  sh_mutation :: bool
  sh_slot :: "signal option"
  sh_outcome :: "signal \<Rightarrow> nat"
  sh_next_signal :: signal
  sh_notified :: "signal \<Rightarrow> bool"
  sh_trace :: "turn_status list"

section \<open>Operations\<close>

definition signal_live :: nat where "signal_live = 0"
definition signal_completed :: nat where "signal_completed = 1"
definition signal_cancelled :: nat where "signal_cancelled = 2"

lemmas signal_codes [simp] = signal_live_def signal_completed_def signal_cancelled_def

definition permit_acquire :: "turn_shared \<Rightarrow> (history_mutation_error + unit) \<times> turn_shared" where
  "permit_acquire s = (if sh_mutation s then (Inl MutationBusy, s) else (Inr (), s\<lparr>sh_mutation := True\<rparr>))"

definition permit_drop :: "turn_shared \<Rightarrow> turn_shared" where
  "permit_drop s = s\<lparr>sh_mutation := False\<rparr>"

definition claim :: "signal \<Rightarrow> nat \<Rightarrow> turn_shared \<Rightarrow> bool \<times> turn_shared" where
  "claim sig outcome s =
     (if sh_outcome s sig = signal_live then (True, s\<lparr>sh_outcome := (sh_outcome s)(sig := outcome)\<rparr>)
      else (sh_outcome s sig = outcome, s))"

definition is_cancelled :: "signal \<Rightarrow> turn_shared \<Rightarrow> bool" where
  "is_cancelled sig s \<longleftrightarrow> sh_outcome s sig = signal_cancelled"

definition controller_begin :: "turn_shared \<Rightarrow> (turn_error + signal) \<times> turn_shared" where
  "controller_begin s =
     (case sh_slot s of
        Some _ \<Rightarrow> (Inl TurnBusy, s)
      | None \<Rightarrow>
          (let sig = sh_next_signal s in
           (Inr sig, s\<lparr>sh_slot := Some sig, sh_next_signal := Suc sig,
              sh_outcome := (sh_outcome s)(sig := signal_live), sh_notified := (sh_notified s)(sig := False)\<rparr>)))"

definition is_active :: "turn_shared \<Rightarrow> bool" where
  "is_active s \<longleftrightarrow> sh_slot s \<noteq> None"

definition active_turn_drop :: "signal \<Rightarrow> turn_shared \<Rightarrow> turn_shared" where
  "active_turn_drop sig s = (if sh_slot s = Some sig then s\<lparr>sh_slot := None\<rparr> else s)"

definition emit_status :: "turn_status \<Rightarrow> turn_shared \<Rightarrow> turn_shared" where
  "emit_status st s = s\<lparr>sh_trace := sh_trace s @ [st]\<rparr>"

definition begin_turn :: "turn_shared \<Rightarrow> (turn_error + signal) \<times> turn_shared" where
  "begin_turn s =
     (if sh_mutation s then (Inl TurnBusy, s)
      else (case controller_begin s of
        (Inl e, s1) \<Rightarrow> (Inl e, s1)
      | (Inr sig, s1) \<Rightarrow>
          if sh_mutation s1 then (Inl TurnBusy, active_turn_drop sig s1)
          else (Inr sig, emit_status Running s1)))"

definition mark_completed :: "signal \<Rightarrow> turn_shared \<Rightarrow> bool \<times> turn_shared" where
  "mark_completed sig s = claim sig signal_completed s"

definition terminal_status :: "signal \<Rightarrow> turn_shared \<Rightarrow> turn_status" where
  "terminal_status sig s = (if is_cancelled sig s then Cancelled else Idle)"

definition session_turn_drop :: "signal \<Rightarrow> turn_shared \<Rightarrow> turn_shared" where
  "session_turn_drop sig s = active_turn_drop sig (emit_status (terminal_status sig s) s)"

definition cancel_with :: "(turn_shared \<Rightarrow> turn_shared) \<Rightarrow> turn_shared \<Rightarrow> bool \<times> turn_shared" where
  "cancel_with before_signal s =
     (case sh_slot s of
        None \<Rightarrow> (False, s)
      | Some sig \<Rightarrow>
          (let already_cancelled = is_cancelled sig s;
               (won, s1) = claim sig signal_cancelled s
           in if \<not> won then (False, s1)
              else (let s2 = (if already_cancelled then s1 else before_signal s1)
                    in (True, s2\<lparr>sh_notified := (sh_notified s2)(sig := True)\<rparr>))))"

definition cancel_turn :: "turn_shared \<Rightarrow> bool \<times> turn_shared" where
  "cancel_turn s = cancel_with (emit_status Cancelling) s"

text \<open>The guards of \<open>clear_history\<close> around its body: the permit is released on every exit.\<close>

definition clear_guarded ::
  "(turn_shared \<Rightarrow> 'a \<times> turn_shared) \<Rightarrow> turn_shared \<Rightarrow> (history_mutation_error + 'a) \<times> turn_shared" where
  "clear_guarded body s =
     (case permit_acquire s of
        (Inl e, s1) \<Rightarrow> (Inl e, s1)
      | (Inr _, s1) \<Rightarrow>
          if is_active s1 then (Inl MutationBusy, permit_drop s1)
          else if is_active s1 then (Inl MutationBusy, permit_drop s1)
          else (case body s1 of (a, s2) \<Rightarrow> (Inr a, permit_drop s2)))"

section \<open>Interleavings\<close>

datatype turn_pc =
    T_Idle | T_Checked | T_Claimed signal | T_Backout signal | T_Running signal
  | T_Ending signal turn_status | T_Ended signal

datatype clear_pc = C_Idle | C_Permit | C_Probed | C_Mutating | C_Leaving

datatype cancel_pc = X_Idle | X_Signal signal | X_Read signal bool | X_Won signal | X_Notify signal

record turn_state =
  ts_shared :: turn_shared
  ts_turns :: "nat \<Rightarrow> turn_pc"
  ts_clears :: "nat \<Rightarrow> clear_pc"
  ts_cancels :: "nat \<Rightarrow> cancel_pc"

definition turn_at :: "nat \<Rightarrow> turn_pc \<Rightarrow> turn_shared \<Rightarrow> turn_state \<Rightarrow> turn_state" where
  "turn_at t pc s g = g\<lparr>ts_shared := s, ts_turns := (ts_turns g)(t := pc)\<rparr>"

definition clear_at :: "nat \<Rightarrow> clear_pc \<Rightarrow> turn_shared \<Rightarrow> turn_state \<Rightarrow> turn_state" where
  "clear_at c pc s g = g\<lparr>ts_shared := s, ts_clears := (ts_clears g)(c := pc)\<rparr>"

definition cancel_at :: "nat \<Rightarrow> cancel_pc \<Rightarrow> turn_shared \<Rightarrow> turn_state \<Rightarrow> turn_state" where
  "cancel_at x pc s g = g\<lparr>ts_shared := s, ts_cancels := (ts_cancels g)(x := pc)\<rparr>"

lemmas task_at_defs = turn_at_def clear_at_def cancel_at_def

inductive turn_step :: "turn_state \<Rightarrow> turn_state \<Rightarrow> bool" where
  begin_check: "ts_turns g t = T_Idle \<Longrightarrow> \<not> sh_mutation (ts_shared g) \<Longrightarrow>
    turn_step g (turn_at t T_Checked (ts_shared g) g)"
| begin_claim: "ts_turns g t = T_Checked \<Longrightarrow> controller_begin (ts_shared g) = (Inr sig, s') \<Longrightarrow>
    turn_step g (turn_at t (T_Claimed sig) s' g)"
| begin_busy: "ts_turns g t = T_Checked \<Longrightarrow> controller_begin (ts_shared g) = (Inl e, s') \<Longrightarrow>
    turn_step g (turn_at t T_Idle s' g)"
| begin_backout: "ts_turns g t = T_Claimed sig \<Longrightarrow> sh_mutation (ts_shared g) \<Longrightarrow>
    turn_step g (turn_at t (T_Backout sig) (ts_shared g) g)"
| backout: "ts_turns g t = T_Backout sig \<Longrightarrow>
    turn_step g (turn_at t T_Idle (active_turn_drop sig (ts_shared g)) g)"
| begin_run: "ts_turns g t = T_Claimed sig \<Longrightarrow> \<not> sh_mutation (ts_shared g) \<Longrightarrow>
    turn_step g (turn_at t (T_Running sig) (emit_status Running (ts_shared g)) g)"
| complete: "ts_turns g t = T_Running sig \<Longrightarrow>
    turn_step g (turn_at t (T_Running sig) (snd (mark_completed sig (ts_shared g))) g)"
| decide: "ts_turns g t = T_Running sig \<Longrightarrow>
    turn_step g (turn_at t (T_Ending sig (terminal_status sig (ts_shared g))) (ts_shared g) g)"
| finish: "ts_turns g t = T_Ending sig st \<Longrightarrow>
    turn_step g (turn_at t (T_Ended sig) (emit_status st (ts_shared g)) g)"
| release: "ts_turns g t = T_Ended sig \<Longrightarrow>
    turn_step g (turn_at t T_Idle (active_turn_drop sig (ts_shared g)) g)"
| clear_acquire: "ts_clears g c = C_Idle \<Longrightarrow> permit_acquire (ts_shared g) = (Inr u, s') \<Longrightarrow>
    turn_step g (clear_at c C_Permit s' g)"
| clear_probe: "ts_clears g c = C_Permit \<Longrightarrow>
    turn_step g (clear_at c (if is_active (ts_shared g) then C_Leaving else C_Probed) (ts_shared g) g)"
| clear_locked: "ts_clears g c = C_Probed \<Longrightarrow>
    turn_step g (clear_at c (if is_active (ts_shared g) then C_Leaving else C_Mutating) (ts_shared g) g)"
| clear_done: "ts_clears g c = C_Mutating \<Longrightarrow> turn_step g (clear_at c C_Leaving (ts_shared g) g)"
| clear_release: "ts_clears g c = C_Leaving \<Longrightarrow>
    turn_step g (clear_at c C_Idle (permit_drop (ts_shared g)) g)"
| cancel_clone: "ts_cancels g x = X_Idle \<Longrightarrow> sh_slot (ts_shared g) = Some sig \<Longrightarrow>
    turn_step g (cancel_at x (X_Signal sig) (ts_shared g) g)"
| cancel_read: "ts_cancels g x = X_Signal sig \<Longrightarrow>
    turn_step g (cancel_at x (X_Read sig (is_cancelled sig (ts_shared g))) (ts_shared g) g)"
| cancel_claim: "ts_cancels g x = X_Read sig already \<Longrightarrow>
    claim sig signal_cancelled (ts_shared g) = (won, s') \<Longrightarrow>
    turn_step g (cancel_at x (if \<not> won then X_Idle else if already then X_Notify sig else X_Won sig) s' g)"
| cancel_emit: "ts_cancels g x = X_Won sig \<Longrightarrow>
    turn_step g (cancel_at x (X_Notify sig) (emit_status Cancelling (ts_shared g)) g)"
| cancel_notify: "ts_cancels g x = X_Notify sig \<Longrightarrow>
    turn_step g (cancel_at x X_Idle
      ((ts_shared g)\<lparr>sh_notified := (sh_notified (ts_shared g))(sig := True)\<rparr>) g)"

definition turn_start :: turn_state where
  "turn_start =
     \<lparr>ts_shared = \<lparr>sh_mutation = False, sh_slot = None, sh_outcome = (\<lambda>_. signal_live), sh_next_signal = 0,
         sh_notified = (\<lambda>_. False), sh_trace = []\<rparr>,
      ts_turns = (\<lambda>_. T_Idle), ts_clears = (\<lambda>_. C_Idle), ts_cancels = (\<lambda>_. X_Idle)\<rparr>"

abbreviation reachable :: "turn_state \<Rightarrow> bool" where
  "reachable g \<equiv> turn_step\<^sup>*\<^sup>* turn_start g"

section \<open>The invariant\<close>

fun turn_signal :: "turn_pc \<Rightarrow> signal option" where
  "turn_signal (T_Claimed sig) = Some sig"
| "turn_signal (T_Backout sig) = Some sig"
| "turn_signal (T_Running sig) = Some sig"
| "turn_signal (T_Ending sig _) = Some sig"
| "turn_signal (T_Ended sig) = Some sig"
| "turn_signal _ = None"

text \<open>The turn has announced itself and has not announced its end; or its end too.\<close>

fun announced :: "turn_pc \<Rightarrow> bool" where
  "announced (T_Running _) = True"
| "announced (T_Ending _ _) = True"
| "announced _ = False"

fun executing :: "turn_pc \<Rightarrow> bool" where
  "executing (T_Ended _) = True"
| "executing pc = announced pc"

definition slot_inv :: "turn_state \<Rightarrow> bool" where
  "slot_inv g \<longleftrightarrow>
     (\<forall>t sig. turn_signal (ts_turns g t) = Some sig \<longrightarrow> sh_slot (ts_shared g) = Some sig)
     \<and> (\<forall>t t'. turn_signal (ts_turns g t) \<noteq> None \<longrightarrow> turn_signal (ts_turns g t') \<noteq> None \<longrightarrow> t = t')"

definition permit_inv :: "turn_state \<Rightarrow> bool" where
  "permit_inv g \<longleftrightarrow>
     (\<forall>c. ts_clears g c \<noteq> C_Idle \<longrightarrow> sh_mutation (ts_shared g))
     \<and> (\<forall>c c'. ts_clears g c \<noteq> C_Idle \<longrightarrow> ts_clears g c' \<noteq> C_Idle \<longrightarrow> c = c')"

definition exclusion :: "turn_state \<Rightarrow> bool" where
  "exclusion g \<longleftrightarrow> (\<forall>t c. executing (ts_turns g t) \<longrightarrow> ts_clears g c \<noteq> C_Mutating)"

definition ending_inv :: "turn_state \<Rightarrow> bool" where
  "ending_inv g \<longleftrightarrow> (\<forall>t sig st. ts_turns g t = T_Ending sig st \<longrightarrow>
     st = Idle \<or> (st = Cancelled \<and> is_cancelled sig (ts_shared g)))"

text \<open>
  The grammar of the published statuses, late \<open>Cancelling\<close> notices apart: a turn opens with
  \<open>Running\<close> and closes with one terminal status before the next one opens.
\<close>

fun scan_status :: "bool option \<Rightarrow> turn_status \<Rightarrow> bool option" where
  "scan_status (Some False) Running = Some True"
| "scan_status (Some True) Idle = Some False"
| "scan_status (Some True) Cancelled = Some False"
| "scan_status st Cancelling = st"
| "scan_status _ _ = None"

definition turn_open :: "turn_status list \<Rightarrow> bool option" where
  "turn_open trace = foldl scan_status (Some False) trace"

definition trace_inv :: "turn_state \<Rightarrow> bool" where
  "trace_inv g \<longleftrightarrow> turn_open (sh_trace (ts_shared g)) = Some (\<exists>t. announced (ts_turns g t))"

lemma turn_open_snoc [simp]: "turn_open (trace @ [st]) = scan_status (turn_open trace) st"
  by (simp add: turn_open_def)

lemma scan_cancelling [simp]: "scan_status st Cancelling = st"
  by (cases st) auto

lemma announced_signal: "announced pc \<Longrightarrow> turn_signal pc \<noteq> None"
  by (cases pc) auto

lemma executing_signal: "executing pc \<Longrightarrow> turn_signal pc \<noteq> None"
  by (cases pc) auto

lemmas turn_op_defs = controller_begin_def active_turn_drop_def emit_status_def mark_completed_def claim_def
  permit_acquire_def permit_drop_def is_active_def is_cancelled_def terminal_status_def

lemma slot_invD:
  "slot_inv g \<Longrightarrow> ts_turns g t = pc \<Longrightarrow> turn_signal pc = Some sig \<Longrightarrow> sh_slot (ts_shared g) = Some sig"
  by (auto simp: slot_inv_def)

lemma slot_inv_other:
  "slot_inv g \<Longrightarrow> turn_signal (ts_turns g t) \<noteq> None \<Longrightarrow> t' \<noteq> t \<Longrightarrow> turn_signal (ts_turns g t') = None"
  unfolding slot_inv_def by blast

lemma slot_inv_free: "slot_inv g \<Longrightarrow> sh_slot (ts_shared g) = None \<Longrightarrow> turn_signal (ts_turns g t) = None"
  by (cases "turn_signal (ts_turns g t)") (auto simp: slot_inv_def)

text \<open>A turn task keeps its signal, takes a free slot, or gives up the slot it holds.\<close>

lemma slot_inv_keep:
  assumes "slot_inv g" and "turn_signal pc = turn_signal (ts_turns g t)" and "sh_slot s' = sh_slot (ts_shared g)"
  shows "slot_inv (turn_at t pc s' g)"
proof -
  have "turn_signal (((ts_turns g)(t := pc)) u) = turn_signal (ts_turns g u)" for u
    using assms(2) by simp
  with assms(1,3) show ?thesis by (simp add: slot_inv_def task_at_defs del: fun_upd_apply)
qed

lemma slot_inv_take:
  assumes "slot_inv g" and "sh_slot (ts_shared g) = None" and "turn_signal pc = Some sig" and "sh_slot s' = Some sig"
  shows "slot_inv (turn_at t pc s' g)"
  using slot_inv_free [OF assms(1,2)] assms(3,4) by (auto simp: slot_inv_def task_at_defs)

lemma slot_inv_give:
  assumes "slot_inv g" and "turn_signal (ts_turns g t) \<noteq> None" and "turn_signal pc = None"
  shows "slot_inv (turn_at t pc s' g)"
  using slot_inv_other [OF assms(1,2)] assms(3) by (auto simp: slot_inv_def task_at_defs)

lemma slot_inv_elsewhere:
  "slot_inv g \<Longrightarrow> sh_slot s' = sh_slot (ts_shared g) \<Longrightarrow> slot_inv (clear_at c cpc s' g)"
  "slot_inv g \<Longrightarrow> sh_slot s' = sh_slot (ts_shared g) \<Longrightarrow> slot_inv (cancel_at x xpc s' g)"
  by (simp_all add: slot_inv_def task_at_defs)

lemma slot_inv_step: "turn_step g g' \<Longrightarrow> slot_inv g \<Longrightarrow> slot_inv g'"
proof (induction rule: turn_step.induct)
  case (begin_claim g t sig s')
  then show ?case
    by (intro slot_inv_take) (auto simp: controller_begin_def Let_def split: option.splits)
next
  case (begin_busy g t e s')
  then show ?case
    by (intro slot_inv_keep) (auto simp: controller_begin_def Let_def split: option.splits)
next
  case (backout g t sig)
  then show ?case by (intro slot_inv_give) simp_all
next
  case (release g t sig)
  then show ?case by (intro slot_inv_give) simp_all
next
  case (clear_acquire g c u s')
  then show ?case by (intro slot_inv_elsewhere) (auto simp: permit_acquire_def split: if_splits)
next
  case (cancel_claim g x sig already won s')
  then show ?case by (intro slot_inv_elsewhere) (auto simp: claim_def split: if_splits)
qed (auto intro!: slot_inv_keep slot_inv_elsewhere simp: emit_status_def mark_completed_def claim_def permit_drop_def)

lemma permit_inv_step: "turn_step g g' \<Longrightarrow> permit_inv g \<Longrightarrow> permit_inv g'"
  by (induction rule: turn_step.induct)
    (auto simp: permit_inv_def task_at_defs turn_op_defs Let_def split: option.splits if_splits)

lemma executing_holds: "slot_inv g \<Longrightarrow> executing (ts_turns g t) \<Longrightarrow> is_active (ts_shared g)"
  using slot_invD executing_signal by (fastforce simp: is_active_def)

lemma exclusion_step:
  assumes "turn_step g g'" and "slot_inv g" and "permit_inv g" and "exclusion g"
  shows "exclusion g'"
proof -
  have free: "\<not> executing (ts_turns g t)" if "\<not> is_active (ts_shared g)" for t
    using executing_holds [OF assms(2)] that by blast
  have quiet: "ts_clears g c \<noteq> C_Mutating" if "\<not> sh_mutation (ts_shared g)" for c
    using assms(3) that by (auto simp: permit_inv_def)
  have turn: "exclusion (turn_at t pc s' g)"
    if "executing pc \<Longrightarrow> executing (ts_turns g t) \<or> \<not> sh_mutation (ts_shared g)" for t pc s'
    using assms(4) that quiet by (fastforce simp: exclusion_def task_at_defs)
  have clear: "exclusion (clear_at c pc s' g)"
    if "pc = C_Mutating \<Longrightarrow> \<not> is_active (ts_shared g)" for c pc s'
    using assms(4) that free by (fastforce simp: exclusion_def task_at_defs)
  have cancel: "exclusion (cancel_at x pc s' g)" for x pc s'
    using assms(4) by (simp add: exclusion_def task_at_defs)
  from assms(1) show ?thesis by cases (auto intro!: turn clear cancel)
qed

lemma claim_keeps_cancelled:
  "claim sig outcome s = (won, s') \<Longrightarrow> is_cancelled i s \<Longrightarrow> is_cancelled i s'"
  by (auto simp: claim_def is_cancelled_def split: if_splits)

lemma ending_inv_step:
  assumes "turn_step g g'" and "slot_inv g" and "ending_inv g"
  shows "ending_inv g'"
proof -
  have turn: "ending_inv (turn_at t pc s' g)"
    if "\<And>i. is_cancelled i (ts_shared g) \<Longrightarrow> is_cancelled i s'"
      and "\<And>sig st. pc = T_Ending sig st \<Longrightarrow> st = Idle \<or> st = Cancelled \<and> is_cancelled sig s'" for t pc s'
    using assms(3) that unfolding ending_inv_def task_at_defs by simp metis
  have elsewhere: "ending_inv (clear_at c cpc s' g)" "ending_inv (cancel_at x xpc s' g)"
    if "\<And>i. is_cancelled i (ts_shared g) \<Longrightarrow> is_cancelled i s'" for c cpc x xpc s'
    using assms(3) that unfolding ending_inv_def task_at_defs by (simp, metis)+
  from assms(1) show ?thesis
  proof cases
    case (begin_claim t sig s')
    then have "sh_slot (ts_shared g) = None" by (auto simp: controller_begin_def Let_def split: option.splits)
    then have "ts_turns g u \<noteq> T_Ending i st" for u i st
      using slot_inv_free [OF assms(2), of u] by auto
    then show ?thesis using begin_claim by (simp add: ending_inv_def task_at_defs)
  next
    case (complete t sig)
    then show ?thesis
      using claim_keeps_cancelled [of sig signal_completed "ts_shared g"]
      by (auto intro!: turn simp: mark_completed_def simp del: signal_codes) (metis prod.collapse)
  next
    case (cancel_claim x sig already won s')
    then show ?thesis using claim_keeps_cancelled by (auto intro!: elsewhere)
  qed (auto intro!: turn elsewhere simp: terminal_status_def,
       auto simp: is_cancelled_def turn_op_defs Let_def split: option.splits if_splits)
qed

lemma trace_inv_step:
  assumes "turn_step g g'" and "slot_inv g" and "ending_inv g" and "trace_inv g"
  shows "trace_inv g'"
proof -
  have alone: "\<not> announced (ts_turns g u)" if "turn_signal (ts_turns g t) \<noteq> None" "u \<noteq> t" for t u
    using slot_inv_other [OF assms(2) that] announced_signal by blast
  have keep: "trace_inv (turn_at t pc s' g)"
    if "announced pc = announced (ts_turns g t)" "sh_trace s' = sh_trace (ts_shared g)" for t pc s'
  proof -
    have "(\<exists>u. announced (((ts_turns g)(t := pc)) u)) = (\<exists>u. announced (ts_turns g u))"
      using that(1) by (metis fun_upd_apply)
    with assms(4) that(2) show ?thesis by (simp add: trace_inv_def task_at_defs)
  qed
  have clear: "trace_inv (clear_at c cpc s' g)" if "sh_trace s' = sh_trace (ts_shared g)" for c cpc s'
    using assms(4) that by (simp add: trace_inv_def task_at_defs)
  have cancel: "trace_inv (cancel_at x xpc s' g)"
    if "turn_open (sh_trace s') = turn_open (sh_trace (ts_shared g))" for x xpc s'
    using assms(4) that by (simp add: trace_inv_def task_at_defs)
  from assms(1) show ?thesis
  proof cases
    case (begin_run t sig)
    have "\<not> announced (ts_turns g u)" for u
      using alone [of t u] begin_run by (cases "u = t") auto
    then have "turn_open (sh_trace (ts_shared g)) = Some False" using assms(4) by (simp add: trace_inv_def)
    then show ?thesis
      unfolding begin_run trace_inv_def by (auto simp: task_at_defs emit_status_def)
  next
    case (finish t sig st)
    have "st = Idle \<or> st = Cancelled" using assms(3) finish by (auto simp: ending_inv_def)
    moreover have "turn_open (sh_trace (ts_shared g)) = Some True"
      using assms(4) finish by (auto simp: trace_inv_def intro: exI [of _ t])
    moreover have "\<not> announced (ts_turns g u)" if "u \<noteq> t" for u
      using alone [of t u] finish that by simp
    ultimately show ?thesis
      unfolding finish(1) trace_inv_def by (auto simp: task_at_defs emit_status_def)
  qed (auto intro!: keep clear cancel simp: controller_begin_def active_turn_drop_def emit_status_def
      mark_completed_def claim_def permit_acquire_def permit_drop_def Let_def split: option.splits if_splits)
qed

definition turn_inv :: "turn_state \<Rightarrow> bool" where
  "turn_inv g \<longleftrightarrow> slot_inv g \<and> permit_inv g \<and> exclusion g \<and> ending_inv g \<and> trace_inv g"

lemma turn_inv_start: "turn_inv turn_start"
  by (simp add: turn_inv_def slot_inv_def permit_inv_def exclusion_def ending_inv_def trace_inv_def
      turn_start_def turn_open_def)

lemma turn_inv_reachable:
  assumes "reachable g"
  shows "turn_inv g"
  using assms
proof (induction rule: rtranclp_induct)
  case base
  show ?case by (rule turn_inv_start)
next
  case (step g g')
  then show ?case
    unfolding turn_inv_def
    using slot_inv_step permit_inv_step exclusion_step ending_inv_step trace_inv_step by blast
qed

text \<open>Claims on one signal: the first one decides.\<close>

fun claims :: "signal \<Rightarrow> nat list \<Rightarrow> turn_shared \<Rightarrow> bool list \<times> turn_shared" where
  "claims sig [] s = ([], s)"
| "claims sig (out # outs) s =
     (let (won, s1) = claim sig out s; (rest, s2) = claims sig outs s1 in (won # rest, s2))"

lemma claims_decided:
  "sh_outcome s sig = out \<Longrightarrow> out \<noteq> signal_live \<Longrightarrow> claims sig outs s = (map (\<lambda>o'. o' = out) outs, s)"
  by (induction outs) (auto simp: claim_def simp del: signal_codes)

text \<open>A schedule is a list of steps: each given state is reached from the one before.\<close>

lemma reachable_step: "reachable g \<Longrightarrow> turn_step g g' \<Longrightarrow> reachable g'"
  by (rule rtranclp.rtrancl_into_rtrancl)

lemma reachable_running:
  "reachable (turn_at 0 (T_Running 0)
     ((ts_shared turn_start)\<lparr>sh_slot := Some 0, sh_next_signal := 1, sh_trace := [Running]\<rparr>) turn_start)"
proof -
  have 1: "reachable (turn_at 0 T_Checked (ts_shared turn_start) turn_start)"
    by (rule reachable_step [OF rtranclp.rtrancl_refl], rule begin_check) (simp_all add: turn_start_def)
  have 2: "reachable (turn_at 0 (T_Claimed 0)
      ((ts_shared turn_start)\<lparr>sh_slot := Some 0, sh_next_signal := 1\<rparr>) turn_start)"
    using reachable_step [OF 1 begin_claim [of _ 0 0 "(ts_shared turn_start)\<lparr>sh_slot := Some 0, sh_next_signal := 1\<rparr>"]]
    by (simp add: task_at_defs turn_start_def controller_begin_def fun_upd_idem)
  show ?thesis
    using reachable_step [OF 2 begin_run [of _ 0 0]]
    by (simp add: task_at_defs turn_start_def emit_status_def)
qed

lemma reachable_cancel_claimed:
  fixes x :: nat
  assumes "reachable g" and "ts_cancels g x = X_Read 0 False" and "sh_outcome (ts_shared g) 0 \<noteq> signal_completed"
    and "s' = (ts_shared g)\<lparr>sh_outcome := (sh_outcome (ts_shared g))(0 := signal_cancelled)\<rparr>"
    and "sh_outcome (ts_shared g) 0 \<in> {signal_live, signal_cancelled}"
  shows "reachable (cancel_at x (X_Won 0) s' g)"
proof -
  have "claim 0 signal_cancelled (ts_shared g) = (True, s')"
    using assms(4,5) by (auto simp: claim_def fun_upd_idem)
  from reachable_step [OF assms(1) cancel_claim [OF assms(2) this]] show ?thesis by simp
qed

lemma reachable_cancel_read:
  assumes "reachable g" and "ts_cancels g x = X_Idle" and "sh_slot (ts_shared g) = Some 0"
    and "\<not> is_cancelled 0 (ts_shared g)"
  shows "reachable (cancel_at x (X_Read 0 False) (ts_shared g) g)"
proof -
  have "reachable (cancel_at x (X_Signal 0) (ts_shared g) g)"
    by (rule reachable_step [OF assms(1) cancel_clone [OF assms(2,3)]])
  from reachable_step [OF this cancel_read [of _ x 0]] show ?thesis
    using assms(4) by (simp add: task_at_defs)
qed

section \<open>Properties\<close>

text \<open>
  Property C4. Turn execution and history mutation never overlap. In every state that the
  interleavings of any number of turn, clear and cancel tasks can reach, no turn executes while
  a clear is rewriting the history, at most one task owns the turn slot, and at most one clear
  holds the mutation permit.
\<close>

theorem turn_mutation_exclusion:
  assumes "reachable g"
  shows "\<not> (executing (ts_turns g t) \<and> ts_clears g c = C_Mutating)
    \<and> (turn_signal (ts_turns g t) \<noteq> None \<and> turn_signal (ts_turns g t') \<noteq> None \<longrightarrow> t = t')
    \<and> (ts_clears g c \<noteq> C_Idle \<and> ts_clears g c' \<noteq> C_Idle \<longrightarrow> c = c')"
  using turn_inv_reachable [OF assms] unfolding turn_inv_def exclusion_def slot_inv_def permit_inv_def by blast

theorem turn_mutation_exclusion_witness:
  "\<not> (executing (T_Running 0) \<and> C_Idle = C_Mutating)"
  using turn_mutation_exclusion [OF reachable_running, of 0 0 0 0] by (simp add: task_at_defs turn_start_def)



text \<open>
  Observation. Completion and cancellation race for one claim and exactly one wins: whatever
  claims arrive on a live signal, the outcome is the first one and a claim reports success
  exactly when it names that outcome.
\<close>

theorem first_claim_wins:
  assumes "sh_outcome s sig = signal_live" and "out \<noteq> signal_live"
  shows "fst (claims sig (out # outs) s) = map (\<lambda>o'. o' = out) (out # outs)
    \<and> sh_outcome (snd (claims sig (out # outs) s)) sig = out"
proof -
  let ?s = "s\<lparr>sh_outcome := (sh_outcome s)(sig := out)\<rparr>"
  have "claim sig out s = (True, ?s)" using assms(1) by (simp add: claim_def)
  moreover have "claims sig outs ?s = (map (\<lambda>o'. o' = out) outs, ?s)"
    by (rule claims_decided) (use assms(2) in simp_all)
  ultimately show ?thesis by simp
qed

theorem first_claim_wins_witness:
  "fst (claims 0 [signal_completed, signal_cancelled] (ts_shared turn_start)) = [True, False]"
  using first_claim_wins [of "ts_shared turn_start" 0 signal_completed "[signal_cancelled]"]
  by (simp add: turn_start_def)

text \<open>
  Observation. A cancellation on its own behaves as documented: it is refused without an
  active turn or after completion has been claimed, the first one publishes \<open>Cancelling\<close> once
  before notifying, and a repeated one succeeds without publishing again.
\<close>

theorem cancel_turn_sequential:
  "cancel_turn s =
     (case sh_slot s of
        None \<Rightarrow> (False, s)
      | Some sig \<Rightarrow>
          if sh_outcome s sig = signal_cancelled then (True, s\<lparr>sh_notified := (sh_notified s)(sig := True)\<rparr>)
          else if sh_outcome s sig \<noteq> signal_live then (False, s)
          else (True, s\<lparr>sh_outcome := (sh_outcome s)(sig := signal_cancelled),
                        sh_trace := sh_trace s @ [Cancelling],
                        sh_notified := (sh_notified s)(sig := True)\<rparr>))"
  by (simp add: cancel_turn_def cancel_with_def claim_def is_cancelled_def emit_status_def split: option.splits)

text \<open>
  Observation. Under interleaving the order that cancellation documents is not guaranteed. The
  claim is separate from the publication it authorises, so there are executions in which
  \<open>Cancelling\<close> follows the terminal status of its turn and the stream rests on it, and
  executions in which two concurrent cancellations publish it twice.
\<close>

theorem cancelling_can_be_late_or_repeated:
  "(\<exists>g. reachable g \<and> sh_trace (ts_shared g) = [Running, Cancelled, Cancelling] \<and> ts_turns g 0 = T_Idle)
   \<and> (\<exists>g. reachable g \<and> sh_trace (ts_shared g) = [Running, Cancelling, Cancelling])"
proof -
  let ?g0 = "turn_at 0 (T_Running 0)
     ((ts_shared turn_start)\<lparr>sh_slot := Some 0, sh_next_signal := 1, sh_trace := [Running]\<rparr>) turn_start"
  let ?won = "\<lambda>g. (ts_shared g)\<lparr>sh_outcome := (sh_outcome (ts_shared g))(0 := signal_cancelled)\<rparr>"
  let ?g1 = "cancel_at 0 (X_Read 0 False) (ts_shared ?g0) ?g0"
  let ?g2 = "cancel_at 0 (X_Won 0) (?won ?g1) ?g1"
  note simps = task_at_defs turn_start_def emit_status_def active_turn_drop_def is_cancelled_def terminal_status_def
  have g1: "reachable ?g1"
    by (rule reachable_cancel_read [OF reachable_running]) (simp_all add: simps)
  have g2: "reachable ?g2"
    by (rule reachable_cancel_claimed [OF g1]) (simp_all add: simps)
  have e1: "reachable (turn_at 0 (T_Ending 0 Cancelled) (ts_shared ?g2) ?g2)" (is "reachable ?g3")
    using reachable_step [OF g2 decide [of _ 0 0]] by (simp add: simps)
  have e2: "reachable (turn_at 0 (T_Ended 0) (emit_status Cancelled (ts_shared ?g3)) ?g3)" (is "reachable ?g4")
    by (rule reachable_step [OF e1], rule finish) (simp add: simps)
  have e3: "reachable (turn_at 0 T_Idle (active_turn_drop 0 (ts_shared ?g4)) ?g4)" (is "reachable ?g5")
    by (rule reachable_step [OF e2], rule release) (simp add: simps)
  have e4: "reachable (cancel_at 0 (X_Notify 0) (emit_status Cancelling (ts_shared ?g5)) ?g5)" (is "reachable ?g6")
    by (rule reachable_step [OF e3], rule cancel_emit) (simp add: simps)
  have late: "sh_trace (ts_shared ?g6) = [Running, Cancelled, Cancelling] \<and> ts_turns ?g6 0 = T_Idle"
    by (simp add: simps)
  let ?h1 = "cancel_at 1 (X_Read 0 False) (ts_shared ?g1) ?g1"
  let ?h2 = "cancel_at 0 (X_Won 0) (?won ?h1) ?h1"
  let ?h3 = "cancel_at 1 (X_Won 0) (?won ?h2) ?h2"
  let ?h4 = "cancel_at 0 (X_Notify 0) (emit_status Cancelling (ts_shared ?h3)) ?h3"
  let ?h5 = "cancel_at 1 (X_Notify 0) (emit_status Cancelling (ts_shared ?h4)) ?h4"
  have h1: "reachable ?h1" by (rule reachable_cancel_read [OF g1]) (simp_all add: simps)
  have h2: "reachable ?h2" by (rule reachable_cancel_claimed [OF h1]) (simp_all add: simps)
  have h3: "reachable ?h3" by (rule reachable_cancel_claimed [OF h2]) (simp_all add: simps)
  have h4: "reachable ?h4" by (rule reachable_step [OF h3], rule cancel_emit) (simp add: simps)
  have h5: "reachable ?h5" by (rule reachable_step [OF h4], rule cancel_emit) (simp add: simps)
  have "sh_trace (ts_shared ?h5) = [Running, Cancelling, Cancelling]" by (simp add: simps)
  with e4 late h5 show ?thesis by blast
qed

end
