(* ===== verification/Providers.thy ===== *)
theory Providers
  imports Text_Lib
begin

text \<open>
  The provider-neutral vocabulary (src/src/providers/mod.rs), the multi-provider router
  (src/src/providers/router.rs) and the pure helpers of the generation loop that deal with
  failover and usage (src/src/agent.rs). JSON values are carried as their text; prices, which
  are floating-point numbers used for display only, are left out of the usage record.
\<close>

type_synonym json = string

datatype role = RoleUser | RoleAssistant

datatype content_block =
    Text string
  | Image string string "string option"
  | Thinking string
  | ProviderState string json
  | ToolCall string string json
  | ToolResult string string bool

record message =
  msg_role :: role
  msg_content :: "content_block list"

definition message_user :: "string \<Rightarrow> message" where
  "message_user text = \<lparr>msg_role = RoleUser, msg_content = [Text text]\<rparr>"

definition message_assistant :: "string \<Rightarrow> message" where
  "message_assistant text = \<lparr>msg_role = RoleAssistant, msg_content = [Text text]\<rparr>"

record usage =
  us_input :: nat
  us_output :: nat
  us_reasoning :: "nat option"
  us_thinking_bytes :: nat
  us_cache_read :: nat
  us_cache_write :: nat

definition usage_default :: usage where
  "usage_default = \<lparr>us_input = 0, us_output = 0, us_reasoning = None, us_thinking_bytes = 0,
     us_cache_read = 0, us_cache_write = 0\<rparr>"

definition prompt_tokens :: "usage \<Rightarrow> nat" where
  "prompt_tokens u = us_input u + us_cache_read u + us_cache_write u"

definition accumulate_usage :: "usage \<Rightarrow> usage \<Rightarrow> usage" where
  "accumulate_usage acc turn =
     \<lparr>us_input = us_input acc + us_input turn, us_output = us_output acc + us_output turn,
      us_reasoning = (case (us_reasoning acc, us_reasoning turn) of
          (None, None) \<Rightarrow> None
        | (l, r) \<Rightarrow> Some (case_option 0 id l + case_option 0 id r)),
      us_thinking_bytes = saturating_add (us_thinking_bytes acc) (us_thinking_bytes turn),
      us_cache_read = us_cache_read acc + us_cache_read turn,
      us_cache_write = us_cache_write acc + us_cache_write turn\<rparr>"

datatype stop_reason = EndTurn | ToolUse | StopError | Refusal | Aborted | MaxTokens

fun stop_reason_str :: "stop_reason \<Rightarrow> string" where
  "stop_reason_str EndTurn = ''end_turn''"
| "stop_reason_str ToolUse = ''tool_use''"
| "stop_reason_str StopError = ''error''"
| "stop_reason_str Refusal = ''refusal''"
| "stop_reason_str Aborted = ''aborted''"
| "stop_reason_str MaxTokens = ''max_tokens''"

datatype thinking_level = TOff | TMinimal | TLow | TMedium | THigh | TXHigh | TMax

fun thinking_str :: "thinking_level \<Rightarrow> string" where
  "thinking_str TOff = ''off''"
| "thinking_str TMinimal = ''minimal''"
| "thinking_str TLow = ''low''"
| "thinking_str TMedium = ''medium''"
| "thinking_str THigh = ''high''"
| "thinking_str TXHigh = ''xhigh''"
| "thinking_str TMax = ''max''"

definition all_levels :: "thinking_level list" where
  "all_levels = [TOff, TMinimal, TLow, TMedium, THigh, TXHigh, TMax]"

definition thinking_from_input :: "string \<Rightarrow> string + thinking_level" where
  "thinking_from_input raw =
     (let trimmed = trim raw; normalized = to_ascii_lowercase trimmed in
      case List.find (\<lambda>l. thinking_str l = normalized) all_levels of
        Some l \<Rightarrow> Inr l
      | None \<Rightarrow> Inl ([CHR 0x27] @ trimmed @ [CHR 0x27] @ '' invalid (valid: '' @
                  concat (thinking_str TOff # map (\<lambda>l. '', '' @ thinking_str l) (tl all_levels)) @ '')''))"

record llm_response =
  lr_content :: "content_block list"
  lr_stop_reason :: stop_reason
  lr_error_message :: "string option"
  lr_context_overflow :: bool
  lr_retryable :: bool
  lr_usage :: usage

definition response_error :: "string \<Rightarrow> llm_response" where
  "response_error msg = \<lparr>lr_content = [], lr_stop_reason = StopError, lr_error_message = Some msg,
     lr_context_overflow = False, lr_retryable = False, lr_usage = usage_default\<rparr>"

definition context_overflow_error :: "string \<Rightarrow> llm_response" where
  "context_overflow_error msg = (response_error msg)\<lparr>lr_context_overflow := True\<rparr>"

definition retryable_error :: "string \<Rightarrow> llm_response" where
  "retryable_error msg = (response_error msg)\<lparr>lr_retryable := True\<rparr>"

definition missing_structured_tool_call :: string where
  "missing_structured_tool_call = ''provider declared tool use but returned no structured tool call''"

fun is_tool_call :: "content_block \<Rightarrow> bool" where
  "is_tool_call (ToolCall _ _ _) = True"
| "is_tool_call _ = False"

definition tool_use_missing_structured_call :: "llm_response \<Rightarrow> bool" where
  "tool_use_missing_structured_call r \<longleftrightarrow>
     lr_stop_reason r = ToolUse \<and> \<not> list_ex is_tool_call (lr_content r)"

definition validate_response_shape :: "llm_response \<Rightarrow> llm_response" where
  "validate_response_shape r =
     (if tool_use_missing_structured_call r then
        r\<lparr>lr_content := [], lr_stop_reason := StopError,
          lr_error_message := Some (case lr_error_message r of Some m \<Rightarrow> m | None \<Rightarrow> missing_structured_tool_call),
          lr_context_overflow := False, lr_retryable := False\<rparr>
      else r)"

definition is_retryable_status :: "nat \<Rightarrow> bool" where
  "is_retryable_status status \<longleftrightarrow> status = 408 \<or> status = 429 \<or> (500 \<le> status \<and> status < 600)"

datatype stream_error = StreamUtf8 | StreamParser | StreamTransport

definition stream_error_response :: "string \<Rightarrow> stream_error \<Rightarrow> string \<Rightarrow> llm_response" where
  "stream_error_response label e shown =
     (let message = label @ '': '' @ shown in
      case e of StreamTransport \<Rightarrow> retryable_error message | _ \<Rightarrow> response_error message)"

definition default_max_tokens :: nat where "default_max_tokens = 8192"

definition resolve_max_output_inner :: "nat \<Rightarrow> nat option \<Rightarrow> nat option \<Rightarrow> nat option \<Rightarrow> nat" where
  "resolve_max_output_inner requested model_default hard_cap env_override =
     (let base = (if requested = default_max_tokens
                  then (case env_override of Some v \<Rightarrow> v
                        | None \<Rightarrow> (case model_default of Some v \<Rightarrow> v | None \<Rightarrow> requested))
                  else requested)
      in case hard_cap of Some cap \<Rightarrow> min base cap | None \<Rightarrow> base)"

section \<open>Routing between providers\<close>

text \<open>
  \<open>catalogs\<close> has, per adapter, what its \<open>list_models\<close> returned in time (\<open>None\<close> for a failure or a
  timeout). An adapter is an opaque value.
\<close>

record routes =
  rs_table :: "(string \<times> nat) list"
  rs_catalogs :: "string list list"

definition add_catalog :: "nat \<Rightarrow> string list option \<Rightarrow> routes \<Rightarrow> routes" where
  "add_catalog index fetched rs =
     (case fetched of
        None \<Rightarrow> rs\<lparr>rs_catalogs := rs_catalogs rs @ [[]]\<rparr>
      | Some catalog \<Rightarrow>
          rs\<lparr>rs_table := fold (\<lambda>slug t. if slug \<in> fst ` set t then t else t @ [(slug, index)]) catalog (rs_table rs),
             rs_catalogs := rs_catalogs rs @ [catalog]\<rparr>)"

definition build_routes :: "string list option list \<Rightarrow> routes" where
  "build_routes catalogs =
     fold (\<lambda>(index, fetched) rs. add_catalog index fetched rs) (List.enumerate 0 catalogs)
       \<lparr>rs_table = [], rs_catalogs = []\<rparr>"

definition route :: "(string \<times> 'a) list \<Rightarrow> string list option list \<Rightarrow> string \<Rightarrow> 'a \<times> string" where
  "route adapters catalogs model =
     (case (case split_once (CHR '':'') model of
              Some (pre, slug) \<Rightarrow>
                map_option (\<lambda>(name, adapter). (adapter, slug)) (List.find (\<lambda>(name, _). name = pre) adapters)
            | None \<Rightarrow> None) of
        Some routed \<Rightarrow> routed
      | None \<Rightarrow>
          (case map_of (rs_table (build_routes catalogs)) model of
             Some index \<Rightarrow> (snd (adapters ! index), model)
           | None \<Rightarrow> (snd (adapters ! 0), model)))"

definition list_models :: "string list option list \<Rightarrow> string list option" where
  "list_models catalogs =
     (let rs = build_routes catalogs in
      if rs_table rs = [] then None
      else Some (fold (\<lambda>slug merged. if slug \<in> set merged then merged else merged @ [slug])
                   (concat (rs_catalogs rs)) []))"

section \<open>Failover and back-off\<close>

fun next_failover_model :: "string list \<Rightarrow> string \<Rightarrow> string option" where
  "next_failover_model [] active = None"
| "next_failover_model (m # ms) active =
     (if m = active then (case ms of [] \<Rightarrow> None | n # _ \<Rightarrow> Some n) else next_failover_model ms active)"

text \<open>\<open>Duration::saturating_mul\<close>; a duration is a number of nanoseconds, below \<open>duration_max\<close>.\<close>

definition duration_max :: nat where "duration_max = u64_max * 1000000000 + 999999999"

definition retry_backoff :: "nat \<Rightarrow> nat \<Rightarrow> nat" where
  "retry_backoff base attempt = min (base * 2 ^ min (attempt - 1) 6) duration_max"

section \<open>Routing lemmas\<close>

text \<open>The reference: the first adapter, in order, whose catalog lists the model.\<close>

definition catalog_of :: "string list option \<Rightarrow> string list" where
  "catalog_of fetched = (case fetched of None \<Rightarrow> [] | Some catalog \<Rightarrow> catalog)"

fun first_listing :: "nat \<Rightarrow> string list option list \<Rightarrow> string \<Rightarrow> nat option" where
  "first_listing k [] m = None"
| "first_listing k (c # cs) m = (if m \<in> set (catalog_of c) then Some k else first_listing (Suc k) cs m)"

lemma table_catalog:
  "map_of (fold (\<lambda>slug t. if slug \<in> fst ` set t then t else t @ [(slug, i)]) catalog t) m =
     (case map_of t m of Some j \<Rightarrow> Some j | None \<Rightarrow> if m \<in> set catalog then Some i else None)"
proof (induction catalog arbitrary: t)
  case Nil
  show ?case by (simp split: option.splits)
next
  case (Cons slug catalog)
  have "map_of (t @ [(slug, i)]) m = (case map_of t m of Some j \<Rightarrow> Some j | None \<Rightarrow> if m = slug then Some i else None)"
    by (auto simp: map_of_append map_add_def split: option.splits)
  moreover have "slug \<in> fst ` set t \<longleftrightarrow> map_of t slug \<noteq> None" by (simp add: map_of_eq_None_iff)
  ultimately show ?case using Cons by (auto split: option.splits)
qed

lemma table_add_catalog:
  "map_of (rs_table (add_catalog i fetched rs)) m =
     (case map_of (rs_table rs) m of Some j \<Rightarrow> Some j | None \<Rightarrow> if m \<in> set (catalog_of fetched) then Some i else None)"
  by (auto simp: add_catalog_def catalog_of_def table_catalog split: option.splits)

lemma table_routes:
  "map_of (rs_table (fold (\<lambda>(index, fetched) rs. add_catalog index fetched rs) (List.enumerate k cs) rs)) m =
     (case map_of (rs_table rs) m of Some j \<Rightarrow> Some j | None \<Rightarrow> first_listing k cs m)"
  by (induction cs arbitrary: k rs) (auto simp: table_add_catalog split: option.splits)

lemma build_routes_table: "map_of (rs_table (build_routes cs)) m = first_listing 0 cs m"
  by (simp add: build_routes_def table_routes)

lemma first_listing_bound: "first_listing k cs m = Some i \<Longrightarrow> k \<le> i \<and> i < k + length cs"
  by (induction cs arbitrary: k) (fastforce split: if_splits)+

lemma first_listing_None: "first_listing k cs m = None \<longleftrightarrow> (\<forall>c \<in> set cs. m \<notin> set (catalog_of c))"
  by (induction cs arbitrary: k) auto

lemma rs_catalogs_fold:
  "rs_catalogs (fold (\<lambda>(index, fetched) rs. add_catalog index fetched rs) (List.enumerate k cs) rs) =
     rs_catalogs rs @ map catalog_of cs"
  by (induction cs arbitrary: k rs) (auto simp: add_catalog_def catalog_of_def split: option.splits)

lemma build_routes_catalogs: "rs_catalogs (build_routes cs) = map catalog_of cs"
  by (simp add: build_routes_def rs_catalogs_fold)

lemma merge_first_wins:
  "distinct acc \<Longrightarrow> distinct (fold (\<lambda>x merged. if x \<in> set merged then merged else merged @ [x]) xs acc)
     \<and> set (fold (\<lambda>x merged. if x \<in> set merged then merged else merged @ [x]) xs acc) = set acc \<union> set xs"
  by (induction xs arbitrary: acc) auto

section \<open>Failover lemmas\<close>

text \<open>The models tried in turn after \<open>active\<close>, at most \<open>n\<close> of them.\<close>

fun failovers :: "nat \<Rightarrow> string list \<Rightarrow> string \<Rightarrow> string list" where
  "failovers 0 chain active = []"
| "failovers (Suc n) chain active =
     (case next_failover_model chain active of None \<Rightarrow> [] | Some m \<Rightarrow> m # failovers n chain m)"

lemma next_failover_split:
  "active \<notin> set pre \<Longrightarrow>
     next_failover_model (pre @ active # post) active = (case post of [] \<Rightarrow> None | m # _ \<Rightarrow> Some m)"
  by (induction pre) auto

lemma failovers_suffix:
  "distinct (pre @ active # post) \<Longrightarrow> failovers n (pre @ active # post) active = take n post"
proof (induction n arbitrary: pre active post)
  case (Suc n)
  show ?case
  proof (cases post)
    case Nil
    with Suc.prems show ?thesis by (simp add: next_failover_split)
  next
    case (Cons m ms)
    have "failovers n ((pre @ [active]) @ m # ms) m = take n ms"
      using Suc.prems Cons by (intro Suc.IH) simp
    with Suc.prems Cons show ?thesis by (simp add: next_failover_split)
  qed
qed simp

section \<open>Properties\<close>

text \<open>
  Observation. Models are routed by the documented rules: an explicit prefix that names an
  adapter wins and is stripped, otherwise the first adapter in order whose catalog lists the
  model, otherwise the primary; and the merged catalog lists each available model once, so every
  model offered without such a prefix is served by the first adapter that lists it.
\<close>

theorem route_rules:
  assumes "adapters \<noteq> []" and "length catalogs = length adapters"
  shows "(CHR '':'' \<notin> set name \<and> List.find (\<lambda>(n, _). n = name) adapters = Some (name, a) \<longrightarrow>
         route adapters catalogs (name @ CHR '':'' # slug) = (a, slug))
    \<and> ((\<forall>name \<in> fst ` set adapters. \<not> (\<exists>slug. model = name @ CHR '':'' # slug)) \<longrightarrow>
        (case first_listing 0 catalogs model of
           Some i \<Rightarrow> i < length adapters \<and> route adapters catalogs model = (snd (adapters ! i), model)
         | None \<Rightarrow> route adapters catalogs model = (snd (adapters ! 0), model)))
    \<and> (\<forall>models. list_models catalogs = Some models \<longrightarrow>
        distinct models \<and> (\<forall>m. m \<in> set models \<longleftrightarrow> first_listing 0 catalogs m \<noteq> None))"
proof (intro conjI impI allI)
  assume "CHR '':'' \<notin> set name \<and> List.find (\<lambda>(n, _). n = name) adapters = Some (name, a)"
  then show "route adapters catalogs (name @ CHR '':'' # slug) = (a, slug)"
    by (simp add: route_def split_once_append)
next
  assume free: "\<forall>name \<in> fst ` set adapters. \<not> (\<exists>slug. model = name @ CHR '':'' # slug)"
  have "List.find (\<lambda>(n, _). n = pre) adapters = None" if "split_once (CHR '':'') model = Some (pre, slug)" for pre slug
    using free split_once_Some [OF that] by (auto simp: find_None_iff)
  then have "route adapters catalogs model =
      (case first_listing 0 catalogs model of Some i \<Rightarrow> (snd (adapters ! i), model) | None \<Rightarrow> (snd (adapters ! 0), model))"
    by (auto simp: route_def build_routes_table split: option.splits)
  then show "case first_listing 0 catalogs model of
      Some i \<Rightarrow> i < length adapters \<and> route adapters catalogs model = (snd (adapters ! i), model)
    | None \<Rightarrow> route adapters catalogs model = (snd (adapters ! 0), model)"
    using first_listing_bound [of 0 catalogs model] assms(2) by (auto split: option.splits)
next
  fix models
  assume "list_models catalogs = Some models"
  then have models: "models = fold (\<lambda>slug merged. if slug \<in> set merged then merged else merged @ [slug])
      (concat (map catalog_of catalogs)) []"
    by (auto simp: list_models_def Let_def build_routes_catalogs split: if_splits)
  show "distinct models" using merge_first_wins [of "[]" "concat (map catalog_of catalogs)"] by (simp add: models)
  fix m
  show "m \<in> set models \<longleftrightarrow> first_listing 0 catalogs m \<noteq> None"
    using merge_first_wins [of "[]" "concat (map catalog_of catalogs)"]
    unfolding models first_listing_None by auto
qed

text \<open>
  Observation. Failover moves along the chain and stops: from a model of a chain without
  duplicates the models tried are exactly the later ones, each once and in order, and the wait
  before a retry never exceeds 64 times the base and never shrinks from one attempt to the next.
\<close>

theorem failover_terminates:
  assumes "distinct (pre @ active # post)"
  shows "failovers (length post + k) (pre @ active # post) active = post
    \<and> next_failover_model (pre @ active # post) (last (active # post)) = None
    \<and> retry_backoff base attempt \<le> 64 * base \<and> retry_backoff base attempt \<le> retry_backoff base (Suc attempt)"
proof (intro conjI)
  show "failovers (length post + k) (pre @ active # post) active = post"
    using failovers_suffix [OF assms] by simp
  have split: "pre @ active # post = (pre @ butlast (active # post)) @ last (active # post) # []"
    by (simp add: append_butlast_last_id)
  have "last (active # post) \<notin> set (pre @ butlast (active # post))"
    using assms by (subst (asm) split) simp
  then show "next_failover_model (pre @ active # post) (last (active # post)) = None"
    by (subst split, subst next_failover_split) simp_all
  have "(2::nat) ^ min (attempt - 1) 6 \<le> 2 ^ 6" by (rule power_increasing) simp_all
  then show "retry_backoff base attempt \<le> 64 * base" by (simp add: retry_backoff_def min.coboundedI1)
  have "(2::nat) ^ min (attempt - 1) 6 \<le> 2 ^ min (Suc attempt - 1) 6" by (rule power_increasing) auto
  then show "retry_backoff base attempt \<le> retry_backoff base (Suc attempt)"
    unfolding retry_backoff_def by (intro min.mono mult_le_mono) simp_all
qed

theorem failover_terminates_witness:
  "failovers 5 [''a'', ''b'', ''c''] ''a'' = [''b'', ''c'']"
  using failover_terminates [of "[]" "''a''" "[''b'', ''c'']" 3] by simp

theorem route_rules_witness:
  "route [(''x'', 1::nat), (''y'', 2)] [None, Some [''m'']] ''m'' = (2, ''m'')"
  using route_rules [of "[(''x'', 1::nat), (''y'', 2)]" "[None, Some [''m'']]" _ _ _ "''m''"]
  by (simp add: catalog_of_def)

text \<open>
  Observation. A response never enters the history as a tool use without a tool call: after
  validation a stop for tool use has a structured call, a malformed one has become a final error
  with no content, and everything else, the usage always included, is unchanged.
\<close>

theorem validate_response_shape_correct:
  "\<not> tool_use_missing_structured_call (validate_response_shape r)
   \<and> lr_usage (validate_response_shape r) = lr_usage r
   \<and> validate_response_shape (validate_response_shape r) = validate_response_shape r
   \<and> (if tool_use_missing_structured_call r
      then lr_content (validate_response_shape r) = [] \<and> lr_stop_reason (validate_response_shape r) = StopError
         \<and> lr_error_message (validate_response_shape r) \<noteq> None \<and> \<not> lr_retryable (validate_response_shape r)
      else validate_response_shape r = r)"
  by (simp add: validate_response_shape_def tool_use_missing_structured_call_def)

end
