(* ===== verification/Session_Store.thy ===== *)
theory Session_Store
  imports Protocol Providers "HOL-Library.AList" "HOL-Library.Product_Lexorder"
begin

text \<open>
  The session store (src/src/session_store.rs): the two SQLite tables as association lists keyed
  by session id, and every operation as the transaction it runs. Transactions are immediate, so
  an operation is atomic. JSON encoding, clocks and the random writer epochs are arguments; a
  database or file-system fault is the flag \<open>db_available\<close>, and integers beyond 63 bits are
  refused as SQLite refuses them.
\<close>

record persisted_session =
  ps_version :: nat
  ps_generation :: nat
  ps_session_id :: string
  ps_model :: string
  ps_thinking :: "string option"
  ps_cwd :: "string option"
  ps_client_ids :: "string list"
  ps_outcomes :: "assistant_outcome list"
  ps_messages :: "message list"

datatype store_error =
    UnsafeId | AlreadyExists | WriterChanged nat "nat option" | NotFound
  | FutureVersion nat nat | UnsupportedVersion nat nat | Corrupt | Database | StoreIo bool

datatype store_error_kind =
    K_UnsafeId | K_AlreadyExists | K_WriterChanged | K_NotFound | K_FutureVersion
  | K_UnsupportedVersion | K_Corrupt | K_Database | K_Permission | K_Io

fun error_kind :: "store_error \<Rightarrow> store_error_kind" where
  "error_kind UnsafeId = K_UnsafeId"
| "error_kind AlreadyExists = K_AlreadyExists"
| "error_kind (WriterChanged _ _) = K_WriterChanged"
| "error_kind NotFound = K_NotFound"
| "error_kind (FutureVersion _ _) = K_FutureVersion"
| "error_kind (UnsupportedVersion _ _) = K_UnsupportedVersion"
| "error_kind Corrupt = K_Corrupt"
| "error_kind Database = K_Database"
| "error_kind (StoreIo permission_denied) = (if permission_denied then K_Permission else K_Io)"

record session_row =
  rw_version :: nat
  rw_generation :: nat
  rw_payload :: string
  rw_model :: string
  rw_cwd :: "string option"
  rw_count :: nat
  rw_preview :: "string option"
  rw_updated :: nat

record store =
  db_sessions :: "(string \<times> session_row) list"
  db_writers :: "(string \<times> string) list"
  db_schema :: int
  db_available :: bool

record session_writer =
  wr_session :: string
  wr_epoch :: string

record session_summary =
  sm_id :: string
  sm_model :: string
  sm_count :: nat
  sm_cwd :: "string option"
  sm_updated :: nat
  sm_first_user_line :: "string option"

datatype write_outcome = WroteSaved session_summary nat | WroteStale nat | WroteSuperseded

record summary_scan =
  sn_summaries :: "session_summary list"
  sn_next_cursor :: "string option"
  sn_complete :: bool

section \<open>Previews\<close>

definition floor_char_boundary :: "string \<Rightarrow> nat \<Rightarrow> nat" where
  "floor_char_boundary s limit = (if limit \<ge> length s then length s else floor_boundary s limit)"

fun preview_words :: "nat \<Rightarrow> string list \<Rightarrow> string \<Rightarrow> string" where
  "preview_words max_bytes [] preview = preview"
| "preview_words max_bytes (word # ws) preview =
     (let separator = (if preview = [] then 0 else 1); remaining = max_bytes - length preview in
      if remaining \<le> separator then preview
      else
        (let preview1 = (if separator = 1 then preview @ '' '' else preview);
             boundary = floor_char_boundary word (max_bytes - length preview1);
             preview2 = preview1 @ take boundary word
         in if boundary < length word then preview2 else preview_words max_bytes ws preview2))"

definition normalize_preview :: "string \<Rightarrow> nat \<Rightarrow> string option" where
  "normalize_preview line max_bytes =
     (let preview = preview_words max_bytes (split_whitespace line) [] in
      if preview = [] then None else Some preview)"

fun block_preview :: "nat \<Rightarrow> content_block \<Rightarrow> string option" where
  "block_preview max_bytes (Text text) =
     (case lines text of [] \<Rightarrow> None | line # _ \<Rightarrow> normalize_preview line max_bytes)"
| "block_preview max_bytes _ = None"

definition first_user_preview :: "message list \<Rightarrow> nat \<Rightarrow> string option" where
  "first_user_preview messages max_bytes =
     (if max_bytes = 0 then None
      else (case List.find (\<lambda>m. msg_role m = RoleUser) messages of
              None \<Rightarrow> None
            | Some m \<Rightarrow> find_map (block_preview max_bytes) (msg_content m)))"

section \<open>Records\<close>

definition session_persist_version :: nat where "session_persist_version = 1"
definition session_store_schema_version :: int where "session_store_schema_version = 1"

definition validate_persisted_session :: "persisted_session \<Rightarrow> store_error option" where
  "validate_persisted_session record =
     (if ps_version record > session_persist_version
      then Some (FutureVersion (ps_version record) session_persist_version)
      else if ps_version record \<noteq> session_persist_version
      then Some (UnsupportedVersion (ps_version record) session_persist_version)
      else None)"

definition decode_persisted_session ::
  "(string \<Rightarrow> persisted_session option) \<Rightarrow> string \<Rightarrow> store_error + persisted_session" where
  "decode_persisted_session dec bytes =
     (case dec bytes of
        None \<Rightarrow> Inl Corrupt
      | Some record \<Rightarrow>
          (case validate_persisted_session record of Some e \<Rightarrow> Inl e | None \<Rightarrow> Inr record))"

definition id_char :: "char \<Rightarrow> bool" where
  "id_char c = (let n = of_char c :: nat in
     48 \<le> n \<and> n \<le> 57 \<or> 65 \<le> n \<and> n \<le> 90 \<or> 97 \<le> n \<and> n \<le> 122 \<or> n = 45 \<or> n = 95)"

definition valid_id :: "string \<Rightarrow> bool" where
  "valid_id i \<longleftrightarrow> i \<noteq> [] \<and> list_all id_char i"

section \<open>Operations\<close>

text \<open>Opening the database: the schema is created when absent and its version checked.\<close>

definition connection :: "store \<Rightarrow> store_error option" where
  "connection st =
     (if \<not> db_available st then Some Database
      else if db_schema st > session_store_schema_version
      then Some (FutureVersion (nat (db_schema st)) (nat session_store_schema_version))
      else if db_schema st < session_store_schema_version
      then Some (UnsupportedVersion (nat (max (db_schema st) 0)) (nat session_store_schema_version))
      else None)"

definition stored_generation :: "store \<Rightarrow> string \<Rightarrow> nat option" where
  "stored_generation st i = map_option rw_generation (map_of (db_sessions st) i)"

definition active_epoch :: "store \<Rightarrow> string \<Rightarrow> string option" where
  "active_epoch st i = map_of (db_writers st) i"

definition claim_writer ::
  "string \<Rightarrow> string \<Rightarrow> nat option \<Rightarrow> store \<Rightarrow> (store_error + session_writer) \<times> store" where
  "claim_writer epoch session expected st =
     (if \<not> valid_id session then (Inl UnsafeId, st)
      else (case connection st of
        Some e \<Rightarrow> (Inl e, st)
      | None \<Rightarrow>
          (let found = stored_generation st session in
           case expected of
             Some g \<Rightarrow>
               if found \<noteq> Some g then (Inl (WriterChanged g found), st)
               else (Inr \<lparr>wr_session = session, wr_epoch = epoch\<rparr>,
                     st\<lparr>db_writers := AList.update session epoch (db_writers st)\<rparr>)
           | None \<Rightarrow>
               if found \<noteq> None then (Inl AlreadyExists, st)
               else (Inr \<lparr>wr_session = session, wr_epoch = epoch\<rparr>,
                     st\<lparr>db_writers := AList.update session epoch (db_writers st)\<rparr>))))"

definition row_of ::
  "persisted_session \<Rightarrow> string \<Rightarrow> string option \<Rightarrow> nat \<Rightarrow> session_row" where
  "row_of record payload preview now =
     \<lparr>rw_version = ps_version record, rw_generation = ps_generation record, rw_payload = payload,
      rw_model = ps_model record, rw_cwd = ps_cwd record, rw_count = length (ps_messages record),
      rw_preview = preview, rw_updated = now\<rparr>"

definition sqlite_max :: nat where "sqlite_max = 9223372036854775807"

definition write_row ::
  "(persisted_session \<Rightarrow> string option) \<Rightarrow> nat \<Rightarrow> persisted_session \<Rightarrow> nat
    \<Rightarrow> store \<Rightarrow> (store_error + write_outcome) \<times> store" where
  "write_row enc now record max_preview st =
     (case enc record of
        None \<Rightarrow> (Inl Corrupt, st)
      | Some payload \<Rightarrow>
          (let preview = first_user_preview (ps_messages record) max_preview in
           if ps_generation record > sqlite_max \<or> now > sqlite_max then (Inl Database, st)
           else (Inr (WroteSaved \<lparr>sm_id = ps_session_id record, sm_model = ps_model record,
                        sm_count = length (ps_messages record), sm_cwd = ps_cwd record,
                        sm_updated = now, sm_first_user_line = preview\<rparr> now),
                 st\<lparr>db_sessions := AList.update (ps_session_id record) (row_of record payload preview now)
                                     (db_sessions st)\<rparr>)))"

definition write_record ::
  "(persisted_session \<Rightarrow> string option) \<Rightarrow> nat \<Rightarrow> persisted_session \<Rightarrow> nat \<Rightarrow> nat option \<Rightarrow> session_writer option
    \<Rightarrow> store \<Rightarrow> (store_error + write_outcome) \<times> store" where
  "write_record enc now record max_preview requested writer st =
     (case connection st of
        Some e \<Rightarrow> (Inl e, st)
      | None \<Rightarrow>
          (let active = active_epoch st (ps_session_id record);
               epoch_matches = (case writer of Some w \<Rightarrow> active = Some (wr_epoch w) | None \<Rightarrow> active = None)
           in if \<not> epoch_matches then (Inr WroteSuperseded, st)
              else
                (let stored = stored_generation st (ps_session_id record);
                     generation = (case requested of Some g \<Rightarrow> g
                                   | None \<Rightarrow> saturating_add (case stored of Some g \<Rightarrow> g | None \<Rightarrow> 0) 1)
                 in case stored of
                      Some g \<Rightarrow>
                        if generation \<le> g then (Inr (WroteStale g), st)
                        else write_row enc now (record\<lparr>ps_generation := generation\<rparr>) max_preview st
                    | None \<Rightarrow> write_row enc now (record\<lparr>ps_generation := generation\<rparr>) max_preview st)))"

definition save_record_result ::
  "(persisted_session \<Rightarrow> string option) \<Rightarrow> nat \<Rightarrow> persisted_session \<Rightarrow> nat \<Rightarrow> nat option \<Rightarrow> session_writer option
    \<Rightarrow> store \<Rightarrow> (store_error + write_outcome) \<times> store" where
  "save_record_result enc now body max_preview generation writer st =
     (if \<not> valid_id (ps_session_id body) then (Inl (StoreIo False), st)
      else write_record enc now
             (body\<lparr>ps_version := session_persist_version,
                     ps_generation := (case generation of Some g \<Rightarrow> g | None \<Rightarrow> 0)\<rparr>)
             max_preview generation writer st)"

definition save_acp_generation_result ::
  "(persisted_session \<Rightarrow> string option) \<Rightarrow> nat \<Rightarrow> session_writer \<Rightarrow> nat \<Rightarrow> persisted_session \<Rightarrow> nat
    \<Rightarrow> store \<Rightarrow> (store_error + write_outcome) \<times> store" where
  "save_acp_generation_result enc now writer generation body max_preview st =
     save_record_result enc now (body\<lparr>ps_session_id := wr_session writer\<rparr>) max_preview
       (Some generation) (Some writer) st"

definition load_result ::
  "(string \<Rightarrow> persisted_session option) \<Rightarrow> string \<Rightarrow> store \<Rightarrow> store_error + persisted_session" where
  "load_result dec i st =
     (if \<not> valid_id i then Inl UnsafeId
      else (case connection st of
        Some e \<Rightarrow> Inl e
      | None \<Rightarrow>
          (case map_of (db_sessions st) i of
             None \<Rightarrow> Inl NotFound
           | Some row \<Rightarrow>
               (case decode_persisted_session dec (rw_payload row) of
                  Inl e \<Rightarrow> Inl e
                | Inr record \<Rightarrow>
                    if ps_session_id record \<noteq> i then Inl Database
                    else Inr (record\<lparr>ps_generation := rw_generation row\<rparr>)))))"

definition load :: "(string \<Rightarrow> persisted_session option) \<Rightarrow> string \<Rightarrow> store \<Rightarrow> persisted_session option" where
  "load dec i st = (case load_result dec i st of Inr r \<Rightarrow> Some r | Inl _ \<Rightarrow> None)"

definition import_if_absent ::
  "(persisted_session \<Rightarrow> string option) \<Rightarrow> nat \<Rightarrow> persisted_session \<Rightarrow> nat \<Rightarrow> store \<Rightarrow> (store_error + unit) \<times> store" where
  "import_if_absent enc now record0 max_preview st =
     (case validate_persisted_session record0 of
        Some e \<Rightarrow> (Inl e, st)
      | None \<Rightarrow>
          if \<not> valid_id (ps_session_id record0) then (Inl UnsafeId, st)
          else
            (let record = record0\<lparr>ps_generation := 1\<rparr> in
             case enc record of
               None \<Rightarrow> (Inl Corrupt, st)
             | Some payload \<Rightarrow>
                 (case connection st of
                    Some e \<Rightarrow> (Inl e, st)
                  | None \<Rightarrow>
                      if map_of (db_sessions st) (ps_session_id record) \<noteq> None
                         \<or> active_epoch st (ps_session_id record) \<noteq> None then (Inl AlreadyExists, st)
                      else if now > sqlite_max then (Inl Database, st)
                      else (Inr (), st\<lparr>db_sessions := db_sessions st @
                              [(ps_session_id record,
                                row_of record payload (first_user_preview (ps_messages record) max_preview) now)]\<rparr>))))"

definition delete_rows :: "string \<Rightarrow> store \<Rightarrow> store" where
  "delete_rows i st = st\<lparr>db_sessions := AList.delete i (db_sessions st), db_writers := AList.delete i (db_writers st)\<rparr>"

definition delete_unconditionally :: "string \<Rightarrow> store \<Rightarrow> (store_error + bool) \<times> store" where
  "delete_unconditionally i st =
     (if \<not> valid_id i then (Inr False, st)
      else (case connection st of
        Some e \<Rightarrow> (Inl e, st)
      | None \<Rightarrow> (Inr (map_of (db_sessions st) i \<noteq> None), delete_rows i st)))"

definition delete_writer :: "session_writer \<Rightarrow> store \<Rightarrow> (store_error + bool option) \<times> store" where
  "delete_writer writer st =
     (case connection st of
        Some e \<Rightarrow> (Inl e, st)
      | None \<Rightarrow>
          if active_epoch st (wr_session writer) \<noteq> Some (wr_epoch writer) then (Inr None, st)
          else (Inr (Some (map_of (db_sessions st) (wr_session writer) \<noteq> None)), delete_rows (wr_session writer) st))"

section \<open>Listing\<close>

definition summary_from_row ::
  "(string \<Rightarrow> persisted_session option) \<Rightarrow> nat \<Rightarrow> session_row \<Rightarrow> store_error + session_summary" where
  "summary_from_row dec max_preview row =
     (case decode_persisted_session dec (rw_payload row) of
        Inl e \<Rightarrow> Inl e
      | Inr record \<Rightarrow>
          Inr \<lparr>sm_id = ps_session_id record, sm_model = ps_model record, sm_count = length (ps_messages record),
               sm_cwd = ps_cwd record, sm_updated = rw_updated row,
               sm_first_user_line = first_user_preview (ps_messages record) max_preview\<rparr>)"

definition readable :: "(string \<Rightarrow> persisted_session option) \<Rightarrow> nat \<Rightarrow> (string \<times> session_row) list \<Rightarrow> session_summary list" where
  "readable dec max_preview rows =
     List.map_filter (\<lambda>(_, row). case summary_from_row dec max_preview row of Inr s \<Rightarrow> Some s | Inl _ \<Rightarrow> None) rows"

definition newest_first :: "(nat \<times> string \<times> 'a) list \<Rightarrow> 'a list" where
  "newest_first xs = map (snd \<circ> snd) (sort_key (\<lambda>(u, i, x). (- int u, i)) xs)"

definition list_with_preview_limit :: "(string \<Rightarrow> persisted_session option) \<Rightarrow> nat \<Rightarrow> store \<Rightarrow> session_summary list" where
  "list_with_preview_limit dec max_preview st =
     (case connection st of
        Some _ \<Rightarrow> []
      | None \<Rightarrow> readable dec max_preview
          (newest_first (map (\<lambda>(i, row). (rw_updated row, i, (i, row))) (db_sessions st))))"

definition strip_json :: "string \<Rightarrow> string" where
  "strip_json s = (if length s \<ge> 5 \<and> drop (length s - 5) s = ''.json'' then take (length s - 5) s else s)"

text \<open>\<open>expired_before\<close> and \<open>expired_after\<close> are the two readings of the clock against the deadline.\<close>

definition scan_summaries ::
  "(string \<Rightarrow> persisted_session option) \<Rightarrow> nat \<Rightarrow> string option \<Rightarrow> nat \<Rightarrow> bool \<Rightarrow> bool \<Rightarrow> store \<Rightarrow> summary_scan" where
  "scan_summaries dec max_preview after_name max_entries0 expired_before expired_after st =
     (if expired_before then \<lparr>sn_summaries = [], sn_next_cursor = after_name, sn_complete = False\<rparr>
      else (case connection st of
        Some _ \<Rightarrow> \<lparr>sn_summaries = [], sn_next_cursor = None, sn_complete = False\<rparr>
      | None \<Rightarrow>
          (let max_entries = max max_entries0 1;
               after = (case after_name of Some a \<Rightarrow> strip_json a | None \<Rightarrow> []);
               fetched = take (min (max_entries + 1) sqlite_max)
                           (sort_key fst (filter (\<lambda>(i, _). after < i) (db_sessions st)));
               rows = readable dec max_preview fetched;
               payload_complete = (length rows = length fetched);
               has_more = length rows > max_entries;
               kept = take max_entries rows;
               next_cursor = (if has_more \<and> kept \<noteq> [] then Some (sm_id (last kept)) else None)
           in \<lparr>sn_summaries = newest_first (map (\<lambda>s. (sm_updated s, sm_id s, s)) kept),
               sn_next_cursor = next_cursor,
               sn_complete = (\<not> has_more \<and> payload_complete \<and> \<not> expired_after)\<rparr>)))"

section \<open>Previews are bounded\<close>

lemma floor_char_boundary_le: "floor_char_boundary s n \<le> n" "floor_char_boundary s n \<le> length s"
  using floor_boundary_le [of s n] by (auto simp: floor_char_boundary_def)

lemma preview_words_bounded:
  "length preview \<le> m \<Longrightarrow> length (preview_words m ws preview) \<le> m"
proof (induction m ws preview rule: preview_words.induct)
  case (2 m word ws preview)
  let ?sep = "if preview = [] then 0 else 1 :: nat"
  let ?p1 = "if ?sep = 1 then preview @ '' '' else preview"
  let ?b = "floor_char_boundary word (m - length ?p1)"
  show ?case
  proof (cases "m - length preview \<le> ?sep")
    case True
    with "2.prems" show ?thesis by (auto simp: Let_def)
  next
    case False
    then have "length ?p1 \<le> m" by (auto split: if_splits)
    then have le: "length (?p1 @ take ?b word) \<le> m"
      using floor_char_boundary_le [of word "m - length ?p1"] by (simp add: min_def)
    show ?thesis
    proof (cases "?b < length word")
      case True
      with False le show ?thesis by (auto simp: Let_def)
    next
      case False': False
      have "length (preview_words m ws (?p1 @ take ?b word)) \<le> m"
        by (rule "2.IH" [OF refl refl False refl refl refl False' le])
      with False False' show ?thesis by (auto simp: Let_def)
    qed
  qed
qed simp

lemma first_user_preview_bounded: "first_user_preview messages m = Some p \<Longrightarrow> p \<noteq> [] \<and> length p \<le> m"
proof -
  have block: "p \<noteq> [] \<and> length p \<le> m" if "block_preview m b = Some p" for b
    using that preview_words_bounded [of "[]" m]
    by (cases b) (auto simp: normalize_preview_def Let_def split: list.splits if_splits)
  assume "first_user_preview messages m = Some p"
  then show ?thesis
    using block by (auto simp: first_user_preview_def split: if_splits option.splits dest!: find_map_Some)
qed

section \<open>Sequences of operations\<close>

datatype store_op =
    SClaim string string "nat option"
  | SWrite nat persisted_session nat "nat option" "session_writer option"
  | SImport nat persisted_session nat
  | SDelete string
  | SDeleteWriter session_writer

fun store_step :: "(persisted_session \<Rightarrow> string option) \<Rightarrow> store_op \<Rightarrow> store \<Rightarrow> store" where
  "store_step enc (SClaim epoch session expected) st = snd (claim_writer epoch session expected st)"
| "store_step enc (SWrite now record m requested writer) st = snd (write_record enc now record m requested writer st)"
| "store_step enc (SImport now record m) st = snd (import_if_absent enc now record m st)"
| "store_step enc (SDelete i) st = snd (delete_unconditionally i st)"
| "store_step enc (SDeleteWriter w) st = snd (delete_writer w st)"

fun mints :: "store_op \<Rightarrow> string \<Rightarrow> bool" where
  "mints (SClaim epoch _ _) e = (epoch = e)"
| "mints _ e = False"

fun deletes :: "store_op \<Rightarrow> string \<Rightarrow> bool" where
  "deletes (SDelete i) j = (i = j)"
| "deletes (SDeleteWriter w) j = (wr_session w = j)"
| "deletes _ j = False"

lemma write_row_writers [simp]:
  "db_writers (snd (write_row enc now r m st)) = db_writers st"
  "db_schema (snd (write_row enc now r m st)) = db_schema st"
  "db_available (snd (write_row enc now r m st)) = db_available st"
  by (simp_all add: write_row_def Let_def split: option.splits)

lemma write_record_writers [simp]:
  "db_writers (snd (write_record enc now r m q w st)) = db_writers st"
  "db_schema (snd (write_record enc now r m q w st)) = db_schema st"
  "db_available (snd (write_record enc now r m q w st)) = db_available st"
  by (simp_all add: write_record_def Let_def split: option.splits)

lemma delete_rows_epoch: "active_epoch (delete_rows i st) j = (if j = i then None else active_epoch st j)"
  by (simp add: delete_rows_def active_epoch_def AList.delete_conv')

lemma delete_rows_generation: "stored_generation (delete_rows i st) j = (if j = i then None else stored_generation st j)"
  by (simp add: delete_rows_def stored_generation_def AList.delete_conv')

lemma claim_writer_cases:
  "snd (claim_writer epoch i expected st) = st
   \<or> snd (claim_writer epoch i expected st) = st\<lparr>db_writers := AList.update i epoch (db_writers st)\<rparr>"
  by (auto simp: claim_writer_def Let_def split: option.splits)

lemma import_writers: "db_writers (snd (import_if_absent enc now r m st)) = db_writers st"
  by (simp add: import_if_absent_def Let_def split: option.splits)

text \<open>
  The fencing contract: an operation leaves the current writer of a session in place, removes
  it, or installs an epoch that it mints itself.
\<close>

locale writer_fence =
  fixes epoch :: "'s \<Rightarrow> string \<Rightarrow> string option"
    and step :: "'o \<Rightarrow> 's \<Rightarrow> 's"
    and mint :: "'o \<Rightarrow> string \<Rightarrow> bool"
  assumes only_minted: "epoch (step op s) i = Some e \<Longrightarrow> \<not> mint op e \<Longrightarrow> epoch s i = Some e"
begin

lemma revoked_forever:
  "epoch s i \<noteq> Some e \<Longrightarrow> \<forall>op \<in> set ops. \<not> mint op e \<Longrightarrow> epoch (fold step ops s) i \<noteq> Some e"
proof (induction ops arbitrary: s)
  case (Cons op ops)
  have "epoch (step op s) i \<noteq> Some e" using Cons.prems only_minted [of op s i e] by auto
  with Cons.IH Cons.prems show ?case by simp
qed simp

end

lemma store_step_epoch:
  "active_epoch (store_step enc op st) i = Some e \<Longrightarrow> \<not> mints op e \<Longrightarrow> active_epoch st i = Some e"
proof (cases op)
  case (SClaim epoch session expected)
  assume "active_epoch (store_step enc op st) i = Some e" "\<not> mints op e"
  then show ?thesis
    using claim_writer_cases [of epoch session expected st]
    by (auto simp: SClaim active_epoch_def AList.update_conv' split: if_splits)
next
  case (SDelete j)
  assume "active_epoch (store_step enc op st) i = Some e"
  then show ?thesis
    by (auto simp: SDelete delete_unconditionally_def delete_rows_epoch split: if_splits option.splits)
next
  case (SDeleteWriter w)
  assume "active_epoch (store_step enc op st) i = Some e"
  then show ?thesis
    by (auto simp: SDeleteWriter delete_writer_def delete_rows_epoch split: if_splits option.splits)
qed (simp_all add: active_epoch_def import_writers)

interpretation store_fence: writer_fence active_epoch "store_step enc" mints
  by unfold_locales (rule store_step_epoch)

lemma write_record_fenced:
  assumes "connection st = None" and "active_epoch st (ps_session_id r) \<noteq> Some (wr_epoch w)"
  shows "write_record enc now r m q (Some w) st = (Inr WroteSuperseded, st)"
  using assms by (simp add: write_record_def)

section \<open>Generations\<close>

lemma write_row_generation:
  "stored_generation (snd (write_row enc now r m st)) i =
     (case fst (write_row enc now r m st) of
        Inr _ \<Rightarrow> if i = ps_session_id r then Some (ps_generation r) else stored_generation st i
      | Inl _ \<Rightarrow> stored_generation st i)"
  by (auto simp: write_row_def Let_def stored_generation_def AList.update_conv' row_of_def split: option.splits)

lemma write_row_outcome: "fst (write_row enc now r m st) = Inr out \<Longrightarrow> \<exists>sm u. out = WroteSaved sm u"
  by (auto simp: write_row_def Let_def split: option.splits if_splits)

lemma write_record_saved:
  assumes "write_record enc now r m q w st = (Inr (WroteSaved sm u), st')"
  shows "\<exists>g. stored_generation st' (ps_session_id r) = Some g
    \<and> (\<forall>g0. stored_generation st (ps_session_id r) = Some g0 \<longrightarrow> g0 < g)
    \<and> (\<forall>g1. q = Some g1 \<longrightarrow> g = g1)
    \<and> st' = snd (write_row enc now (r\<lparr>ps_generation := g\<rparr>) m st)
    \<and> fst (write_row enc now (r\<lparr>ps_generation := g\<rparr>) m st) = Inr (WroteSaved sm u)"
proof -
  define g where "g = (case q of Some g \<Rightarrow> g | None \<Rightarrow>
      saturating_add (case stored_generation st (ps_session_id r) of Some g \<Rightarrow> g | None \<Rightarrow> 0) 1)"
  have row: "write_row enc now (r\<lparr>ps_generation := g\<rparr>) m st = (Inr (WroteSaved sm u), st')"
    and above: "\<forall>g0. stored_generation st (ps_session_id r) = Some g0 \<longrightarrow> g0 < g"
    using assms by (auto simp: write_record_def Let_def g_def split: option.splits if_splits)
  have "stored_generation st' (ps_session_id r) = Some g"
    using write_row_generation [of enc now "r\<lparr>ps_generation := g\<rparr>" m st "ps_session_id r"] row by simp
  with row above show ?thesis by (intro exI [of _ g]) (auto simp: g_def)
qed

lemma write_record_other:
  assumes "\<nexists>sm u. fst (write_record enc now r m q w st) = Inr (WroteSaved sm u)"
  shows "snd (write_record enc now r m q w st) = st"
proof -
  have "snd (write_row enc now r' m st) = st" if "\<nexists>sm u. fst (write_row enc now r' m st) = Inr (WroteSaved sm u)" for r'
    using that by (auto simp: write_row_def Let_def split: option.splits if_splits)
  with assms show ?thesis by (auto simp: write_record_def Let_def split: option.splits if_splits)
qed

lemma write_record_other_session:
  assumes "i \<noteq> ps_session_id r"
  shows "stored_generation (snd (write_record enc now r m q w st)) i = stored_generation st i"
proof -
  have "stored_generation (snd (write_row enc now r' m st)) i = stored_generation st i"
    if "ps_session_id r' = ps_session_id r" for r'
    using write_row_generation [of enc now r' m st i] that assms by (auto split: sum.splits)
  then show ?thesis by (auto simp: write_record_def Let_def split: option.splits)
qed

lemma import_generation:
  "stored_generation st i = Some g \<Longrightarrow> stored_generation (snd (import_if_absent enc now r m st)) i = Some g"
  by (auto simp: import_if_absent_def Let_def stored_generation_def map_of_append map_add_def split: option.splits)

lemma store_step_generation:
  assumes "stored_generation st i = Some g" and "\<not> deletes op i"
  shows "\<exists>g' \<ge> g. stored_generation (store_step enc op st) i = Some g'"
proof (cases op)
  case (SClaim epoch session expected)
  have "stored_generation (snd (claim_writer epoch session expected st)) i = stored_generation st i"
    using claim_writer_cases [of epoch session expected st] by (auto simp: stored_generation_def)
  with assms(1) SClaim show ?thesis by auto
next
  case (SWrite now r m requested writer)
  show ?thesis
  proof (cases "\<exists>sm u. fst (write_record enc now r m requested writer st) = Inr (WroteSaved sm u)")
    case True
    then obtain sm u where saved: "write_record enc now r m requested writer st =
        (Inr (WroteSaved sm u), snd (write_record enc now r m requested writer st))"
      by (metis prod.collapse)
    show ?thesis
    proof (cases "i = ps_session_id r")
      case True
      with write_record_saved [OF saved] assms(1) SWrite show ?thesis by (auto intro: less_imp_le)
    next
      case False
      with write_record_other_session assms(1) SWrite show ?thesis by auto
    qed
  next
    case False
    with write_record_other [of enc now r m requested writer st] assms(1) SWrite show ?thesis by auto
  qed
next
  case (SImport now r m)
  with import_generation [OF assms(1)] show ?thesis by auto
qed (use assms in \<open>auto simp: delete_unconditionally_def delete_writer_def delete_rows_generation split: option.splits\<close>)

lemma store_run_generation:
  "stored_generation st i = Some g \<Longrightarrow> \<forall>op \<in> set ops. \<not> deletes op i \<Longrightarrow>
     \<exists>g' \<ge> g. stored_generation (fold (store_step enc) ops st) i = Some g'"
proof (induction ops arbitrary: st g)
  case (Cons op ops)
  obtain g1 where "g \<le> g1" "stored_generation (store_step enc op st) i = Some g1"
    using store_step_generation [OF Cons.prems(1), of op enc] Cons.prems(2) by auto
  with Cons.IH [of "store_step enc op st" g1] Cons.prems(2) show ?case by (auto intro: order_trans)
qed auto

lemma connection_sessions [simp]: "connection (st\<lparr>db_sessions := x\<rparr>) = connection st"
  by (simp add: connection_def)

lemma connection_step [simp]: "connection (store_step enc op st) = connection st"
proof -
  have "db_schema (store_step enc op st) = db_schema st \<and> db_available (store_step enc op st) = db_available st"
    using claim_writer_cases
    by (cases op) (auto simp: import_if_absent_def delete_unconditionally_def delete_writer_def delete_rows_def
        Let_def claim_writer_def split: option.splits)
  then show ?thesis by (simp add: connection_def)
qed

lemma connection_run [simp]: "connection (fold (store_step enc) ops st) = connection st"
  by (induction ops arbitrary: st) simp_all

section \<open>Properties\<close>

text \<open>
  Property C5. A writer that has been replaced is fenced off for good. Once a session has been
  claimed under a new epoch, then whatever operations follow (short of minting the old epoch
  again), every write of the old writer is reported as superseded and changes nothing, and it
  cannot delete the session either.
\<close>

theorem replaced_writer_is_fenced:
  assumes "claim_writer e session expected st = (Inr w, st1)" and "e \<noteq> wr_epoch old" and "wr_session old = session"
    and "\<forall>op \<in> set ops. \<not> mints op (wr_epoch old)"
  shows "save_acp_generation_result enc now old g body m (fold (store_step enc) ops st1)
      = (Inr WroteSuperseded, fold (store_step enc) ops st1)
    \<and> delete_writer old (fold (store_step enc) ops st1) = (Inr None, fold (store_step enc) ops st1)"
proof -
  have claimed: "valid_id session" "connection st1 = None" "active_epoch st1 session = Some e"
    using assms(1)
    by (auto simp: claim_writer_def Let_def active_epoch_def AList.update_conv' connection_def
        split: if_splits option.splits)
  then have "active_epoch (fold (store_step enc) ops st1) session \<noteq> Some (wr_epoch old)"
    using store_fence.revoked_forever [of st1 session "wr_epoch old" ops enc] assms(2,4) by simp
  then show ?thesis
    using claimed(1,2) assms(3)
    by (simp add: save_acp_generation_result_def save_record_result_def delete_writer_def write_record_fenced)
qed

theorem replaced_writer_is_fenced_witness:
  "\<exists>w st1. claim_writer ''e2'' ''s'' None \<lparr>db_sessions = [], db_writers = [(''s'', ''e1'')], db_schema = 1, db_available = True\<rparr>
      = (Inr w, st1)
    \<and> delete_writer \<lparr>wr_session = ''s'', wr_epoch = ''e1''\<rparr> st1 = (Inr None, st1)"
proof -
  let ?st = "\<lparr>db_sessions = [], db_writers = [(''s'', ''e1'')], db_schema = 1, db_available = True\<rparr>"
  have "valid_id ''s''" by code_simp
  then obtain w st1 where claimed: "claim_writer ''e2'' ''s'' None ?st = (Inr w, st1)"
    by (simp add: claim_writer_def connection_def stored_generation_def session_store_schema_version_def)
  then show ?thesis
    using replaced_writer_is_fenced [OF claimed, of "\<lparr>wr_session = ''s'', wr_epoch = ''e1''\<rparr>" "[]" "\<lambda>_. None"]
    by auto
qed

text \<open>
  Observation. Generations only grow: a write that is reported saved stores a generation above
  the stored one (the requested one if a generation was requested), a write reported stale or
  superseded changes nothing, and no sequence of claims, writes and imports, with deletions of
  other sessions, ever lowers the stored generation of a session.
\<close>

theorem generations_only_grow:
  "(write_record enc now r m q w st = (Inr (WroteSaved sm u), st') \<longrightarrow>
      (\<exists>g. stored_generation st' (ps_session_id r) = Some g
         \<and> (\<forall>g0. stored_generation st (ps_session_id r) = Some g0 \<longrightarrow> g0 < g)
         \<and> (\<forall>g1. q = Some g1 \<longrightarrow> g = g1)))
   \<and> (write_record enc now r m q w st = (Inr (WroteStale g2), st') \<or>
        write_record enc now r m q w st = (Inr WroteSuperseded, st') \<longrightarrow> st' = st)
   \<and> (stored_generation st i = Some g \<and> (\<forall>op \<in> set ops. \<not> deletes op i) \<longrightarrow>
        (\<exists>g' \<ge> g. stored_generation (fold (store_step enc) ops st) i = Some g'))"
proof (intro conjI impI)
  assume "write_record enc now r m q w st = (Inr (WroteSaved sm u), st')"
  from write_record_saved [OF this] show "\<exists>g. stored_generation st' (ps_session_id r) = Some g
         \<and> (\<forall>g0. stored_generation st (ps_session_id r) = Some g0 \<longrightarrow> g0 < g) \<and> (\<forall>g1. q = Some g1 \<longrightarrow> g = g1)"
    by blast
next
  assume "write_record enc now r m q w st = (Inr (WroteStale g2), st') \<or>
        write_record enc now r m q w st = (Inr WroteSuperseded, st')"
  then show "st' = st" using write_record_other [of enc now r m q w st] by auto
next
  assume "stored_generation st i = Some g \<and> (\<forall>op \<in> set ops. \<not> deletes op i)"
  then show "\<exists>g' \<ge> g. stored_generation (fold (store_step enc) ops st) i = Some g'"
    using store_run_generation by blast
qed

theorem generations_only_grow_witness:
  "\<exists>g' \<ge> 4. stored_generation (fold (store_step (\<lambda>_. None)) [SDelete ''t'']
      \<lparr>db_sessions = [(''s'', \<lparr>rw_version = 1, rw_generation = 4, rw_payload = [], rw_model = [], rw_cwd = None,
         rw_count = 0, rw_preview = None, rw_updated = 0\<rparr>)], db_writers = [], db_schema = 1, db_available = True\<rparr>) ''s''
     = Some g'"
proof -
  let ?st = "\<lparr>db_sessions = [(''s'', \<lparr>rw_version = 1, rw_generation = 4, rw_payload = [], rw_model = [], rw_cwd = None,
         rw_count = 0, rw_preview = None, rw_updated = 0\<rparr>)], db_writers = [], db_schema = 1, db_available = True\<rparr>"
  have "stored_generation ?st ''s'' = Some 4 \<and> (\<forall>op \<in> set [SDelete ''t'']. \<not> deletes op ''s'')"
    by (simp add: stored_generation_def)
  with generations_only_grow [of "\<lambda>_. None" _ _ _ _ _ ?st _ _ _ _ "''s''" 4 "[SDelete ''t'']"] show ?thesis
    by blast
qed

text \<open>
  Property C33. What is saved is what is loaded: after a saved write, with an encoding that
  decodes back to the record that was written, loading the session returns that record with the
  stored generation, the other sessions are untouched, and importing over it is refused.
\<close>

theorem saved_session_loads:
  assumes "save_record_result enc now body m q w st = (Inr (WroteSaved sm u), st')"
    and "\<And>g p. enc (body\<lparr>ps_version := session_persist_version, ps_generation := g\<rparr>) = Some p \<Longrightarrow>
           dec p = Some (body\<lparr>ps_version := session_persist_version, ps_generation := g\<rparr>)"
  shows "\<exists>g. load_result dec (ps_session_id body) st' =
        Inr (body\<lparr>ps_version := session_persist_version, ps_generation := g\<rparr>)
      \<and> stored_generation st' (ps_session_id body) = Some g
      \<and> (\<forall>i. i \<noteq> ps_session_id body \<longrightarrow> load_result dec i st' = load_result dec i st)
      \<and> snd (import_if_absent enc now' (record\<lparr>ps_session_id := ps_session_id body\<rparr>) m' st') = st'"
proof -
  let ?i = "ps_session_id body"
  let ?r = "\<lambda>g. body\<lparr>ps_version := session_persist_version, ps_generation := g\<rparr>"
  have valid: "valid_id ?i" and wrote: "\<exists>g0. write_record enc now (?r g0) m q w st = (Inr (WroteSaved sm u), st')"
    using assms(1) by (auto simp: save_record_result_def split: if_splits)
  then obtain g0 where w0: "write_record enc now (?r g0) m q w st = (Inr (WroteSaved sm u), st')" by blast
  then have conn: "connection st = None" by (auto simp: write_record_def split: option.splits)
  obtain g where g: "stored_generation st' ?i = Some g" "st' = snd (write_row enc now (?r g) m st)"
    "fst (write_row enc now (?r g) m st) = Inr (WroteSaved sm u)"
    using write_record_saved [OF w0] by auto
  obtain p where p: "enc (?r g) = Some p"
    and st': "st' = st\<lparr>db_sessions := AList.update ?i
        (row_of (?r g) p (first_user_preview (ps_messages body) m) now) (db_sessions st)\<rparr>"
    using g(2,3) by (auto simp: write_row_def Let_def split: option.splits if_splits)
  have conn': "connection st' = None" using conn by (simp add: st')
  have "load_result dec ?i st' = Inr (?r g)"
    using valid conn' assms(2) [OF p]
    by (simp add: load_result_def st' AList.update_conv' decode_persisted_session_def row_of_def
        validate_persisted_session_def)
  moreover have "load_result dec i st' = load_result dec i st" if "i \<noteq> ?i" for i
    using that conn by (simp add: load_result_def st' AList.update_conv')
  moreover have "snd (import_if_absent enc now' (record\<lparr>ps_session_id := ?i\<rparr>) m' st') = st'"
    using g(1) by (auto simp: import_if_absent_def Let_def stored_generation_def split: option.splits)
  ultimately show ?thesis using g(1) by blast
qed

theorem saved_session_loads_witness:
  "\<exists>st' g. load_result (\<lambda>_. Some \<lparr>ps_version = 1, ps_generation = 1, ps_session_id = ''s'', ps_model = ''m'',
        ps_thinking = None, ps_cwd = None, ps_client_ids = [], ps_outcomes = [], ps_messages = []\<rparr>) ''s'' st' =
      Inr \<lparr>ps_version = 1, ps_generation = g, ps_session_id = ''s'', ps_model = ''m'',
        ps_thinking = None, ps_cwd = None, ps_client_ids = [], ps_outcomes = [], ps_messages = []\<rparr>"
proof -
  let ?r = "\<lparr>ps_version = 1, ps_generation = 1, ps_session_id = ''s'', ps_model = ''m'',
        ps_thinking = None, ps_cwd = None, ps_client_ids = [], ps_outcomes = [], ps_messages = []\<rparr>"
  let ?enc = "\<lambda>r. if ps_generation r = 1 then Some ''p'' else None"
  let ?st = "\<lparr>db_sessions = [], db_writers = [], db_schema = 1, db_available = True\<rparr>"
  have "valid_id ''s''" by code_simp
  then obtain sm st' where saved: "save_record_result ?enc 5 ?r 0 (Some 1) None ?st = (Inr (WroteSaved sm 5), st')"
    by (simp add: save_record_result_def write_record_def write_row_def connection_def active_epoch_def
        stored_generation_def session_store_schema_version_def sqlite_max_def Let_def)
  have "\<exists>g. load_result (\<lambda>_. Some ?r) (ps_session_id ?r) st' = Inr (?r\<lparr>ps_version := session_persist_version, ps_generation := g\<rparr>)"
  proof (rule saved_session_loads [OF saved, of "\<lambda>_. Some ?r", THEN exE])
    fix g p
    assume "?enc (?r\<lparr>ps_version := session_persist_version, ps_generation := g\<rparr>) = Some p"
    then show "Some ?r = Some (?r\<lparr>ps_version := session_persist_version, ps_generation := g\<rparr>)"
      by (simp add: session_persist_version_def split: if_splits)
  qed blast
  then show ?thesis by (auto simp: session_persist_version_def)
qed

text \<open>
  Observation. An unreadable record hides the sessions after it from a scan. A page decides
  whether more sessions follow from the rows it could decode, so one undecodable row in a full
  page ends the scan without a cursor although sessions remain.
\<close>

theorem undecodable_row_ends_scan:
  "let row = (\<lambda>p. \<lparr>rw_version = 1, rw_generation = 1, rw_payload = p, rw_model = [], rw_cwd = None, rw_count = 0,
                  rw_preview = None, rw_updated = 0\<rparr>);
       rec = (\<lambda>i. \<lparr>ps_version = 1, ps_generation = 1, ps_session_id = i, ps_model = [], ps_thinking = None,
                  ps_cwd = None, ps_client_ids = [], ps_outcomes = [], ps_messages = []\<rparr>);
       dec = (\<lambda>p. if p = ''bad'' then None else Some (rec p));
       st = \<lparr>db_sessions = [(''a'', row ''bad''), (''b'', row ''b''), (''c'', row ''c'')],
             db_writers = [], db_schema = 1, db_available = True\<rparr>;
       page = scan_summaries dec 10 None 1 False False st
   in map sm_id (sn_summaries page) = [''b''] \<and> sn_next_cursor page = None"
  by code_simp

end
