(* ===== verification/Persistence.thy ===== *)
theory Persistence
  imports Session_Store Event_Router
begin

text \<open>
  Session persistence (PersistenceRetryPolicy, SessionPersistence and the persistence methods of
  SessionCore in src/src/session_core.rs): capture, fenced save with bounded attempts, health and
  the published durability status. A call of \<open>persist_current\<close> runs under the persistence gate;
  what other tasks do meanwhile is the argument \<open>others\<close>, applied before each capture. Every
  store error reaches this layer through \<open>std::io::Error::other\<close>.
\<close>

datatype io_kind = IoInterrupted | IoWouldBlock | IoTimedOut | IoOther

datatype persistence_health = HealthClean | HealthDirty | HealthDegraded bool | HealthSuperseded

datatype save_outcome = SaveSaved | SaveSkippedDeleted | SaveSuperseded | SaveSkippedStale nat

record retry_policy =
  rp_attempts :: nat
  rp_initial :: nat
  rp_max :: nat

definition retry_policy_new :: "nat \<Rightarrow> nat \<Rightarrow> nat \<Rightarrow> retry_policy" where
  "retry_policy_new attempts initial maximum =
     \<lparr>rp_attempts = max attempts 1, rp_initial = initial, rp_max = max maximum initial\<rparr>"

record persistence_state =
  pp_deleted :: bool
  pp_superseded :: bool
  pp_last_saved :: "nat option"
  pp_health :: persistence_health

definition persistence_state_default :: persistence_state where
  "persistence_state_default =
     \<lparr>pp_deleted = False, pp_superseded = False, pp_last_saved = None, pp_health = HealthClean\<rparr>"

record capture =
  ca_generation :: nat
  ca_through :: nat
  ca_body :: persisted_session

definition is_retryable_persistence_error :: "io_kind \<Rightarrow> bool" where
  "is_retryable_persistence_error e \<longleftrightarrow> e = IoInterrupted \<or> e = IoWouldBlock \<or> e = IoTimedOut"

definition io_other :: "store_error \<Rightarrow> io_kind" where
  "io_other e = IoOther"

section \<open>Operations on the persistence state\<close>

definition mark_dirty :: "persistence_state \<Rightarrow> persistence_state" where
  "mark_dirty s = (if \<not> pp_deleted s \<and> \<not> pp_superseded s then s\<lparr>pp_health := HealthDirty\<rparr> else s)"

definition mark_clean_if_fully_handled :: "nat \<Rightarrow> nat \<Rightarrow> persistence_state \<Rightarrow> bool \<times> persistence_state" where
  "mark_clean_if_fully_handled handled requested s =
     (if pp_deleted s \<or> pp_superseded s then (True, s)
      else if requested \<le> handled then (True, s\<lparr>pp_health := HealthClean\<rparr>)
      else (False, s\<lparr>pp_health := HealthDirty\<rparr>))"

definition mark_degraded :: "bool \<Rightarrow> persistence_state \<Rightarrow> persistence_state" where
  "mark_degraded retryable s =
     (if \<not> pp_deleted s \<and> \<not> pp_superseded s then s\<lparr>pp_health := HealthDegraded retryable\<rparr> else s)"

definition health :: "persistence_state \<Rightarrow> persistence_health" where
  "health s = (if pp_deleted s then HealthClean else if pp_superseded s then HealthSuperseded else pp_health s)"

definition save_write ::
  "(persisted_session \<Rightarrow> string option) \<Rightarrow> nat \<Rightarrow> session_writer \<Rightarrow> nat \<Rightarrow> capture \<Rightarrow> persistence_state \<times> store
    \<Rightarrow> (io_kind + save_outcome) \<times> persistence_state \<times> store" where
  "save_write enc now writer max_preview cap = (\<lambda>(s, st).
     (case save_acp_generation_result enc now writer (ca_generation cap) (ca_body cap) max_preview st of
        (Inl e, st1) \<Rightarrow> (Inl (io_other e), s, st1)
      | (Inr (WroteSaved _ _), st1) \<Rightarrow> (Inr SaveSaved, s\<lparr>pp_last_saved := Some (ca_generation cap)\<rparr>, st1)
      | (Inr (WroteStale stored), st1) \<Rightarrow> (Inr (SaveSkippedStale stored), s\<lparr>pp_last_saved := Some stored\<rparr>, st1)
      | (Inr WroteSuperseded, st1) \<Rightarrow> (Inr SaveSuperseded, s\<lparr>pp_superseded := True\<rparr>, st1)))"

definition save ::
  "(persisted_session \<Rightarrow> string option) \<Rightarrow> nat \<Rightarrow> session_writer \<Rightarrow> nat \<Rightarrow> capture \<Rightarrow> persistence_state \<times> store
    \<Rightarrow> (io_kind + save_outcome) \<times> persistence_state \<times> store" where
  "save enc now writer max_preview cap = (\<lambda>(s, st).
     (if pp_deleted s then (Inr SaveSkippedDeleted, s, st)
      else if pp_superseded s then (Inr SaveSuperseded, s, st)
      else (case pp_last_saved s of
        Some last_saved \<Rightarrow>
          if ca_generation cap < last_saved then (Inr (SaveSkippedStale last_saved), s, st)
          else save_write enc now writer max_preview cap (s, st)
      | None \<Rightarrow> save_write enc now writer max_preview cap (s, st))))"

definition delete :: "session_writer \<Rightarrow> persistence_state \<times> store \<Rightarrow> (io_kind + bool) \<times> persistence_state \<times> store" where
  "delete writer = (\<lambda>(s, st).
     (if pp_deleted s \<or> pp_superseded s then (Inr False, s, st)
      else (case delete_writer writer st of
        (Inr (Some deleted), st1) \<Rightarrow> (Inr deleted, s\<lparr>pp_deleted := True\<rparr>, st1)
      | (Inr None, st1) \<Rightarrow> (Inr False, s\<lparr>pp_deleted := True\<rparr>, st1)
      | (Inl e, st1) \<Rightarrow> (Inl (io_other e), s, st1))))"

section \<open>The session core's side\<close>

record persist_core =
  pc_state :: persistence_state
  pc_store :: store
  pc_writer :: session_writer
  pc_generation :: nat
  pc_requested :: nat
  pc_completed :: nat
  pc_durability :: nat
  pc_router :: "nat session_event_router"
  pc_body :: persisted_session
  pc_sleeps :: "nat list"

definition capture_persistence :: "persist_core \<Rightarrow> capture \<times> persist_core" where
  "capture_persistence c =
     (let generation = pc_generation c + 1 in
      (\<lparr>ca_generation = generation, ca_through = rt_sequence (pc_router c), ca_body = pc_body c\<rparr>,
       c\<lparr>pc_generation := generation\<rparr>))"

definition core_durability :: "persist_core \<Rightarrow> durability_status" where
  "core_durability c = durability_status_from_code (pc_durability c)"

definition publish_durability ::
  "(nat \<Rightarrow> nat \<Rightarrow> session_event \<Rightarrow> bool) \<Rightarrow> durability_status \<Rightarrow> persist_core \<Rightarrow> persist_core" where
  "publish_durability panics status c =
     (let (code, r) = transition_durability panics status (pc_durability c, pc_router c)
      in c\<lparr>pc_durability := code, pc_router := r\<rparr>)"

definition publish_completed_durability ::
  "(nat \<Rightarrow> nat \<Rightarrow> session_event \<Rightarrow> bool) \<Rightarrow> persist_core \<Rightarrow> persist_core" where
  "publish_completed_durability panics c =
     publish_durability panics
       (if pc_requested c \<le> pc_completed c \<and> health (pc_state c) = HealthClean then Saved else Unsaved) c"

definition core_health :: "persist_core \<Rightarrow> persistence_health" where
  "core_health c = (if pc_requested c > pc_completed c then HealthDirty else health (pc_state c))"

text \<open>
  One pass of the retry loop per unit of the first argument: the attempts that are left. The
  delay before the next pass is recorded in \<open>pc_sleeps\<close>.
\<close>

fun persist_loop ::
  "nat \<Rightarrow> (persist_core \<Rightarrow> persist_core) \<Rightarrow> (nat \<Rightarrow> nat \<Rightarrow> session_event \<Rightarrow> bool)
    \<Rightarrow> (persisted_session \<Rightarrow> string option) \<Rightarrow> nat \<Rightarrow> nat \<Rightarrow> nat \<Rightarrow> nat \<Rightarrow> nat \<Rightarrow> persist_core \<Rightarrow> persist_core" where
  "persist_loop 0 others panics enc now max_preview max_backoff handled delay c = c"
| "persist_loop (Suc left) others panics enc now max_preview max_backoff handled delay c =
     (let (cap, c1) = capture_persistence (others c);
          (outcome, s, st) = save enc now (pc_writer c1) max_preview cap (pc_state c1, pc_store c1);
          c2 = c1\<lparr>pc_state := s, pc_store := st\<rparr>;
          completed = c2\<lparr>pc_completed := max (pc_completed c2) handled\<rparr>
      in case outcome of
           Inr SaveSaved \<Rightarrow>
             publish_completed_durability panics
               (completed\<lparr>pc_state := snd (mark_clean_if_fully_handled handled (pc_requested completed) s)\<rparr>)
         | Inr (SaveSkippedStale stored) \<Rightarrow>
             (let c3 = c2\<lparr>pc_generation := max (pc_generation c2) stored, pc_state := mark_dirty s\<rparr> in
              if left = 0 then publish_durability panics Unsaved c3
              else persist_loop left others panics enc now max_preview max_backoff handled
                     (min (delay * 2) max_backoff) (c3\<lparr>pc_sleeps := pc_sleeps c3 @ [delay]\<rparr>))
         | Inr SaveSkippedDeleted \<Rightarrow> publish_completed_durability panics completed
         | Inr SaveSuperseded \<Rightarrow> publish_durability panics Superseded completed
         | Inl e \<Rightarrow>
             (let retryable = is_retryable_persistence_error e;
                  c3 = c2\<lparr>pc_state := mark_degraded retryable s\<rparr>
              in if \<not> retryable \<or> left = 0
                 then publish_durability panics Degraded (c3\<lparr>pc_completed := max (pc_completed c3) handled\<rparr>)
                 else persist_loop left others panics enc now max_preview max_backoff handled
                        (min (delay * 2) max_backoff) (c3\<lparr>pc_sleeps := pc_sleeps c3 @ [delay]\<rparr>)))"

definition persist_current ::
  "retry_policy \<Rightarrow> (persist_core \<Rightarrow> persist_core) \<Rightarrow> (nat \<Rightarrow> nat \<Rightarrow> session_event \<Rightarrow> bool)
    \<Rightarrow> (persisted_session \<Rightarrow> string option) \<Rightarrow> nat \<Rightarrow> nat \<Rightarrow> persist_core \<Rightarrow> persist_core" where
  "persist_current policy others panics enc now max_preview c =
     (let request = pc_requested c + 1;
          c1 = c\<lparr>pc_requested := request\<rparr>;
          c2 = (if core_durability c1 \<noteq> Saving then publish_durability panics Unsaved c1 else c1);
          c3 = others c2
      in if pc_completed c3 \<ge> request then c3
         else
           (let c4 = publish_durability panics Saving (c3\<lparr>pc_state := mark_dirty (pc_state c3)\<rparr>)
            in persist_loop (rp_attempts policy) others panics enc now max_preview (rp_max policy)
                 (pc_requested c4) (rp_initial policy) c4))"

definition delete_persisted :: "persist_core \<Rightarrow> (io_kind + bool) \<times> persist_core" where
  "delete_persisted c =
     (let (result, s, st) = delete (pc_writer c) (pc_state c, pc_store c)
      in (result, c\<lparr>pc_state := s, pc_store := st\<rparr>))"

section \<open>Saving once\<close>

lemma publish_durability_fields [simp]:
  "pc_state (publish_durability panics q c) = pc_state c"
  "pc_store (publish_durability panics q c) = pc_store c"
  "pc_writer (publish_durability panics q c) = pc_writer c"
  "pc_generation (publish_durability panics q c) = pc_generation c"
  "pc_requested (publish_durability panics q c) = pc_requested c"
  "pc_completed (publish_durability panics q c) = pc_completed c"
  "pc_body (publish_durability panics q c) = pc_body c"
  "pc_sleeps (publish_durability panics q c) = pc_sleeps c"
  by (simp_all add: publish_durability_def Let_def case_prod_unfold)

lemma publish_durability_store:
  "publish_durability panics q (c\<lparr>pc_store := st\<rparr>) = (publish_durability panics q c)\<lparr>pc_store := st\<rparr>"
  by (simp add: publish_durability_def Let_def case_prod_unfold)

lemma publish_durability_state:
  "publish_durability panics q (c\<lparr>pc_state := s\<rparr>) = (publish_durability panics q c)\<lparr>pc_state := s\<rparr>"
  by (simp add: publish_durability_def Let_def case_prod_unfold)

lemma store_then_state: "c\<lparr>pc_store := st, pc_state := s\<rparr> = c\<lparr>pc_state := s, pc_store := st\<rparr>"
  by simp

lemma core_durability_publish:
  "core_durability (publish_durability panics q c) =
     (if durability_edge (core_durability c) q then q else core_durability c)"
  by (simp add: publish_durability_def core_durability_def transition_durability_def durability_edge_def
      Let_def case_prod_unfold)

lemma core_durability_update [simp]:
  "core_durability (c\<lparr>pc_state := s\<rparr>) = core_durability c"
  "core_durability (c\<lparr>pc_store := st\<rparr>) = core_durability c"
  "core_durability (c\<lparr>pc_generation := n\<rparr>) = core_durability c"
  "core_durability (c\<lparr>pc_requested := n\<rparr>) = core_durability c"
  "core_durability (c\<lparr>pc_completed := n\<rparr>) = core_durability c"
  "core_durability (c\<lparr>pc_sleeps := ds\<rparr>) = core_durability c"
  by (simp_all add: core_durability_def)

lemma publish_completed_fields [simp]:
  "pc_state (publish_completed_durability panics c) = pc_state c"
  "pc_store (publish_completed_durability panics c) = pc_store c"
  "pc_requested (publish_completed_durability panics c) = pc_requested c"
  "pc_completed (publish_completed_durability panics c) = pc_completed c"
  "pc_sleeps (publish_completed_durability panics c) = pc_sleeps c"
  by (simp_all add: publish_completed_durability_def)

text \<open>What a store needs for a write of this session to go through.\<close>

definition stored_body :: "persist_core \<Rightarrow> nat \<Rightarrow> persisted_session" where
  "stored_body c g =
     (pc_body c)\<lparr>ps_session_id := wr_session (pc_writer c), ps_version := session_persist_version, ps_generation := g\<rparr>"

definition writable :: "(persisted_session \<Rightarrow> string option) \<Rightarrow> nat \<Rightarrow> persist_core \<Rightarrow> bool" where
  "writable enc now c \<longleftrightarrow>
     \<not> pp_deleted (pc_state c) \<and> \<not> pp_superseded (pc_state c) \<and> valid_id (wr_session (pc_writer c))
     \<and> connection (pc_store c) = None
     \<and> active_epoch (pc_store c) (wr_session (pc_writer c)) = Some (wr_epoch (pc_writer c))
     \<and> now \<le> sqlite_max \<and> (\<forall>g. enc (stored_body c g) \<noteq> None)"

lemma save_fresh:
  fixes c cap
  defines "i \<equiv> wr_session (pc_writer c)"
  assumes "writable enc now c" and "ca_body cap = pc_body c" and "ca_generation cap \<le> sqlite_max"
    and "\<forall>g. stored_generation (pc_store c) i = Some g \<longrightarrow> g < ca_generation cap"
    and "\<forall>l. pp_last_saved (pc_state c) = Some l \<longrightarrow> l \<le> ca_generation cap"
    and "\<forall>p. enc (stored_body c (ca_generation cap)) = Some p \<longrightarrow> dec p = Some (stored_body c (ca_generation cap))"
  shows "\<exists>st'. save enc now (pc_writer c) m cap (pc_state c, pc_store c) =
      (Inr SaveSaved, (pc_state c)\<lparr>pp_last_saved := Some (ca_generation cap)\<rparr>, st')
    \<and> load_result dec i st' = Inr (stored_body c (ca_generation cap))"
proof -
  let ?w = "pc_writer c" and ?st = "pc_store c" and ?g = "ca_generation cap"
  obtain p where p: "enc (stored_body c ?g) = Some p" "dec p = Some (stored_body c ?g)"
    using assms(2,7) by (auto simp: writable_def)
  let ?row = "row_of (stored_body c ?g) p (first_user_preview (ps_messages (pc_body c)) m) now"
  let ?st' = "?st\<lparr>db_sessions := AList.update i ?row (db_sessions ?st)\<rparr>"
  have ok: "valid_id i" "connection ?st = None" "active_epoch ?st i = Some (wr_epoch ?w)" "now \<le> sqlite_max"
    using assms(2) by (simp_all add: writable_def i_def)
  have "\<exists>out. save_acp_generation_result enc now ?w ?g (ca_body cap) m ?st = (Inr out, ?st') \<and> (\<exists>sm u. out = WroteSaved sm u)"
    using ok assms(3-5) p(1)
    by (auto simp: save_acp_generation_result_def save_record_result_def write_record_def write_row_def stored_body_def
        i_def Let_def split: option.splits)
  then obtain sm u where "save_acp_generation_result enc now ?w ?g (ca_body cap) m ?st = (Inr (WroteSaved sm u), ?st')"
    by blast
  then have "save enc now ?w m cap (pc_state c, ?st) = (Inr SaveSaved, (pc_state c)\<lparr>pp_last_saved := Some ?g\<rparr>, ?st')"
    using assms(2,6) by (auto simp: save_def save_write_def writable_def not_less split: option.splits)
  moreover have "load_result dec i ?st' = Inr (stored_body c ?g)"
    using ok p(2)
    by (simp add: load_result_def AList.update_conv' decode_persisted_session_def row_of_def stored_body_def
        validate_persisted_session_def i_def)
  ultimately show ?thesis by blast
qed

lemma save_stale:
  fixes c cap
  defines "i \<equiv> wr_session (pc_writer c)"
  assumes "writable enc now c" and "stored_generation (pc_store c) i = Some g" and "ca_generation cap \<le> g"
    and "pp_last_saved (pc_state c) \<in> {None, Some g}"
  shows "save enc now (pc_writer c) m cap (pc_state c, pc_store c) =
      (Inr (SaveSkippedStale g), (pc_state c)\<lparr>pp_last_saved := Some g\<rparr>, pc_store c)"
proof -
  have "save_acp_generation_result enc now (pc_writer c) (ca_generation cap) (ca_body cap) m (pc_store c)
      = (Inr (WroteStale g), pc_store c)"
    using assms(2-4)
    by (simp add: save_acp_generation_result_def save_record_result_def write_record_def writable_def i_def Let_def)
  then have written: "save_write enc now (pc_writer c) m cap (pc_state c, pc_store c) =
      (Inr (SaveSkippedStale g), (pc_state c)\<lparr>pp_last_saved := Some g\<rparr>, pc_store c)"
    by (simp add: save_write_def)
  have kept: "(pc_state c)\<lparr>pp_last_saved := Some g\<rparr> = pc_state c" if "pp_last_saved (pc_state c) = Some g"
    using that by (cases "pc_state c") simp
  show ?thesis
    using assms(2,5) written kept by (auto simp: save_def writable_def split: option.splits)
qed

section \<open>The retry loop\<close>

abbreviation core_settled :: "persist_core \<Rightarrow> bool" where
  "core_settled c \<equiv> core_health c = HealthClean \<and> core_durability c = Saved \<and> pc_completed c = pc_requested c"

lemma loop_fresh:
  fixes c :: persist_core and g :: nat
  defines "i \<equiv> wr_session (pc_writer c)" and "g \<equiv> pc_generation c + 1"
  assumes "writable enc now c" and "g \<le> sqlite_max"
    and "\<forall>g0. stored_generation (pc_store c) i = Some g0 \<longrightarrow> g0 < g"
    and "\<forall>l. pp_last_saved (pc_state c) = Some l \<longrightarrow> l \<le> g"
    and "\<forall>p. enc (stored_body c g) = Some p \<longrightarrow> dec p = Some (stored_body c g)"
    and "pc_completed c \<le> pc_requested c" and "core_durability c \<in> {Saving, Degraded}"
    and "c' = persist_loop (Suc n) id panics enc now m mb (pc_requested c) delay c"
  shows "core_settled c' \<and> load_result dec i (pc_store c') = Inr (stored_body c g) \<and> pc_sleeps c' = pc_sleeps c"
proof -
  define cap where "cap = \<lparr>ca_generation = g, ca_through = rt_sequence (pc_router c), ca_body = pc_body c\<rparr>"
  let ?c1 = "c\<lparr>pc_generation := g\<rparr>"
  have capture: "capture_persistence c = (cap, ?c1)"
    by (simp add: capture_persistence_def cap_def g_def Let_def)
  obtain st' where saved: "save enc now (pc_writer c) m cap (pc_state c, pc_store c) =
      (Inr SaveSaved, (pc_state c)\<lparr>pp_last_saved := Some g\<rparr>, st')" and loaded: "load_result dec i st' = Inr (stored_body c g)"
    using save_fresh [of enc now c cap dec m] assms(3-7) by (auto simp: cap_def i_def)
  let ?s = "(pc_state c)\<lparr>pp_last_saved := Some g, pp_health := HealthClean\<rparr>"
  let ?c2 = "c\<lparr>pc_generation := g, pc_store := st', pc_completed := pc_requested c, pc_state := ?s\<rparr>"
  have "c' = publish_completed_durability panics ?c2"
    using assms(3,8,10) saved
    by (simp add: capture mark_clean_if_fully_handled_def writable_def Let_def max_def)
  moreover have "health ?s = HealthClean" using assms(3) by (simp add: health_def writable_def)
  moreover have "durability_edge (core_durability c) Saved"
    using assms(9) by (auto simp: durability_edge_def durability_blocked_def)
  ultimately show ?thesis
    using loaded
    by (simp add: core_health_def publish_completed_durability_def core_durability_publish)
qed

lemma loop_stale:
  fixes c :: persist_core
  defines "i \<equiv> wr_session (pc_writer c)"
  assumes "writable enc now c" and "stored_generation (pc_store c) i = Some g" and "pc_generation c < g"
    and "pp_last_saved (pc_state c) \<in> {None, Some g}"
  shows "persist_loop (Suc (Suc n)) id panics enc now m mb handled delay c =
    persist_loop (Suc n) id panics enc now m mb handled (min (delay * 2) mb)
      (c\<lparr>pc_generation := g, pc_state := (pc_state c)\<lparr>pp_last_saved := Some g, pp_health := HealthDirty\<rparr>,
         pc_sleeps := pc_sleeps c @ [delay]\<rparr>)"
proof -
  define cap where "cap = \<lparr>ca_generation = pc_generation c + 1, ca_through = rt_sequence (pc_router c), ca_body = pc_body c\<rparr>"
  have capture: "capture_persistence c = (cap, c\<lparr>pc_generation := pc_generation c + 1\<rparr>)"
    by (simp add: capture_persistence_def cap_def Let_def)
  have "save enc now (pc_writer c) m cap (pc_state c, pc_store c) =
      (Inr (SaveSkippedStale g), (pc_state c)\<lparr>pp_last_saved := Some g\<rparr>, pc_store c)"
    using save_stale [of enc now c g cap m] assms(2-5) by (simp add: cap_def i_def)
  moreover have "mark_dirty ((pc_state c)\<lparr>pp_last_saved := Some g\<rparr>) =
      (pc_state c)\<lparr>pp_last_saved := Some g, pp_health := HealthDirty\<rparr>"
    using assms(2) by (simp add: mark_dirty_def writable_def)
  ultimately show ?thesis
    using assms(4) by (simp only: persist_loop.simps id_apply capture Let_def) (simp add: max_def)
qed

text \<open>The start of \<open>persist_current\<close> up to the loop, with nothing else running.\<close>

definition persist_start :: "(nat \<Rightarrow> nat \<Rightarrow> session_event \<Rightarrow> bool) \<Rightarrow> persist_core \<Rightarrow> persist_core" where
  "persist_start panics c =
     (let c1 = c\<lparr>pc_requested := pc_requested c + 1\<rparr>;
          c2 = (if core_durability c1 \<noteq> Saving then publish_durability panics Unsaved c1 else c1)
      in publish_durability panics Saving (c2\<lparr>pc_state := mark_dirty (pc_state c2)\<rparr>))"

lemma persist_start_fields [simp]:
  "pc_state (persist_start panics c) = mark_dirty (pc_state c)"
  "pc_store (persist_start panics c) = pc_store c"
  "pc_writer (persist_start panics c) = pc_writer c"
  "pc_generation (persist_start panics c) = pc_generation c"
  "pc_requested (persist_start panics c) = pc_requested c + 1"
  "pc_completed (persist_start panics c) = pc_completed c"
  "pc_body (persist_start panics c) = pc_body c"
  "pc_sleeps (persist_start panics c) = pc_sleeps c"
  by (simp_all add: persist_start_def Let_def)

lemma core_durability_start:
  "core_durability (persist_start panics c) =
     (if core_durability c \<in> {Degraded, Superseded} then core_durability c else Saving)"
  by (cases "core_durability c")
    (simp_all add: persist_start_def Let_def core_durability_publish durability_edge_def durability_blocked_def)

lemma persist_current_start:
  assumes "pc_completed c \<le> pc_requested c"
  shows "persist_current policy id panics enc now m c =
    persist_loop (rp_attempts policy) id panics enc now m (rp_max policy) (pc_requested c + 1) (rp_initial policy)
      (persist_start panics c)"
  using assms by (simp add: persist_current_def persist_start_def Let_def)

lemma mark_dirty_fields [simp]:
  "pp_deleted (mark_dirty s) = pp_deleted s"
  "pp_superseded (mark_dirty s) = pp_superseded s"
  "pp_last_saved (mark_dirty s) = pp_last_saved s"
  by (simp_all add: mark_dirty_def)

lemma writable_start [simp]: "writable enc now (persist_start panics c) = writable enc now c"
  by (simp add: writable_def stored_body_def)

lemma backoff_step: "min (min (d * 2) b * 2 ^ j) b = min (d * 2 ^ Suc j) (b :: nat)"
proof (cases "d * 2 \<le> b")
  case False
  have up: "b * 1 \<le> b * 2 ^ j" by (rule mult_le_mono2) simp
  moreover have "b * 2 ^ j \<le> d * 2 ^ Suc j" using False by (simp add: mult.assoc [symmetric])
  ultimately have "min (d * 2 ^ Suc j) b = b" by (intro min_absorb2) linarith
  moreover have "min (b * 2 ^ j) b = b" using up by (intro min_absorb2) simp
  ultimately show ?thesis using False by (simp only: min_absorb2 nat_le_linear)
qed (simp add: mult.assoc)

lemma persist_loop_sleeps:
  assumes "\<And>c. pc_sleeps (others c) = pc_sleeps c"
  shows "delay \<le> mb \<Longrightarrow> \<exists>k \<le> n - 1. pc_sleeps (persist_loop n others panics enc now m mb handled delay c) =
    pc_sleeps c @ map (\<lambda>j. min (delay * 2 ^ j) mb) [0 ..< k]"
proof (induction n arbitrary: delay c)
  case (Suc n)
  obtain cap c1 where capture: "capture_persistence (others c) = (cap, c1)" "pc_sleeps c1 = pc_sleeps c"
    using assms by (auto simp: capture_persistence_def Let_def)
  obtain out s st where saved: "save enc now (pc_writer c1) m cap (pc_state c1, pc_store c1) = (out, s, st)"
    by (metis prod_cases3)
  let ?loop = "\<lambda>n. persist_loop n others panics enc now m mb handled"
  have again: "\<exists>k \<le> n. pc_sleeps (?loop n (min (delay * 2) mb) (c3\<lparr>pc_sleeps := pc_sleeps c @ [delay]\<rparr>)) =
      pc_sleeps c @ map (\<lambda>j. min (delay * 2 ^ j) mb) [0 ..< k]" if "n \<noteq> 0" for c3
  proof -
    obtain k where "k \<le> n - 1" and k: "pc_sleeps (?loop n (min (delay * 2) mb) (c3\<lparr>pc_sleeps := pc_sleeps c @ [delay]\<rparr>)) =
        pc_sleeps c @ [delay] @ map (\<lambda>j. min (min (delay * 2) mb * 2 ^ j) mb) [0 ..< k]"
      using Suc.IH [of "min (delay * 2) mb" "c3\<lparr>pc_sleeps := pc_sleeps c @ [delay]\<rparr>"] by auto
    have "map (\<lambda>j. min (delay * 2 ^ j) mb) [0 ..< Suc k] =
        delay # map (\<lambda>j. min (min (delay * 2) mb * 2 ^ j) mb) [0 ..< k]"
      using Suc.prems by (simp only: map_upt_Suc backoff_step) simp
    with k \<open>k \<le> n - 1\<close> that show ?thesis by (intro exI [of _ "Suc k"]) auto
  qed
  have stop: "\<exists>k \<le> n. pc_sleeps c = pc_sleeps c @ map (\<lambda>j. min (delay * 2 ^ j) mb) [0 ..< k]"
    by (intro exI [of _ 0]) simp
  show ?case
  proof (cases out)
    case (Inl e)
    with again [of "c1\<lparr>pc_store := st, pc_state := mark_degraded (is_retryable_persistence_error e) s\<rparr>"] stop capture saved
    show ?thesis by (cases "is_retryable_persistence_error e \<and> n \<noteq> 0") (simp_all add: Let_def)
  next
    case (Inr outcome)
    show ?thesis
    proof (cases outcome)
      case (SaveSkippedStale g)
      with Inr again [of "c1\<lparr>pc_store := st, pc_generation := max (pc_generation c1) g, pc_state := mark_dirty s\<rparr>"]
        stop capture saved
      show ?thesis by (cases "n = 0") (simp_all add: Let_def)
    qed (use Inr stop capture saved in \<open>simp_all add: Let_def\<close>)
  qed
qed simp

section \<open>Failures and takeovers\<close>

lemma save_failed:
  assumes "\<not> pp_deleted s" and "\<not> pp_superseded s" and "\<forall>l. pp_last_saved s = Some l \<longrightarrow> l \<le> ca_generation cap"
    and "connection st = Some e" and "valid_id (wr_session w)"
  shows "save enc now w m cap (s, st) = (Inl IoOther, s, st)"
  using assms
  by (auto simp: save_def save_write_def save_acp_generation_result_def save_record_result_def write_record_def
      io_other_def not_less split: option.splits)

lemma save_superseded:
  assumes "\<not> pp_deleted s" and "\<forall>l. pp_last_saved s = Some l \<longrightarrow> l \<le> ca_generation cap"
    and "connection st = None" and "valid_id (wr_session w)" and "active_epoch st (wr_session w) \<noteq> Some (wr_epoch w)"
  shows "save enc now w m cap (s, st) = (Inr SaveSuperseded, s\<lparr>pp_superseded := True\<rparr>, st)"
proof -
  have "s\<lparr>pp_superseded := True\<rparr> = s" if "pp_superseded s" using that by (cases s) simp
  then show ?thesis
    using assms
    by (auto simp: save_def save_write_def save_acp_generation_result_def save_record_result_def write_record_fenced
        not_less split: option.splits)
qed

lemma loop_superseded:
  assumes "\<not> pp_deleted (pc_state c)" and "\<forall>l. pp_last_saved (pc_state c) = Some l \<longrightarrow> l \<le> pc_generation c"
    and "connection (pc_store (others c)) = None" and "valid_id (wr_session (pc_writer c))"
    and "active_epoch (pc_store (others c)) (wr_session (pc_writer c)) \<noteq> Some (wr_epoch (pc_writer c))"
    and "others c = c\<lparr>pc_store := st\<rparr>"
  shows "persist_loop (Suc n) others panics enc now m mb handled delay c =
    publish_durability panics Superseded
      (c\<lparr>pc_generation := pc_generation c + 1, pc_state := (pc_state c)\<lparr>pp_superseded := True\<rparr>, pc_store := st,
         pc_completed := max (pc_completed c) handled\<rparr>)"
proof -
  define cap where "cap = \<lparr>ca_generation = pc_generation c + 1, ca_through = rt_sequence (pc_router c), ca_body = pc_body c\<rparr>"
  have "capture_persistence (others c) = (cap, c\<lparr>pc_store := st, pc_generation := pc_generation c + 1\<rparr>)"
    by (simp add: assms(6) capture_persistence_def cap_def Let_def)
  moreover have "save enc now (pc_writer c) m cap (pc_state c, st) =
      (Inr SaveSuperseded, (pc_state c)\<lparr>pp_superseded := True\<rparr>, st)"
    using assms by (intro save_superseded) (auto simp: cap_def le_SucI)
  ultimately show ?thesis by (simp add: Let_def)
qed

text \<open>The other tasks as a list of operations on the shared store.\<close>

definition store_env :: "(persisted_session \<Rightarrow> string option) \<Rightarrow> store_op list \<Rightarrow> persist_core \<Rightarrow> persist_core" where
  "store_env enc ops c = c\<lparr>pc_store := fold (store_step enc) ops (pc_store c)\<rparr>"

definition taken_over :: "persist_core \<Rightarrow> bool" where
  "taken_over c \<longleftrightarrow>
     connection (pc_store c) = None \<and> valid_id (wr_session (pc_writer c))
     \<and> active_epoch (pc_store c) (wr_session (pc_writer c)) \<noteq> Some (wr_epoch (pc_writer c))
     \<and> \<not> pp_deleted (pc_state c) \<and> pc_completed c \<le> pc_requested c
     \<and> (\<forall>l. pp_last_saved (pc_state c) = Some l \<longrightarrow> l \<le> pc_generation c)"

lemma superseded_step:
  assumes "taken_over c" and "\<forall>op \<in> set ops. \<not> mints op (wr_epoch (pc_writer c))" and "0 < rp_attempts policy"
    and "c' = persist_current policy (store_env enc ops) panics enc now m c"
  shows "taken_over c' \<and> pp_superseded (pc_state c') \<and> core_durability c' = Superseded
    \<and> pc_completed c' = pc_requested c' \<and> pc_writer c' = pc_writer c
    \<and> pc_store c' = fold (store_step enc) ops (fold (store_step enc) ops (pc_store c))"
proof -
  let ?run = "fold (store_step enc) ops"
  let ?s = "persist_start panics c"
  obtain n where n: "rp_attempts policy = Suc n" using assms(3) by (cases "rp_attempts policy") auto
  let ?d = "?s\<lparr>pc_store := ?run (pc_store c)\<rparr>"
  have fenced: "active_epoch (?run st) (wr_session (pc_writer c)) \<noteq> Some (wr_epoch (pc_writer c))"
    if "active_epoch st (wr_session (pc_writer c)) \<noteq> Some (wr_epoch (pc_writer c))" for st
    using store_fence.revoked_forever [OF that assms(2)] .
  have "c' = persist_loop (Suc n) (store_env enc ops) panics enc now m (rp_max policy) (pc_requested c + 1) (rp_initial policy) ?d"
    using assms(1) by (simp add: assms(4) persist_current_def store_env_def persist_start_def n Let_def publish_durability_store
        publish_durability_state store_then_state taken_over_def del: persist_loop.simps)
  then have c': "c' = publish_durability panics Superseded
      (?d\<lparr>pc_generation := pc_generation ?d + 1, pc_state := (pc_state ?d)\<lparr>pp_superseded := True\<rparr>,
         pc_store := ?run (?run (pc_store c)), pc_completed := max (pc_completed ?d) (pc_requested c + 1)\<rparr>)"
    using loop_superseded [of ?d "store_env enc ops" "?run (?run (pc_store c))"] assms(1) fenced [OF fenced]
    by (auto simp: store_env_def taken_over_def)
  have "durability_edge (core_durability ?d) Superseded \<or> core_durability ?d = Superseded"
    by (auto simp: durability_edge_def durability_blocked_def core_durability_start)
  then show ?thesis
    using assms(1) fenced [OF fenced]
    by (auto simp: c' taken_over_def core_durability_publish max_def le_SucI)
qed

section \<open>Properties\<close>



text \<open>
  Observation. Saving is bounded. Whatever other tasks do between the attempts, a call makes at
  most the configured number of attempts, sleeps only between them, and its delays are the
  initial one doubled each time and cut at the maximum, which no delay exceeds.
\<close>

theorem persist_attempts_bounded:
  fixes policy :: retry_policy
  assumes "policy = retry_policy_new attempts initial maximum" and "\<And>c. pc_sleeps (others c) = pc_sleeps c"
  shows "\<exists>k < rp_attempts policy.
      pc_sleeps (persist_current policy others panics enc now m c) =
        pc_sleeps c @ map (\<lambda>j. min (initial * 2 ^ j) (rp_max policy)) [0 ..< k]"
proof -
  have le: "rp_initial policy \<le> rp_max policy" "rp_initial policy = initial" "0 < rp_attempts policy"
    by (simp_all add: assms(1) retry_policy_new_def)
  define c1 where "c1 = c\<lparr>pc_requested := pc_requested c + 1\<rparr>"
  define c3 where "c3 = others (if core_durability c1 \<noteq> Saving then publish_durability panics Unsaved c1 else c1)"
  define c4 where "c4 = publish_durability panics Saving (c3\<lparr>pc_state := mark_dirty (pc_state c3)\<rparr>)"
  have kept: "pc_sleeps c3 = pc_sleeps c" "pc_sleeps c4 = pc_sleeps c"
    by (simp_all add: c4_def c3_def c1_def assms(2))
  have "persist_current policy others panics enc now m c =
      (if pc_completed c3 \<ge> pc_requested c + 1 then c3
       else persist_loop (rp_attempts policy) others panics enc now m (rp_max policy) (pc_requested c4) (rp_initial policy) c4)"
    by (simp add: persist_current_def Let_def c1_def c3_def c4_def)
  moreover obtain k where "k \<le> rp_attempts policy - 1"
    "pc_sleeps (persist_loop (rp_attempts policy) others panics enc now m (rp_max policy) (pc_requested c4) initial c4) =
      pc_sleeps c @ map (\<lambda>j. min (initial * 2 ^ j) (rp_max policy)) [0 ..< k]"
    using persist_loop_sleeps [OF assms(2) le(1), of "rp_attempts policy" panics enc now m "pc_requested c4" c4] le(2) kept
    by auto
  ultimately show ?thesis
    using le kept by (cases "pc_completed c3 \<ge> pc_requested c + 1") (auto intro: exI [of _ 0] exI [of _ k])
qed

theorem persist_attempts_bounded_witness:
  "\<forall>c. \<exists>k < 3. pc_sleeps (persist_current (retry_policy_new 3 10 25) (\<lambda>c. c\<lparr>pc_generation := 0\<rparr>)
        (\<lambda>_ _ _. False) (\<lambda>_. None) 0 0 c) = pc_sleeps c @ map (\<lambda>j. min (10 * 2 ^ j) 25) [0 ..< k]"
proof
  fix c
  have "\<exists>k < rp_attempts (retry_policy_new 3 10 25).
      pc_sleeps (persist_current (retry_policy_new 3 10 25) (\<lambda>c. c\<lparr>pc_generation := 0\<rparr>) (\<lambda>_ _ _. False) (\<lambda>_. None) 0 0 c) =
        pc_sleeps c @ map (\<lambda>j. min (10 * 2 ^ j) (rp_max (retry_policy_new 3 10 25))) [0 ..< k]"
    by (rule persist_attempts_bounded [OF refl]) simp
  then show "\<exists>k < 3. pc_sleeps (persist_current (retry_policy_new 3 10 25) (\<lambda>c. c\<lparr>pc_generation := 0\<rparr>)
        (\<lambda>_ _ _. False) (\<lambda>_. None) 0 0 c) = pc_sleeps c @ map (\<lambda>j. min (10 * 2 ^ j) 25) [0 ..< k]"
    by (simp add: retry_policy_new_def)
qed

text \<open>
  Property C35. A takeover is final. If another runtime has claimed the session and other tasks
  keep using the store without minting this writer's epoch, then persisting publishes
  \<open>Superseded\<close>, reports that health, writes nothing of its own, and every later call does the same;
  a deletion is refused.
\<close>

theorem superseded_core_stops:
  assumes "taken_over c" and "\<forall>op \<in> set ops. \<not> mints op (wr_epoch (pc_writer c))" and "0 < rp_attempts policy"
    and "c' = ((persist_current policy (store_env enc ops) panics enc now m) ^^ Suc n) c"
  shows "core_durability c' = Superseded \<and> core_health c' = HealthSuperseded
    \<and> pc_store c' = ((fold (store_step enc) ops) ^^ (2 * Suc n)) (pc_store c)
    \<and> delete_persisted c' = (Inr False, c')"
proof -
  have "taken_over c' \<and> pp_superseded (pc_state c') \<and> core_durability c' = Superseded
      \<and> pc_completed c' = pc_requested c' \<and> pc_writer c' = pc_writer c
      \<and> pc_store c' = ((fold (store_step enc) ops) ^^ (2 * Suc n)) (pc_store c)"
    unfolding assms(4)
  proof (induction n)
    case 0
    show ?case using superseded_step [OF assms(1-3) refl, where enc = enc and panics = panics and now = now and m = m] by (simp add: numeral_2_eq_2)
  next
    case (Suc n)
    let ?d = "((persist_current policy (store_env enc ops) panics enc now m) ^^ Suc n) c"
    have "taken_over ?d" "\<forall>op \<in> set ops. \<not> mints op (wr_epoch (pc_writer ?d))"
      using Suc assms(2) by simp_all
    from superseded_step [OF this assms(3) refl, where enc = enc and panics = panics and now = now and m = m] Suc
    show ?case by (simp del: funpow.simps add: funpow.simps(2) [of "Suc n"]) simp
  qed
  then show ?thesis
    by (simp add: core_health_def health_def taken_over_def delete_persisted_def delete_def)
qed

theorem superseded_core_stops_witness:
  "\<exists>c c' :: persist_core. active_epoch (pc_store c) ''s'' = Some ''f'' \<and> core_durability c = Saved
    \<and> c' = ((persist_current (retry_policy_new 1 0 0) (store_env (\<lambda>_. None) [SClaim ''g'' ''s'' None]) (\<lambda>_ _ _. False)
              (\<lambda>_. None) 9 0) ^^ Suc 1) c
    \<and> core_durability c' = Superseded \<and> delete_persisted c' = (Inr False, c')"
proof -
  define c :: persist_core where "c =
    \<lparr>pc_state = persistence_state_default,
     pc_store = \<lparr>db_sessions = [], db_writers = [(''s'', ''f'')], db_schema = 1, db_available = True\<rparr>,
     pc_writer = \<lparr>wr_session = ''s'', wr_epoch = ''e''\<rparr>, pc_generation = 1, pc_requested = 0, pc_completed = 0,
     pc_durability = 0, pc_router = router_new None,
     pc_body = \<lparr>ps_version = 1, ps_generation = 0, ps_session_id = ''s'', ps_model = ''m'', ps_thinking = None,
         ps_cwd = None, ps_client_ids = [], ps_outcomes = [], ps_messages = []\<rparr>, pc_sleeps = []\<rparr>"
  let ?op = "SClaim ''g'' ''s'' None"
  define c' where "c' = ((persist_current (retry_policy_new 1 0 0) (store_env (\<lambda>_. None) [?op]) (\<lambda>_ _ _. False)
              (\<lambda>_. None) 9 0) ^^ Suc 1) c"
  have "valid_id ''s''" by code_simp
  then have "taken_over c"
    by (simp add: taken_over_def c_def persistence_state_default_def connection_def active_epoch_def
        session_store_schema_version_def)
  moreover have "\<forall>op \<in> set [?op]. \<not> mints op (wr_epoch (pc_writer c))" by (simp add: c_def)
  moreover have "0 < rp_attempts (retry_policy_new 1 0 0)" by (simp add: retry_policy_new_def)
  ultimately have "core_durability c' = Superseded \<and> delete_persisted c' = (Inr False, c')"
    using superseded_core_stops [OF _ _ _ c'_def] by blast
  then show ?thesis
    by (intro exI [of _ c] exI [of _ c'])
      (simp add: c'_def, simp add: c_def active_epoch_def core_durability_def durability_status_from_code_def)
qed



end
