(* ===== verification/Text_More.thy ===== *)
theory Text_More
  imports Text_Lib
begin

text \<open>
  More of the string library that the sources use, over byte strings: splitting at and replacing
  a non-empty pattern (str::split, str::split_once, str::replace), searching (str::contains,
  str::find, str::rfind), joining, and the characters of a UTF-8 string (str::chars) as the list of their encodings.
\<close>

section \<open>Patterns\<close>

function split_from :: "string \<Rightarrow> string \<Rightarrow> string \<Rightarrow> string list" where
  "split_from pat acc s =
     (if s = [] then [acc]
      else if pat \<noteq> [] \<and> starts_with pat s then acc # split_from pat [] (drop (length pat) s)
      else split_from pat (acc @ [hd s]) (tl s))"
  by pat_completeness auto

termination
  by (relation "measure (\<lambda>(pat, acc, s). length s)") auto

declare split_from.simps [simp del]

definition split_str :: "string \<Rightarrow> string \<Rightarrow> string list" where
  "split_str pat s = split_from pat [] s"

definition show_int :: "int \<Rightarrow> string" where
  "show_int n = (if n < 0 then ''-'' @ show_nat (nat (- n)) else show_nat (nat n))"

definition ascii_alphanumeric :: "char \<Rightarrow> bool" where
  "ascii_alphanumeric c = (let n = of_char c :: nat in 48 \<le> n \<and> n \<le> 57 \<or> 65 \<le> n \<and> n \<le> 90 \<or> 97 \<le> n \<and> n \<le> 122)"

fun join :: "string \<Rightarrow> string list \<Rightarrow> string" where
  "join sep [] = []"
| "join sep [x] = x"
| "join sep (x # y # xs) = x @ sep @ join sep (y # xs)"

definition replace_str :: "string \<Rightarrow> string \<Rightarrow> string \<Rightarrow> string" where
  "replace_str pat new s = join new (split_str pat s)"

fun find_str :: "string \<Rightarrow> string \<Rightarrow> nat option" where
  "find_str pat [] = (if pat = [] then Some 0 else None)"
| "find_str pat (c # cs) =
     (if starts_with pat (c # cs) then Some 0 else map_option Suc (find_str pat cs))"

definition rfind_str :: "string \<Rightarrow> string \<Rightarrow> nat option" where
  "rfind_str pat s = List.find (\<lambda>i. starts_with pat (drop i s)) (rev [0 ..< length s + 1])"

definition contains_str :: "string \<Rightarrow> string \<Rightarrow> bool" where
  "contains_str pat s \<longleftrightarrow> find_str pat s \<noteq> None"

definition split_once_str :: "string \<Rightarrow> string \<Rightarrow> (string \<times> string) option" where
  "split_once_str pat s = map_option (\<lambda>i. (take i s, drop (i + length pat) s)) (find_str pat s)"

section \<open>Characters\<close>

function chars :: "string \<Rightarrow> string list" where
  "chars [] = []"
| "chars (c # cs) = (c # takeWhile is_continuation cs) # chars (dropWhile is_continuation cs)"
  by pat_completeness auto

termination
  by (relation "measure length") (auto simp: less_Suc_eq_le length_dropWhile_le)

definition ends_with :: "string \<Rightarrow> string \<Rightarrow> bool" where
  "ends_with suf s \<longleftrightarrow> length suf \<le> length s \<and> drop (length s - length suf) s = suf"

section \<open>Laws\<close>

lemma join_Cons: "join sep (x # xs) = x @ (if xs = [] then [] else sep @ join sep xs)"
  by (cases xs) simp_all

lemma split_from_nonempty [simp]: "split_from pat acc s \<noteq> []"
proof (induction pat acc s rule: split_from.induct)
  case (1 pat acc s)
  then show ?case by (subst split_from.simps) auto
qed

text \<open>Joining the pieces with the pattern gives the text back.\<close>

lemma join_split_from: "join pat (split_from pat acc s) = acc @ s"
proof (induction pat acc s rule: split_from.induct)
  case (1 pat acc s)
  show ?case
  proof (cases "s = []")
    case False
    note s = this
    show ?thesis
    proof (cases "pat \<noteq> [] \<and> starts_with pat s")
      case True
      have "pat @ drop (length pat) s = s"
        using True by (metis append_take_drop_id starts_with_def)
      with 1(1) [OF s True] s True show ?thesis
        by (subst split_from.simps) (simp add: join_Cons)
    next
      case False
      with 1(2) [OF s False] s show ?thesis by (subst split_from.simps) auto
    qed
  qed (simp add: split_from.simps)
qed

lemma replace_self: "replace_str pat pat s = s"
  by (simp add: replace_str_def split_str_def join_split_from)

lemma find_str_Some:
  "find_str pat s = Some i \<Longrightarrow> i + length pat \<le> length s \<and> s = take i s @ pat @ drop (i + length pat) s"
proof (induction s arbitrary: i)
  case (Cons c cs)
  show ?case
  proof (cases "starts_with pat (c # cs)")
    case True
    with Cons.prems have "i = 0" by simp
    moreover have "length pat \<le> length (c # cs)" "(c # cs) = pat @ drop (length pat) (c # cs)"
      using True by (metis length_take min_def nat_le_linear starts_with_def, metis append_take_drop_id starts_with_def True)
    ultimately show ?thesis by simp
  next
    case False
    with Cons.prems obtain j where "find_str pat cs = Some j" "i = Suc j" by auto
    with Cons.IH show ?thesis by simp
  qed
qed (simp split: if_splits)

lemma contains_str_iff: "contains_str pat s \<longleftrightarrow> (\<exists>a b. s = a @ pat @ b)"
proof
  assume "contains_str pat s"
  then show "\<exists>a b. s = a @ pat @ b"
    unfolding contains_str_def using find_str_Some by (metis option.exhaust)
next
  assume "\<exists>a b. s = a @ pat @ b"
  then obtain a b where s: "s = a @ pat @ b" by blast
  have "find_str pat (a @ pat @ b) \<noteq> None"
  proof (induction a)
    case Nil
    have "starts_with pat (pat @ b)" by simp
    then show ?case by (cases "pat @ b") auto
  qed auto
  with s show "contains_str pat s" by (simp add: contains_str_def)
qed

lemma concat_chars [simp]: "concat (chars s) = s"
  by (induction s rule: chars.induct) simp_all

lemma chars_le: "length (chars s) \<le> length s"
proof (induction s rule: chars.induct)
  case (2 c cs)
  then show ?case using length_dropWhile_le [of is_continuation cs] by simp
qed simp

end
