(* ===== verification/Remote_Auth.thy ===== *)
theory Remote_Auth
  imports Protocol Text_More "HOL-Library.AList" "HOL-Library.List_Lexorder" "HOL-Library.Char_ord"
begin

text \<open>
  The pairing authority of the remote gateway (src/src/remote_auth.rs): single-use claims, pairing
  requests, their approval, the tickets and their revocation. Cryptography is outside: decoding a
  public key, the digest that names a device and the verification of a signature are arguments,
  and so are the random secrets and identifiers that an operation draws and the time it reads.
  The hash maps are association lists. Of the notifiers the model keeps the devices that have one and
  the devices that have been signalled.
\<close>

section \<open>State\<close>

record pending_pairing =
  pr_id :: string
  pr_device :: string
  pr_fingerprint :: string
  pr_label :: string
  pr_requested :: "client_capability list"

record ticket_grant =
  tg_ticket :: string
  tg_device :: string
  tg_capabilities :: "client_capability list"

record 'k ticket_state =
  tk_device :: string
  tk_label :: string
  tk_key :: 'k
  tk_capabilities :: "client_capability list"

record authenticated_device =
  ad_device :: string
  ad_label :: string
  ad_capabilities :: "client_capability list"

datatype auth_error =
    UnknownClaim | ExpiredClaim | InvalidDeviceKey | PairingNotFound | PairingAlreadyResolved
  | CapabilitiesNotRequested | UnknownTicket | DeviceKeyMismatch | InvalidSignature | DeviceLimitReached

datatype 'k pairing_resolution = PairingPending | PairingApproved ticket_grant "'k ticket_state" | PairingDenied

record 'k pending_state =
  pd_request :: pending_pairing
  pd_key :: 'k
  pd_resolution :: "'k pairing_resolution"

record 'k authority =
  au_claims :: "(string \<times> nat) list"
  au_pending :: "(string \<times> 'k pending_state) list"
  au_tickets :: "(string \<times> 'k ticket_state) list"
  au_notifiers :: "string list"
  au_signalled :: "string list"
  au_claim_ttl :: nat
  au_max_devices :: nat

definition authority_new :: "nat \<Rightarrow> nat \<Rightarrow> 'k authority" where
  "authority_new claim_ttl max_devices =
     \<lparr>au_claims = [], au_pending = [], au_tickets = [], au_notifiers = [], au_signalled = [],
      au_claim_ttl = claim_ttl, au_max_devices = max_devices\<rparr>"

section \<open>Helpers\<close>

definition deduplicate_capabilities :: "client_capability list \<Rightarrow> client_capability list" where
  "deduplicate_capabilities capabilities =
     fold (\<lambda>c acc. if c \<in> set acc then acc else acc @ [c]) capabilities []"

fun chunks4 :: "string \<Rightarrow> string list" where
  "chunks4 (a # b # c # d # s) = [a, b, c, d] # chunks4 s"
| "chunks4 [] = []"
| "chunks4 s = [s]"

definition display_fingerprint :: "string \<Rightarrow> string" where
  "display_fingerprint device = join '':'' (take 8 (chunks4 device))"

definition auth_domain :: string where
  "auth_domain = ''daimonos-remote-v2'' @ [CHR 0x00]"

definition auth_message :: "string \<Rightarrow> string \<Rightarrow> string" where
  "auth_message challenge ticket = auth_domain @ challenge @ [CHR 0x00] @ ticket"

section \<open>Operations\<close>

definition create_claim_at :: "string \<Rightarrow> nat \<Rightarrow> 'k authority \<Rightarrow> (string \<times> nat) \<times> 'k authority" where
  "create_claim_at secret now a =
     ((secret, au_claim_ttl a),
      a\<lparr>au_claims := AList.update secret (now + au_claim_ttl a) (filter (\<lambda>(_, expires). expires > now) (au_claims a))\<rparr>)"

definition submit_pairing_at ::
  "(string \<Rightarrow> 'k option) \<Rightarrow> ('k \<Rightarrow> string) \<Rightarrow> string \<Rightarrow> string \<Rightarrow> string \<Rightarrow> client_capability list \<Rightarrow> nat \<Rightarrow> string
    \<Rightarrow> 'k authority \<Rightarrow> (auth_error + pending_pairing) \<times> 'k authority" where
  "submit_pairing_at decode_key digest claim public_key label requested now pairing_id a =
     (case decode_key public_key of
        None \<Rightarrow> (Inl InvalidDeviceKey, a)
      | Some key \<Rightarrow>
          (case map_of (au_claims a) claim of
             None \<Rightarrow> (Inl UnknownClaim, a)
           | Some expires \<Rightarrow>
               (let a1 = a\<lparr>au_claims := AList.delete claim (au_claims a)\<rparr> in
                if expires \<le> now then (Inl ExpiredClaim, a1)
                else
                  (let request = \<lparr>pr_id = pairing_id, pr_device = digest key,
                         pr_fingerprint = display_fingerprint (digest key), pr_label = label,
                         pr_requested = deduplicate_capabilities requested\<rparr>
                   in (Inr request,
                       a1\<lparr>au_pending := AList.update pairing_id
                            \<lparr>pd_request = request, pd_key = key, pd_resolution = PairingPending\<rparr> (au_pending a1)\<rparr>)))))"

definition pending_pairings :: "'k authority \<Rightarrow> pending_pairing list" where
  "pending_pairings a =
     sort_key pr_id (map (pd_request \<circ> snd)
       (filter (\<lambda>(_, p). case pd_resolution p of PairingPending \<Rightarrow> True | _ \<Rightarrow> False) (au_pending a)))"

fun is_approved :: "'k pairing_resolution \<Rightarrow> bool" where
  "is_approved (PairingApproved _ _) = True"
| "is_approved _ = False"

definition known_devices :: "'k authority \<Rightarrow> string list" where
  "known_devices a =
     remdups (au_notifiers a
       @ map (pr_device \<circ> pd_request \<circ> snd) (filter (\<lambda>(_, p). is_approved (pd_resolution p)) (au_pending a)))"

definition approve :: "string \<Rightarrow> client_capability list \<Rightarrow> string \<Rightarrow> 'k authority \<Rightarrow> (auth_error + ticket_grant) \<times> 'k authority" where
  "approve pairing_id capabilities secret a =
     (case map_of (au_pending a) pairing_id of
        None \<Rightarrow> (Inl PairingNotFound, a)
      | Some pending \<Rightarrow>
          (let device = pr_device (pd_request pending) in
           if device \<notin> set (known_devices a) \<and> length (known_devices a) \<ge> au_max_devices a
           then (Inl DeviceLimitReached, a)
           else if pd_resolution pending \<noteq> PairingPending then (Inl PairingAlreadyResolved, a)
           else
             (let granted = deduplicate_capabilities capabilities in
              if list_ex (\<lambda>c. c \<notin> set (pr_requested (pd_request pending))) granted then (Inl CapabilitiesNotRequested, a)
              else
                (let grant = \<lparr>tg_ticket = secret, tg_device = device, tg_capabilities = granted\<rparr>;
                     ticket = \<lparr>tk_device = device, tk_label = pr_label (pd_request pending), tk_key = pd_key pending,
                               tk_capabilities = granted\<rparr>
                 in (Inr grant,
                     a\<lparr>au_pending := AList.update pairing_id
                          (pending\<lparr>pd_resolution := PairingApproved grant ticket\<rparr>) (au_pending a)\<rparr>)))))"

definition deny :: "string \<Rightarrow> 'k authority \<Rightarrow> (auth_error + unit) \<times> 'k authority" where
  "deny pairing_id a =
     (case map_of (au_pending a) pairing_id of
        None \<Rightarrow> (Inl PairingNotFound, a)
      | Some pending \<Rightarrow>
          if pd_resolution pending \<noteq> PairingPending then (Inl PairingAlreadyResolved, a)
          else (Inr (), a\<lparr>au_pending := AList.update pairing_id
                  (pending\<lparr>pd_resolution := PairingDenied\<rparr>) (au_pending a)\<rparr>))"

definition pairing_grant :: "string \<Rightarrow> 'k authority \<Rightarrow> auth_error + ticket_grant option" where
  "pairing_grant pairing_id a =
     (case map_of (au_pending a) pairing_id of
        None \<Rightarrow> Inl PairingNotFound
      | Some pending \<Rightarrow>
          (case pd_resolution pending of
             PairingPending \<Rightarrow> Inr None
           | PairingApproved grant _ \<Rightarrow> Inr (Some grant)
           | PairingDenied \<Rightarrow> Inl PairingAlreadyResolved))"

definition remove_notifier :: "string \<Rightarrow> 'k authority \<Rightarrow> 'k authority" where
  "remove_notifier device a =
     (if device \<in> set (au_notifiers a)
      then a\<lparr>au_notifiers := removeAll device (au_notifiers a), au_signalled := au_signalled a @ [device]\<rparr>
      else a)"

definition ensure_notifier :: "string \<Rightarrow> 'k authority \<Rightarrow> 'k authority" where
  "ensure_notifier device a =
     (if device \<in> set (au_notifiers a) then a else a\<lparr>au_notifiers := au_notifiers a @ [device]\<rparr>)"

definition finish_pairing :: "string \<Rightarrow> 'k authority \<Rightarrow> 'k authority" where
  "finish_pairing pairing_id a =
     (case map_of (au_pending a) pairing_id of
        None \<Rightarrow> a
      | Some pending \<Rightarrow>
          (let a1 = a\<lparr>au_pending := AList.delete pairing_id (au_pending a)\<rparr> in
           case pd_resolution pending of
             PairingApproved grant ticket \<Rightarrow>
               (let replaces_existing =
                      list_ex (\<lambda>(t, s). t \<noteq> tg_ticket grant \<and> tk_device s = tg_device grant) (au_tickets a1);
                    a2 = (if replaces_existing
                          then (let b = remove_notifier (tg_device grant) a1
                                in ensure_notifier (tg_device grant)
                                     (b\<lparr>au_tickets := filter (\<lambda>(_, s). tk_device s \<noteq> tg_device grant) (au_tickets b)\<rparr>))
                          else ensure_notifier (tg_device grant) a1)
                in a2\<lparr>au_tickets := AList.update (tg_ticket grant) ticket (au_tickets a2)\<rparr>)
           | _ \<Rightarrow> a1))"

definition abort_pairing :: "string \<Rightarrow> 'k authority \<Rightarrow> 'k authority" where
  "abort_pairing pairing_id a = a\<lparr>au_pending := AList.delete pairing_id (au_pending a)\<rparr>"

definition authenticate ::
  "(string \<Rightarrow> 'k option) \<Rightarrow> ('k \<Rightarrow> string \<Rightarrow> string \<Rightarrow> bool) \<Rightarrow> string \<Rightarrow> string \<Rightarrow> string \<Rightarrow> string
    \<Rightarrow> 'k authority \<Rightarrow> auth_error + authenticated_device" where
  "authenticate decode_key verify ticket public_key challenge signature a =
     (case decode_key public_key of
        None \<Rightarrow> Inl InvalidDeviceKey
      | Some key \<Rightarrow>
          (case map_of (au_tickets a) ticket of
             None \<Rightarrow> Inl UnknownTicket
           | Some s \<Rightarrow>
               if tk_key s \<noteq> key then Inl DeviceKeyMismatch
               else if \<not> verify key (auth_message challenge ticket) signature then Inl InvalidSignature
               else Inr \<lparr>ad_device = tk_device s, ad_label = tk_label s, ad_capabilities = tk_capabilities s\<rparr>))"

definition revoke_device :: "string \<Rightarrow> 'k authority \<Rightarrow> bool \<times> 'k authority" where
  "revoke_device device a =
     (let kept = filter (\<lambda>(_, s). tk_device s \<noteq> device) (au_tickets a);
          a1 = remove_notifier device (a\<lparr>au_tickets := kept\<rparr>)
      in (length kept \<noteq> length (au_tickets a), a1))"

section \<open>Runs\<close>

datatype auth_op =
    OpClaim string nat
  | OpSubmit string string string "client_capability list" nat string
  | OpApprove string "client_capability list" string
  | OpDeny string
  | OpFinish string
  | OpAbort string
  | OpRevoke string

fun auth_step :: "(string \<Rightarrow> 'k option) \<Rightarrow> ('k \<Rightarrow> string) \<Rightarrow> auth_op \<Rightarrow> 'k authority \<Rightarrow> 'k authority" where
  "auth_step dk dg (OpClaim secret now) a = snd (create_claim_at secret now a)"
| "auth_step dk dg (OpSubmit claim key label requested now pid) a =
     snd (submit_pairing_at dk dg claim key label requested now pid a)"
| "auth_step dk dg (OpApprove pid capabilities secret) a = snd (approve pid capabilities secret a)"
| "auth_step dk dg (OpDeny pid) a = snd (deny pid a)"
| "auth_step dk dg (OpFinish pid) a = finish_pairing pid a"
| "auth_step dk dg (OpAbort pid) a = abort_pairing pid a"
| "auth_step dk dg (OpRevoke device) a = snd (revoke_device device a)"

abbreviation auth_run :: "(string \<Rightarrow> 'k option) \<Rightarrow> ('k \<Rightarrow> string) \<Rightarrow> nat \<Rightarrow> nat \<Rightarrow> auth_op list \<Rightarrow> 'k authority" where
  "auth_run dk dg ttl n ops \<equiv> fold (auth_step dk dg) ops (authority_new ttl n)"

lemma deduplicate_set [simp]: "set (deduplicate_capabilities cs) = set cs"
proof -
  have "set (fold (\<lambda>c acc. if c \<in> set acc then acc else acc @ [c]) cs acc) = set cs \<union> set acc" for acc :: "client_capability list"
    by (induction cs arbitrary: acc) auto
  then show ?thesis by (simp add: deduplicate_capabilities_def)
qed

lemma notifier_fields [simp]:
  "au_pending (remove_notifier device a) = au_pending a" "au_pending (ensure_notifier device a) = au_pending a"
  "au_tickets (remove_notifier device a) = au_tickets a" "au_tickets (ensure_notifier device a) = au_tickets a"
  "au_claims (remove_notifier device a) = au_claims a" "au_claims (ensure_notifier device a) = au_claims a"
  "au_max_devices (remove_notifier device a) = au_max_devices a" "au_max_devices (ensure_notifier device a) = au_max_devices a"
  by (simp_all add: remove_notifier_def ensure_notifier_def)

lemma notifier_set [simp]:
  "set (au_notifiers (remove_notifier device a)) = set (au_notifiers a) - {device}"
  "set (au_notifiers (ensure_notifier device a)) = insert device (set (au_notifiers a))"
  by (auto simp: remove_notifier_def ensure_notifier_def)

section \<open>Where tickets come from\<close>

text \<open>The operations that led to a pending pairing, and to a ticket.\<close>

definition pairing_story ::
  "(string \<Rightarrow> 'k option) \<Rightarrow> ('k \<Rightarrow> string) \<Rightarrow> nat \<Rightarrow> nat \<Rightarrow> auth_op list \<Rightarrow> string \<Rightarrow> 'k pending_state \<Rightarrow> bool" where
  "pairing_story dk dg ttl n ops pid p \<longleftrightarrow>
     (\<exists>pre post claim ktext label req now expires.
        ops = pre @ OpSubmit claim ktext label req now pid # post
        \<and> dk ktext = Some (pd_key p)
        \<and> map_of (au_claims (auth_run dk dg ttl n pre)) claim = Some expires \<and> now < expires
        \<and> pr_device (pd_request p) = dg (pd_key p) \<and> set (pr_requested (pd_request p)) = set req
        \<and> (\<forall>grant ticket. pd_resolution p = PairingApproved grant ticket \<longrightarrow>
             (\<exists>b c caps. post = b @ OpApprove pid caps (tg_ticket grant) # c
                \<and> tk_key ticket = pd_key p \<and> tk_device ticket = dg (pd_key p) \<and> tg_device grant = dg (pd_key p)
                \<and> set (tk_capabilities ticket) \<subseteq> set caps \<inter> set req)))"

lemma pairing_story_snoc:
  "pairing_story dk dg ttl n ops pid p \<Longrightarrow> pairing_story dk dg ttl n (ops @ [op]) pid p"
proof -
  assume "pairing_story dk dg ttl n ops pid p"
  then obtain pre post claim ktext label req now expires where
    st: "ops = pre @ OpSubmit claim ktext label req now pid # post"
      "dk ktext = Some (pd_key p)"
      "map_of (au_claims (auth_run dk dg ttl n pre)) claim = Some expires" "now < expires"
      "pr_device (pd_request p) = dg (pd_key p)" "set (pr_requested (pd_request p)) = set req"
    and ap: "\<And>grant ticket. pd_resolution p = PairingApproved grant ticket \<Longrightarrow>
             (\<exists>b c caps. post = b @ OpApprove pid caps (tg_ticket grant) # c
                \<and> tk_key ticket = pd_key p \<and> tk_device ticket = dg (pd_key p) \<and> tg_device grant = dg (pd_key p)
                \<and> set (tk_capabilities ticket) \<subseteq> set caps \<inter> set req)"
    unfolding pairing_story_def by blast
  have "\<exists>b c caps. post @ [op] = b @ OpApprove pid caps (tg_ticket grant) # c
      \<and> tk_key ticket = pd_key p \<and> tk_device ticket = dg (pd_key p) \<and> tg_device grant = dg (pd_key p)
      \<and> set (tk_capabilities ticket) \<subseteq> set caps \<inter> set req"
    if res: "pd_resolution p = PairingApproved grant ticket" for grant ticket
    using ap [OF res] by (metis append.assoc append_Cons)
  with st show ?thesis
    unfolding pairing_story_def
    by (intro exI [of _ pre] exI [of _ "post @ [op]"] exI [of _ claim] exI [of _ ktext] exI [of _ label] exI [of _ req]
        exI [of _ now] exI [of _ expires]) simp
qed

lemma pairing_story_unapproved:
  assumes "pairing_story dk dg ttl n ops pid q" and "pd_request p = pd_request q" and "pd_key p = pd_key q"
    and "\<not> is_approved (pd_resolution p)"
  shows "pairing_story dk dg ttl n ops pid p"
proof -
  from assms(1) obtain pre post claim ktext label req now expires where
    "ops = pre @ OpSubmit claim ktext label req now pid # post" "dk ktext = Some (pd_key q)"
    "map_of (au_claims (auth_run dk dg ttl n pre)) claim = Some expires" "now < expires"
    "pr_device (pd_request q) = dg (pd_key q)" "set (pr_requested (pd_request q)) = set req"
    unfolding pairing_story_def by blast
  with assms(2-4) show ?thesis
    unfolding pairing_story_def
    by (intro exI [of _ pre] exI [of _ post] exI [of _ claim] exI [of _ ktext]
        exI [of _ label] exI [of _ req] exI [of _ now] exI [of _ expires]) auto
qed

lemma pending_step:
  assumes "map_of (au_pending (auth_step dk dg op (auth_run dk dg ttl n ops))) pid = Some p"
    and IH: "\<And>pid p. map_of (au_pending (auth_run dk dg ttl n ops)) pid = Some p \<Longrightarrow> pairing_story dk dg ttl n ops pid p"
  shows "pairing_story dk dg ttl n (ops @ [op]) pid p"
proof (cases "map_of (au_pending (auth_run dk dg ttl n ops)) pid = Some p")
  case True
  then show ?thesis using IH pairing_story_snoc by blast
next
  case False
  let ?a = "auth_run dk dg ttl n ops"
  show ?thesis
  proof (cases op)
    case (OpSubmit claim ktext label req now pid')
    with False assms(1) obtain key expires where
      "pid' = pid" "dk ktext = Some key" "map_of (au_claims ?a) claim = Some expires" "now < expires"
      "p = \<lparr>pd_request = \<lparr>pr_id = pid, pr_device = dg key, pr_fingerprint = display_fingerprint (dg key), pr_label = label,
             pr_requested = deduplicate_capabilities req\<rparr>, pd_key = key, pd_resolution = PairingPending\<rparr>"
      by (auto simp: submit_pairing_at_def Let_def AList.update_conv' split: option.splits if_splits)
    with OpSubmit show ?thesis
      unfolding pairing_story_def
      by (intro exI [of _ ops] exI [of _ "[]"] exI [of _ claim] exI [of _ ktext] exI [of _ label] exI [of _ req]
          exI [of _ now] exI [of _ expires]) simp
  next
    case (OpApprove pid' caps secret)
    with False assms(1) obtain q where q: "pid' = pid" "map_of (au_pending ?a) pid = Some q"
      "\<forall>c \<in> set caps. c \<in> set (pr_requested (pd_request q))"
      "p = q\<lparr>pd_resolution := PairingApproved
          \<lparr>tg_ticket = secret, tg_device = pr_device (pd_request q), tg_capabilities = deduplicate_capabilities caps\<rparr>
          \<lparr>tk_device = pr_device (pd_request q), tk_label = pr_label (pd_request q), tk_key = pd_key q,
           tk_capabilities = deduplicate_capabilities caps\<rparr>\<rparr>"
      by (auto simp: approve_def Let_def AList.update_conv' list_ex_iff split: option.splits if_splits)
    from IH [OF q(2)] obtain pre post claim ktext label req now expires where
      st: "ops = pre @ OpSubmit claim ktext label req now pid # post" "dk ktext = Some (pd_key q)"
        "map_of (au_claims (auth_run dk dg ttl n pre)) claim = Some expires" "now < expires"
        "pr_device (pd_request q) = dg (pd_key q)" "set (pr_requested (pd_request q)) = set req"
      unfolding pairing_story_def by blast
    have sub: "set (deduplicate_capabilities caps) \<subseteq> set caps \<inter> set req" using q(3) st(6) by auto
    have "\<exists>b c caps'. post @ [op] = b @ OpApprove pid caps' (tg_ticket grant) # c
        \<and> tk_key ticket = pd_key p \<and> tk_device ticket = dg (pd_key p) \<and> tg_device grant = dg (pd_key p)
        \<and> set (tk_capabilities ticket) \<subseteq> set caps' \<inter> set req"
      if "pd_resolution p = PairingApproved grant ticket" for grant ticket
      using that q(1,4) st(5) sub OpApprove
      by (intro exI [of _ post] exI [of _ "[]"] exI [of _ caps]) auto
    with st q(4) show ?thesis
      unfolding pairing_story_def
      by (intro exI [of _ pre] exI [of _ "post @ [op]"] exI [of _ claim] exI [of _ ktext]
          exI [of _ label] exI [of _ req] exI [of _ now] exI [of _ expires]) simp
  next
    case (OpDeny pid')
    with False assms(1) obtain q where q: "pid' = pid" "map_of (au_pending ?a) pid = Some q" "p = q\<lparr>pd_resolution := PairingDenied\<rparr>"
      by (auto simp: deny_def AList.update_conv' split: option.splits if_splits)
    from pairing_story_snoc [OF IH [OF q(2)], of op] show ?thesis
      by (rule pairing_story_unapproved) (simp_all add: q(3))
  next
    case (OpFinish pid')
    with False assms(1) show ?thesis
      by (auto simp: finish_pairing_def Let_def AList.delete_conv' split: option.splits pairing_resolution.splits if_splits)
  next
    case (OpAbort pid')
    with False assms(1) show ?thesis by (auto simp: abort_pairing_def AList.delete_conv' split: if_splits)
  qed (use False assms(1) in \<open>auto simp: create_claim_at_def revoke_device_def Let_def\<close>)
qed

lemma pending_stories:
  "map_of (au_pending (auth_run dk dg ttl n ops)) pid = Some p \<Longrightarrow> pairing_story dk dg ttl n ops pid p"
proof (induction ops arbitrary: pid p rule: rev_induct)
  case (snoc op ops)
  then show ?case using pending_step [where dk = dk and dg = dg and ttl = ttl and n = n and ops = ops and op = op] by simp
qed (simp add: authority_new_def)

definition ticket_story ::
  "(string \<Rightarrow> 'k option) \<Rightarrow> ('k \<Rightarrow> string) \<Rightarrow> nat \<Rightarrow> nat \<Rightarrow> auth_op list \<Rightarrow> string \<Rightarrow> 'k ticket_state \<Rightarrow> bool" where
  "ticket_story dk dg ttl n ops t s \<longleftrightarrow>
     (\<exists>pre post pid p grant.
        ops = pre @ OpFinish pid # post \<and> pairing_story dk dg ttl n pre pid p
        \<and> pd_resolution p = PairingApproved grant s \<and> tg_ticket grant = t
        \<and> OpRevoke (tk_device s) \<notin> set post)"

lemma ticket_story_snoc:
  "ticket_story dk dg ttl n ops t s \<Longrightarrow> op \<noteq> OpRevoke (tk_device s) \<Longrightarrow> ticket_story dk dg ttl n (ops @ [op]) t s"
proof -
  assume "ticket_story dk dg ttl n ops t s" and op: "op \<noteq> OpRevoke (tk_device s)"
  then obtain pre post pid p grant where st: "ops = pre @ OpFinish pid # post" "pairing_story dk dg ttl n pre pid p"
    "pd_resolution p = PairingApproved grant s" "tg_ticket grant = t" "OpRevoke (tk_device s) \<notin> set post"
    unfolding ticket_story_def by blast
  then have "ops @ [op] = pre @ OpFinish pid # (post @ [op])" "OpRevoke (tk_device s) \<notin> set (post @ [op])"
    using op by simp_all
  with st(2-4) show ?thesis unfolding ticket_story_def by blast
qed

lemma map_of_filter_Some:
  "map_of (filter P xs) t = Some s \<Longrightarrow> distinct (map fst xs) \<Longrightarrow> map_of xs t = Some s"
  by (metis filter_is_subset map_of_SomeD map_of_is_SomeI subset_iff)

lemma finish_tickets:
  "au_tickets (finish_pairing pid a) =
     (case map_of (au_pending a) pid of
        Some p \<Rightarrow>
          (case pd_resolution p of
             PairingApproved grant ticket \<Rightarrow>
               AList.update (tg_ticket grant) ticket
                 (if list_ex (\<lambda>(t, s). t \<noteq> tg_ticket grant \<and> tk_device s = tg_device grant) (au_tickets a)
                  then filter (\<lambda>(_, s). tk_device s \<noteq> tg_device grant) (au_tickets a) else au_tickets a)
           | _ \<Rightarrow> au_tickets a)
      | None \<Rightarrow> au_tickets a)"
  by (simp add: finish_pairing_def Let_def split: option.split pairing_resolution.split)

lemma other_steps_tickets [simp]:
  "au_tickets (snd (create_claim_at secret now a)) = au_tickets a"
  "au_tickets (snd (submit_pairing_at dk dg claim key label req now pid a)) = au_tickets a"
  "au_tickets (snd (approve pid caps secret a)) = au_tickets a"
  "au_tickets (snd (deny pid a)) = au_tickets a"
  "au_tickets (abort_pairing pid a) = au_tickets a"
  "au_tickets (snd (revoke_device device a)) = filter (\<lambda>(_, s). tk_device s \<noteq> device) (au_tickets a)"
  by (simp_all add: create_claim_at_def submit_pairing_at_def approve_def deny_def abort_pairing_def revoke_device_def
      Let_def split: option.split)

lemma ticket_step:
  assumes "map_of (au_tickets (auth_step dk dg op a)) t = Some s" and "map_of (au_tickets a) t \<noteq> Some s"
    and "distinct (map fst (au_tickets a))"
  shows "\<exists>pid p grant. op = OpFinish pid \<and> map_of (au_pending a) pid = Some p
    \<and> pd_resolution p = PairingApproved grant s \<and> tg_ticket grant = t"
proof (cases op)
  case (OpFinish pid)
  with assms show ?thesis
    by (auto simp: finish_tickets AList.update_conv' dest: map_of_filter_Some
        split: option.splits pairing_resolution.splits if_splits)
next
  case (OpRevoke device)
  then have "map_of (filter (\<lambda>(_, s). tk_device s \<noteq> device) (au_tickets a)) t = Some s" using assms(1) by simp
  from map_of_filter_Some [OF this assms(3)] assms(2) show ?thesis by contradiction
qed (use assms(1,2) in simp_all)

lemma tickets_distinct: "distinct (map fst (au_tickets (auth_run dk dg ttl n ops)))"
proof (induction ops rule: rev_induct)
  case (snoc op ops)
  then show ?case
    by (cases op) (simp_all add: finish_tickets AList.distinct_update distinct_map_filter
        split: option.split pairing_resolution.split)
qed (simp add: authority_new_def)

lemma ticket_stories:
  "map_of (au_tickets (auth_run dk dg ttl n ops)) t = Some s \<Longrightarrow> ticket_story dk dg ttl n ops t s"
proof (induction ops arbitrary: t s rule: rev_induct)
  case (snoc op ops)
  let ?a = "auth_run dk dg ttl n ops"
  have now: "map_of (au_tickets (auth_step dk dg op ?a)) t = Some s" using snoc.prems by simp
  show ?case
  proof (cases "map_of (au_tickets ?a) t = Some s")
    case True
    have "op \<noteq> OpRevoke (tk_device s)"
    proof
      assume "op = OpRevoke (tk_device s)"
      with now have "map_of (filter (\<lambda>(_, s'). tk_device s' \<noteq> tk_device s) (au_tickets ?a)) t = Some s" by simp
      from map_of_SomeD [OF this] show False by simp
    qed
    with snoc.IH [OF True] ticket_story_snoc show ?thesis by blast
  next
    case False
    from ticket_step [OF now this tickets_distinct] obtain pid p grant where
      "op = OpFinish pid" "map_of (au_pending ?a) pid = Some p" "pd_resolution p = PairingApproved grant s" "tg_ticket grant = t"
      by blast
    then show ?thesis
      unfolding ticket_story_def using pending_stories [where dk = dk and dg = dg and n = n and ttl = ttl and ops = ops and pid = pid and p = p]
      by (intro exI [of _ ops] exI [of _ "[]"] exI [of _ pid] exI [of _ p] exI [of _ grant]) simp
  qed
qed (simp add: authority_new_def)

section \<open>Devices\<close>

definition known_set :: "'k authority \<Rightarrow> string set" where
  "known_set a = set (au_notifiers a) \<union>
     {pr_device (pd_request p) | pid p. (pid, p) \<in> set (au_pending a) \<and> is_approved (pd_resolution p)}"

lemma known_devices_set: "set (known_devices a) = known_set a"
  by (force simp: known_devices_def known_set_def)

lemma known_devices_length: "length (known_devices a) = card (known_set a)"
  using known_devices_set [of a] by (metis known_devices_def distinct_card distinct_remdups)

definition authority_wf :: "'k authority \<Rightarrow> bool" where
  "authority_wf a \<longleftrightarrow>
     distinct (map fst (au_pending a)) \<and> distinct (map fst (au_tickets a))
     \<and> distinct (map (tk_device \<circ> snd) (au_tickets a))
     \<and> (\<forall>(t, s) \<in> set (au_tickets a). tk_device s \<in> set (au_notifiers a))
     \<and> (\<forall>(pid, p) \<in> set (au_pending a). \<forall>grant ticket. pd_resolution p = PairingApproved grant ticket \<longrightarrow>
          tk_device ticket = pr_device (pd_request p) \<and> tg_device grant = pr_device (pd_request p))
     \<and> card (known_set a) \<le> au_max_devices a"

lemma finite_known [simp]: "finite (known_set a)"
  using known_devices_set [of a] by (metis List.finite_set)

lemma known_set_mono:
  assumes "set (au_notifiers b) \<subseteq> known_set a"
    and "\<And>pid p. (pid, p) \<in> set (au_pending b) \<Longrightarrow> is_approved (pd_resolution p) \<Longrightarrow> pr_device (pd_request p) \<in> known_set a"
  shows "known_set b \<subseteq> known_set a"
  using assms unfolding known_set_def [of b] by blast

lemma pending_in_known:
  "(pid, p) \<in> set (au_pending a) \<Longrightarrow> is_approved (pd_resolution p) \<Longrightarrow> pr_device (pd_request p) \<in> known_set a"
  by (auto simp: known_set_def)

lemma notifiers_in_known: "set (au_notifiers a) \<subseteq> known_set a"
  by (auto simp: known_set_def)

definition grants_match :: "'k pending_state \<Rightarrow> bool" where
  "grants_match p \<longleftrightarrow> (\<forall>grant ticket. pd_resolution p = PairingApproved grant ticket \<longrightarrow>
     tk_device ticket = pr_device (pd_request p) \<and> tg_device grant = pr_device (pd_request p))"

lemma authority_wf_iff:
  "authority_wf a \<longleftrightarrow>
     distinct (map fst (au_pending a)) \<and> distinct (map fst (au_tickets a))
     \<and> distinct (map (tk_device \<circ> snd) (au_tickets a))
     \<and> (\<forall>(t, s) \<in> set (au_tickets a). tk_device s \<in> set (au_notifiers a))
     \<and> (\<forall>(pid, p) \<in> set (au_pending a). grants_match p)
     \<and> card (known_set a) \<le> au_max_devices a"
  by (simp add: authority_wf_def grants_match_def)

lemma wf_pending_update:
  assumes "authority_wf a" and "grants_match q"
    and "is_approved (pd_resolution q) \<Longrightarrow> pr_device (pd_request q) \<in> known_set a \<or> card (known_set a) < au_max_devices a"
  shows "authority_wf (a\<lparr>au_claims := cl, au_pending := AList.update pid q (au_pending a)\<rparr>)"
proof -
  let ?b = "a\<lparr>au_claims := cl, au_pending := AList.update pid q (au_pending a)\<rparr>"
  have "known_set ?b \<subseteq> (if is_approved (pd_resolution q) then insert (pr_device (pd_request q)) (known_set a) else known_set a)"
    using set_update_subset [of pid q "au_pending a"] unfolding known_set_def by auto
  then have "card (known_set ?b) \<le>
      card (if is_approved (pd_resolution q) then insert (pr_device (pd_request q)) (known_set a) else known_set a)"
    by (rule card_mono [rotated]) simp
  also have "\<dots> \<le> au_max_devices a"
    using assms by (auto simp: authority_wf_def card_insert_if)
  finally have "card (known_set ?b) \<le> au_max_devices ?b" by simp
  moreover have "\<forall>(pid, p) \<in> set (au_pending ?b). grants_match p"
    using assms(1,2) set_update_subset [of pid q "au_pending a"] by (auto simp: authority_wf_iff)
  ultimately show ?thesis
    using assms(1) by (simp add: authority_wf_iff AList.distinct_update)
qed

lemma wf_pending_delete:
  assumes "authority_wf a"
  shows "authority_wf (a\<lparr>au_pending := AList.delete pid (au_pending a)\<rparr>)"
proof -
  let ?b = "a\<lparr>au_pending := AList.delete pid (au_pending a)\<rparr>"
  have "known_set ?b \<subseteq> known_set a"
    using set_delete_subset [of pid "au_pending a"] notifiers_in_known [of a] pending_in_known [where a = a]
    by (intro known_set_mono) auto
  then have "card (known_set ?b) \<le> card (known_set a)" by (rule card_mono [rotated]) simp
  with assms set_delete_subset [of pid "au_pending a"] show ?thesis
    by (auto simp: authority_wf_iff AList.distinct_delete)
qed

lemma wf_submit: "authority_wf a \<Longrightarrow> authority_wf (snd (submit_pairing_at dk dg claim key label req now pid a))"
proof -
  assume wf: "authority_wf a"
  have "authority_wf (a\<lparr>au_claims := cl\<rparr>)" for cl
    using wf by (simp add: authority_wf_def known_set_def)
  with wf show ?thesis
    by (auto simp: submit_pairing_at_def Let_def grants_match_def
        split: option.split intro!: wf_pending_update)
qed

lemma wf_approve: "authority_wf a \<Longrightarrow> authority_wf (snd (approve pid caps secret a))"
proof -
  assume wf: "authority_wf a"
  have "a\<lparr>au_claims := au_claims a, au_pending := x\<rparr> = a\<lparr>au_pending := x\<rparr>" for x by simp
  with wf wf_pending_update [OF wf, where cl = "au_claims a"] show ?thesis
    by (auto simp: approve_def Let_def grants_match_def known_devices_set known_devices_length split: option.split)
qed

lemma wf_deny: "authority_wf a \<Longrightarrow> authority_wf (snd (deny pid a))"
  using wf_pending_update [where cl = "au_claims a" and a = a and q = "p\<lparr>pd_resolution := PairingDenied\<rparr>" for p]
  by (simp add: deny_def Let_def grants_match_def split: option.split)

lemma wf_revoke: "authority_wf a \<Longrightarrow> authority_wf (snd (revoke_device device a))"
proof -
  assume wf: "authority_wf a"
  let ?b = "snd (revoke_device device a)"
  have b: "au_pending ?b = au_pending a" "set (au_notifiers ?b) = set (au_notifiers a) - {device}" "au_max_devices ?b = au_max_devices a"
    by (simp_all add: revoke_device_def Let_def)
  have "known_set ?b \<subseteq> known_set a" using b by (auto simp: known_set_def)
  then have "card (known_set ?b) \<le> card (known_set a)" by (rule card_mono [rotated]) simp
  with wf b show ?thesis by (auto simp: authority_wf_iff distinct_map_filter)
qed

lemma finish_notifiers:
  "set (au_notifiers (finish_pairing pid a)) =
     (case map_of (au_pending a) pid of
        Some p \<Rightarrow> (case pd_resolution p of PairingApproved grant _ \<Rightarrow> insert (tg_device grant) (set (au_notifiers a))
                    | _ \<Rightarrow> set (au_notifiers a))
      | None \<Rightarrow> set (au_notifiers a))"
  by (auto simp: finish_pairing_def Let_def split: option.split pairing_resolution.split)

lemma finish_pending:
  "map_of (au_pending a) pid = Some p \<Longrightarrow> au_pending (finish_pairing pid a) = AList.delete pid (au_pending a)"
  "au_max_devices (finish_pairing pid a) = au_max_devices a"
  by (simp_all add: finish_pairing_def Let_def split: option.split pairing_resolution.split)

lemma update_distinct_devices:
  assumes "distinct (map fst xs)" and "distinct (map (f \<circ> snd) xs)" and "\<forall>(t, s) \<in> set xs. t \<noteq> k \<longrightarrow> f s \<noteq> f v"
  shows "distinct (map (f \<circ> snd) (AList.update k v xs))"
  using assms
proof (induction xs)
  case (Cons x xs)
  obtain j u where x: "x = (j, u)" by fastforce
  have "f u \<notin> (f \<circ> snd) ` set (AList.update k v xs)" if "j \<noteq> k"
    using that Cons.prems(2,3) set_update_subset [of k v xs] unfolding x by auto
  moreover have "f v \<notin> (f \<circ> snd) ` set xs" if "j = k"
    using that Cons.prems(1,3) unfolding x by force
  ultimately show ?case using Cons unfolding x by auto
qed simp

lemma finish_unapproved:
  "map_of (au_pending a) pid = None \<Longrightarrow> finish_pairing pid a = a"
  "map_of (au_pending a) pid = Some p \<Longrightarrow> \<not> is_approved (pd_resolution p) \<Longrightarrow> finish_pairing pid a = abort_pairing pid a"
  by (simp add: finish_pairing_def, cases "pd_resolution p", simp_all add: finish_pairing_def abort_pairing_def)

lemma wf_finish_approved:
  assumes wf: "authority_wf a" and p: "map_of (au_pending a) pid = Some p" "pd_resolution p = PairingApproved grant ticket"
  shows "authority_wf (finish_pairing pid a)"
proof -
  let ?b = "finish_pairing pid a" and ?d = "tg_device grant"
  define kept where "kept = (if list_ex (\<lambda>(t, s). t \<noteq> tg_ticket grant \<and> tk_device s = ?d) (au_tickets a)
    then filter (\<lambda>(_, s). tk_device s \<noteq> ?d) (au_tickets a) else au_tickets a)"
  have pin: "(pid, p) \<in> set (au_pending a)" using p(1) by (rule map_of_SomeD)
  with wf have "grants_match p" unfolding authority_wf_iff by blast
  with p(2) have d: "tk_device ticket = ?d" "pr_device (pd_request p) = ?d" unfolding grants_match_def by simp_all
  have dk: "?d \<in> known_set a" using pending_in_known [OF pin] p(2) d(2) by simp
  have tickets: "au_tickets ?b = AList.update (tg_ticket grant) ticket kept"
    using p by (simp add: finish_tickets kept_def)
  have kept: "distinct (map fst kept)" "distinct (map (tk_device \<circ> snd) kept)" "set kept \<subseteq> set (au_tickets a)"
    using wf unfolding kept_def authority_wf_def by (simp_all add: distinct_map_filter)
  have others: "\<forall>(t, s) \<in> set kept. t \<noteq> tg_ticket grant \<longrightarrow> tk_device s \<noteq> tk_device ticket"
    unfolding kept_def d(1) by (auto simp: list_ex_iff)
  have sub: "set (AList.update (tg_ticket grant) ticket kept) \<subseteq> insert (tg_ticket grant, ticket) (set (au_tickets a))"
    using set_update_subset [of "tg_ticket grant" ticket kept] kept(3) by blast
  have notif: "set (au_notifiers ?b) = insert ?d (set (au_notifiers a))" using p by (simp add: finish_notifiers)
  have owned: "\<forall>(t, s) \<in> set (au_tickets ?b). tk_device s \<in> set (au_notifiers ?b)"
    using wf sub d(1) unfolding tickets notif authority_wf_def by auto
  have "known_set ?b \<subseteq> known_set a"
  proof (rule known_set_mono)
    show "set (au_notifiers ?b) \<subseteq> known_set a" unfolding notif using dk notifiers_in_known by blast
    show "pr_device (pd_request q) \<in> known_set a" if "(i, q) \<in> set (au_pending ?b)" "is_approved (pd_resolution q)" for i q
      using that set_delete_subset [of pid "au_pending a"] pending_in_known [of i q a] unfolding finish_pending(1) [OF p(1)] by blast
  qed
  then have "card (known_set ?b) \<le> card (known_set a)" by (rule card_mono [rotated]) simp
  then have "card (known_set ?b) \<le> au_max_devices ?b"
    using wf finish_pending(2) [of pid a] by (simp add: authority_wf_iff)
  moreover have "distinct (map fst (au_tickets ?b))" "distinct (map (tk_device \<circ> snd) (au_tickets ?b))"
    unfolding tickets using AList.distinct_update [OF kept(1)] update_distinct_devices [OF kept(1,2) others] by blast+
  moreover have "distinct (map fst (au_pending ?b))" "\<forall>(pid, p) \<in> set (au_pending ?b). grants_match p"
    using wf set_delete_subset [of pid "au_pending a"] unfolding finish_pending(1) [OF p(1)] authority_wf_iff
    by (blast intro: AList.distinct_delete)+
  ultimately show ?thesis using owned unfolding authority_wf_iff by blast
qed

lemma wf_finish: "authority_wf a \<Longrightarrow> authority_wf (finish_pairing pid a)"
proof (cases "map_of (au_pending a) pid")
  case (Some p)
  assume wf: "authority_wf a"
  then show ?thesis
    using wf_finish_approved [OF wf Some] finish_unapproved(2) [OF Some]
    by (cases "pd_resolution p") (simp_all add: abort_pairing_def wf_pending_delete)
qed (simp add: finish_unapproved)

lemma wf_step: "authority_wf a \<Longrightarrow> authority_wf (auth_step dk dg op a)"
proof (cases op)
  case (OpClaim secret now)
  assume "authority_wf a"
  with OpClaim show ?thesis by (simp add: create_claim_at_def authority_wf_def known_set_def)
qed (simp_all add: wf_submit wf_approve wf_deny wf_finish wf_revoke wf_pending_delete abort_pairing_def)

lemma wf_run: "authority_wf (auth_run dk dg ttl n ops)"
proof (induction ops rule: rev_induct)
  case (snoc op ops)
  then show ?case by (simp add: wf_step)
qed (simp add: authority_new_def authority_wf_def known_set_def)

section \<open>Claims\<close>

lemma other_steps_claims [simp]:
  "au_claims (snd (approve pid caps secret a)) = au_claims a" "au_claims (snd (deny pid a)) = au_claims a"
  "au_claims (abort_pairing pid a) = au_claims a" "au_claims (snd (revoke_device device a)) = au_claims a"
  "au_claims (finish_pairing pid a) = au_claims a"
  by (simp_all add: approve_def deny_def abort_pairing_def revoke_device_def finish_pairing_def Let_def
      split: option.split pairing_resolution.split)

lemma submit_claims:
  "au_claims (snd (submit_pairing_at dk dg claim key label req now pid a)) =
     (if dk key = None then au_claims a else AList.delete claim (au_claims a))"
  by (simp add: submit_pairing_at_def Let_def AList.delete_idem map_of_eq_None_iff split: option.split)

lemma ttl_step [simp]: "au_claim_ttl (auth_step dk dg op a) = au_claim_ttl a"
  by (cases op) (simp_all add: create_claim_at_def submit_pairing_at_def approve_def deny_def abort_pairing_def
      revoke_device_def finish_pairing_def remove_notifier_def ensure_notifier_def Let_def
      split: option.split pairing_resolution.split)

lemma max_devices_step: "au_max_devices (auth_step dk dg op a) = au_max_devices a"
  by (cases op) (simp_all add: create_claim_at_def submit_pairing_at_def approve_def deny_def abort_pairing_def
      revoke_device_def finish_pending Let_def split: option.split)

lemma ttl_run: "au_claim_ttl (auth_run dk dg ttl n ops) = ttl"
  by (induction ops rule: rev_induct) (simp_all add: authority_new_def)

lemma claims_distinct: "distinct (map fst (au_claims (auth_run dk dg ttl n ops)))"
proof (induction ops rule: rev_induct)
  case (snoc op ops)
  then show ?case
    by (cases op) (simp_all add: create_claim_at_def submit_claims AList.distinct_update AList.distinct_delete distinct_map_filter)
qed (simp add: authority_new_def)

definition claim_story :: "(string \<Rightarrow> 'k option) \<Rightarrow> nat \<Rightarrow> auth_op list \<Rightarrow> string \<Rightarrow> nat \<Rightarrow> bool" where
  "claim_story dk ttl ops claim expires \<longleftrightarrow>
     (\<exists>pre post created. ops = pre @ OpClaim claim created # post \<and> expires = created + ttl
        \<and> (\<forall>key label req now pid. OpSubmit claim key label req now pid \<in> set post \<longrightarrow> dk key = None))"

lemma claim_story_snoc:
  assumes "claim_story dk ttl ops claim expires"
    and "\<And>key label req now pid. op = OpSubmit claim key label req now pid \<Longrightarrow> dk key = None"
  shows "claim_story dk ttl (ops @ [op]) claim expires"
proof -
  from assms(1) obtain pre post created where "ops = pre @ OpClaim claim created # post" "expires = created + ttl"
    "\<forall>key label req now pid. OpSubmit claim key label req now pid \<in> set post \<longrightarrow> dk key = None"
    unfolding claim_story_def by blast
  moreover have "dk key = None" if "OpSubmit claim key label req now pid \<in> set (post @ [op])" for key label req now pid
    using that calculation(3) assms(2) by (metis Un_iff empty_iff list.set(1) set_ConsD set_append)
  ultimately have "ops @ [op] = pre @ OpClaim claim created # (post @ [op]) \<and> expires = created + ttl
      \<and> (\<forall>key label req now pid. OpSubmit claim key label req now pid \<in> set (post @ [op]) \<longrightarrow> dk key = None)"
    by simp
  then show ?thesis unfolding claim_story_def by blast
qed

lemma claim_stories:
  "map_of (au_claims (auth_run dk dg ttl n ops)) claim = Some expires \<Longrightarrow> claim_story dk ttl ops claim expires"
proof (induction ops arbitrary: claim expires rule: rev_induct)
  case (snoc op ops)
  let ?a = "auth_run dk dg ttl n ops"
  show ?case
  proof (cases op)
    case (OpClaim secret now)
    show ?thesis
    proof (cases "secret = claim")
      case True
      with snoc.prems OpClaim show ?thesis
        unfolding claim_story_def
        by (intro exI [of _ ops] exI [of _ "[]"] exI [of _ now]) (simp add: create_claim_at_def AList.update_conv' ttl_run)
    next
      case False
      with snoc.prems OpClaim have "map_of (filter (\<lambda>(_, expires). expires > now) (au_claims ?a)) claim = Some expires"
        by (simp add: create_claim_at_def AList.update_conv')
      from claim_story_snoc [OF snoc.IH [OF map_of_filter_Some [OF this claims_distinct]]] OpClaim show ?thesis by blast
    qed
  next
    case (OpSubmit claim' key label req now pid)
    with snoc.prems have "map_of (au_claims ?a) claim = Some expires \<and> (claim' = claim \<longrightarrow> dk key = None)"
      by (auto simp: submit_claims AList.delete_conv' split: if_splits)
    with snoc.IH OpSubmit show ?thesis by (intro claim_story_snoc) auto
  qed (use snoc in \<open>auto intro!: claim_story_snoc\<close>)
qed (simp add: authority_new_def)

section \<open>Properties\<close>


text \<open>Observation. The device limit is never exceeded. In every run of the authority from its start, the devices that hold a
  ticket are among those with a notifier, no two tickets belong to one device, and the devices that are connected or approved
  are at most the configured number.\<close>
theorem device_limit_holds:
  "let a = auth_run dk dg ttl n ops in
     length (known_devices a) \<le> n \<and> tk_device ` snd ` set (au_tickets a) \<subseteq> set (known_devices a)
     \<and> distinct (map (tk_device \<circ> snd) (au_tickets a)) \<and> length (au_tickets a) \<le> n"
proof -
  define a where "a = auth_run dk dg ttl n ops"
  have wf: "authority_wf a" unfolding a_def by (rule wf_run)
  have n: "au_max_devices a = n"
    unfolding a_def by (induction ops rule: rev_induct) (simp_all add: authority_new_def max_devices_step)
  have sub: "tk_device ` snd ` set (au_tickets a) \<subseteq> known_set a"
    using wf notifiers_in_known [of a] unfolding authority_wf_def by force
  have "length (au_tickets a) = card (set (map (tk_device \<circ> snd) (au_tickets a)))"
    using wf unfolding authority_wf_def by (metis distinct_card length_map)
  also have "\<dots> \<le> card (known_set a)" using sub by (intro card_mono) (auto simp: image_comp)
  finally show ?thesis
    using wf n sub unfolding authority_wf_def Let_def known_devices_set known_devices_length a_def by linarith
qed

text \<open>Observation. A claim is good for one pairing and for its lifetime. If a submission is accepted, the claim was created
  earlier, it is younger than the configured lifetime, and since its creation it was not presented with a valid key.\<close>
theorem claims_are_single_use:
  assumes "fst (submit_pairing_at dk dg claim ktext label req now pid (auth_run dk dg ttl n ops)) = Inr request"
  shows "\<exists>pre post created. ops = pre @ OpClaim claim created # post \<and> now < created + ttl
    \<and> (\<forall>key l r t i. OpSubmit claim key l r t i \<in> set post \<longrightarrow> dk key = None)"
proof -
  from assms obtain expires where "map_of (au_claims (auth_run dk dg ttl n ops)) claim = Some expires" "now < expires"
    by (auto simp: submit_pairing_at_def Let_def split: option.splits if_splits)
  with claim_stories [OF this(1)] show ?thesis unfolding claim_story_def by blast
qed

text \<open>A run in which a device pairs: keys are their text, a device is its key, and a signature is the key in front of the
  message.\<close>

definition sample_decode :: "string \<Rightarrow> string option" where
  "sample_decode text = (if text = [] then None else Some text)"

definition sample_verify :: "string \<Rightarrow> string \<Rightarrow> string \<Rightarrow> bool" where
  "sample_verify key message sig \<longleftrightarrow> sig = key @ message"

definition sample_pairing :: "auth_op list" where
  "sample_pairing = [OpClaim ''c'' 0, OpSubmit ''c'' ''k'' ''phone'' [Observe, Prompt] 5 ''p'',
     OpApprove ''p'' [Observe] ''t'']"


theorem claims_are_single_use_witness:
  "fst (submit_pairing_at sample_decode id ''c'' ''k'' ''phone'' [Observe] 5 ''p''
     (auth_run sample_decode id 10 1 [OpClaim ''c'' 0, OpSubmit ''c'' [] ''phone'' [] 1 ''q''])) =
     Inr \<lparr>pr_id = ''p'', pr_device = ''k'', pr_fingerprint = ''k'', pr_label = ''phone'', pr_requested = [Observe]\<rparr>
   \<and> (\<exists>pre post created. [OpClaim ''c'' 0, OpSubmit ''c'' [] ''phone'' [] 1 ''q''] = pre @ OpClaim ''c'' created # post
        \<and> 5 < created + 10 \<and> (\<forall>key l r t i. OpSubmit ''c'' key l r t i \<in> set post \<longrightarrow> sample_decode key = None))"
proof -
  have run: "fst (submit_pairing_at sample_decode id ''c'' ''k'' ''phone'' [Observe] 5 ''p''
     (auth_run sample_decode id 10 1 [OpClaim ''c'' 0, OpSubmit ''c'' [] ''phone'' [] 1 ''q''])) =
     Inr \<lparr>pr_id = ''p'', pr_device = ''k'', pr_fingerprint = ''k'', pr_label = ''phone'', pr_requested = [Observe]\<rparr>"
    by code_simp
  from claims_are_single_use [OF run] run show ?thesis by blast
qed

text \<open>Observation. Revocation reaches the tickets that exist, and the connections they hold; it does not reach a pairing that
  is approved and whose completion is still to come. After the revocation that completion issues a ticket that
  authenticates.\<close>
theorem revocation_misses_approved_pairing:
  "authenticate sample_decode sample_verify ''t'' ''k'' ''ch'' (''k'' @ auth_message ''ch'' ''t'')
     (auth_run sample_decode id 10 1 (sample_pairing @ [OpRevoke ''k'', OpFinish ''p''])) =
     Inr \<lparr>ad_device = ''k'', ad_label = ''phone'', ad_capabilities = [Observe]\<rparr>"
  by code_simp

end
