(* ===== verification/Agent_History.thy ===== *)
theory Agent_History
  imports Providers Text_More "HOL-Library.Sublist"
begin

text \<open>
  The operations on the message history of an agent session (the free functions at the end of
  src/src/agent.rs): which messages are user turns, how a cancelled suffix is completed, and how
  a history with unanswered tool calls is repaired.
\<close>

section \<open>Blocks and messages\<close>

fun tool_call_id :: "content_block \<Rightarrow> string option" where
  "tool_call_id (ToolCall i _ _) = Some i"
| "tool_call_id _ = None"

fun tool_result_id :: "content_block \<Rightarrow> string option" where
  "tool_result_id (ToolResult i _ _) = Some i"
| "tool_result_id _ = None"

fun text_of :: "content_block \<Rightarrow> string option" where
  "text_of (Text t) = Some t"
| "text_of _ = None"

definition summary_prefix :: string where
  "summary_prefix = ''[Summary of earlier conversation:''"

definition truncated_prefix :: string where
  "truncated_prefix = ''[Earlier conversation truncated''"

fun user_turn_block :: "content_block \<Rightarrow> bool" where
  "user_turn_block (Text text) = (\<not> starts_with summary_prefix text \<and> \<not> starts_with truncated_prefix text)"
| "user_turn_block (Image _ _ _) = True"
| "user_turn_block _ = False"

definition is_user_turn_message :: "message \<Rightarrow> bool" where
  "is_user_turn_message m \<longleftrightarrow> msg_role m = RoleUser \<and> list_ex user_turn_block (msg_content m)"

definition last_assistant_text :: "message list \<Rightarrow> string" where
  "last_assistant_text ms =
     (case List.find (\<lambda>m. msg_role m = RoleAssistant) (rev ms) of
        None \<Rightarrow> []
      | Some m \<Rightarrow> join [] (List.map_filter text_of (msg_content m)))"

section \<open>Completing a cancelled suffix\<close>

definition call_ids :: "message \<Rightarrow> string list" where
  "call_ids m = (if msg_role m = RoleAssistant then List.map_filter tool_call_id (msg_content m) else [])"

definition is_result_message :: "message \<Rightarrow> bool" where
  "is_result_message m \<longleftrightarrow>
     msg_role m = RoleUser \<and> msg_content m \<noteq> [] \<and> list_all (\<lambda>b. tool_result_id b \<noteq> None) (msg_content m)"

definition ordered_results :: "string \<Rightarrow> string list \<Rightarrow> content_block list \<Rightarrow> content_block list" where
  "ordered_results note ids existing =
     map (\<lambda>i. case List.find (\<lambda>b. tool_result_id b = Some i) existing of
                Some b \<Rightarrow> b | None \<Rightarrow> ToolResult i note True) ids
     @ filter (\<lambda>b. \<not> (case tool_result_id b of Some i \<Rightarrow> i \<in> set ids | None \<Rightarrow> False)) existing"

definition existing_results :: "message list \<Rightarrow> content_block list \<times> message list" where
  "existing_results ms =
     (case ms of
        n # ns \<Rightarrow> if is_result_message n then (msg_content n, ns) else ([], ms)
      | [] \<Rightarrow> ([], []))"

function materialize_from :: "string \<Rightarrow> message list \<Rightarrow> message list" where
  "materialize_from note [] = []"
| "materialize_from note (m # ms) =
     (if call_ids m = [] then m # materialize_from note ms
      else
        (let (existing, rest) = existing_results ms
         in m # \<lparr>msg_role = RoleUser, msg_content = ordered_results note (call_ids m) existing\<rparr>
              # materialize_from note rest))"
  by pat_completeness auto

termination
  by (relation "measure (\<lambda>(note, ms). length ms)")
    (auto simp: existing_results_def split: list.splits if_splits)

definition append_note :: "string \<Rightarrow> message list \<Rightarrow> message list" where
  "append_note note ms =
     (if note = [] then ms
      else if ms \<noteq> [] \<and> msg_role (last ms) = RoleAssistant
      then butlast ms @ [(last ms)\<lparr>msg_content := msg_content (last ms) @ [Text note]\<rparr>]
      else ms @ [message_assistant note])"

definition materialize_cancelled_suffix :: "message list \<Rightarrow> string \<Rightarrow> message list" where
  "materialize_cancelled_suffix ms note = append_note note (materialize_from note ms)"

section \<open>Repairing unanswered calls\<close>

definition result_ids :: "message list \<Rightarrow> string list" where
  "result_ids ms = List.map_filter tool_result_id (concat (map msg_content ms))"

definition has_orphan_tool_calls :: "message list \<Rightarrow> bool" where
  "has_orphan_tool_calls ms \<longleftrightarrow>
     (if \<not> list_ex is_tool_call (concat (map msg_content ms)) then False
      else list_ex (\<lambda>b. case tool_call_id b of Some i \<Rightarrow> i \<notin> set (result_ids ms) | None \<Rightarrow> False)
             (concat (map msg_content ms)))"

definition interrupted_tool_result :: string where
  "interrupted_tool_result =
     ''Tool call interrupted: the assistant turn ended before this tool ran, so it produced '' @
     ''no result and changed nothing. Re-issue it if it is still needed.''"

definition interrupted_results :: "string list \<Rightarrow> message" where
  "interrupted_results ids =
     \<lparr>msg_role = RoleUser, msg_content = map (\<lambda>i. ToolResult i interrupted_tool_result True) ids\<rparr>"

definition orphans_of :: "string list \<Rightarrow> message \<Rightarrow> string list" where
  "orphans_of answered m = filter (\<lambda>i. i \<notin> set answered) (call_ids m)"

definition close_orphan_tool_calls :: "message list \<Rightarrow> message list" where
  "close_orphan_tool_calls ms =
     (let answered = result_ids ms; orphans = map (orphans_of answered) ms in
      if list_all (\<lambda>ids. ids = []) orphans then ms
      else concat (map (\<lambda>(m, ids). if ids = [] then [m] else [m, interrupted_results ids]) (zip ms orphans)))"

section \<open>Completion\<close>

text \<open>Every message with calls is followed at once by the results of its calls, in their order.\<close>

fun answered_adjacently :: "message list \<Rightarrow> bool" where
  "answered_adjacently [] = True"
| "answered_adjacently (m # ms) =
     ((call_ids m = [] \<or>
        (case ms of n # _ \<Rightarrow> msg_role n = RoleUser
             \<and> take (length (call_ids m)) (map tool_result_id (msg_content n)) = map Some (call_ids m)
         | [] \<Rightarrow> False))
      \<and> answered_adjacently ms)"

lemma call_ids_user [simp]: "msg_role m = RoleUser \<Longrightarrow> call_ids m = []"
  by (simp add: call_ids_def)

lemma ordered_results_ids:
  "map tool_result_id (map (\<lambda>i. case List.find (\<lambda>b. tool_result_id b = Some i) existing of
       Some b \<Rightarrow> b | None \<Rightarrow> ToolResult i note True) ids) = map Some ids"
  by (induction ids) (auto split: option.splits simp: find_Some_iff)

lemma ordered_results_prefix:
  "take (length ids) (map tool_result_id (ordered_results note ids existing)) = map Some ids"
  using ordered_results_ids [where existing = existing and ids = ids] by (simp add: ordered_results_def take_map del: map_map)

lemma ordered_results_result_message:
  assumes "ids \<noteq> []" and "list_all (\<lambda>b. tool_result_id b \<noteq> None) existing"
  shows "is_result_message \<lparr>msg_role = RoleUser, msg_content = ordered_results note ids existing\<rparr>"
proof -
  have "tool_result_id b \<noteq> None" if "b \<in> set (ordered_results note ids existing)" for b
    using that assms(2)
    by (auto simp: ordered_results_def list_all_iff split: option.splits simp: find_Some_iff)
  moreover have "ordered_results note ids existing \<noteq> []"
    using assms(1) by (simp add: ordered_results_def)
  ultimately show ?thesis by (simp add: is_result_message_def list_all_iff)
qed

lemma existing_results_all:
  "existing_results ms = (existing, rest) \<Longrightarrow>
     list_all (\<lambda>b. tool_result_id b \<noteq> None) existing
     \<and> filter (\<lambda>m. \<not> is_result_message m) rest = filter (\<lambda>m. \<not> is_result_message m) ms"
  by (auto simp: existing_results_def is_result_message_def split: list.splits if_splits)

lemma materialize_from_answered: "answered_adjacently (materialize_from note ms)"
proof (induction "note" ms rule: materialize_from.induct)
  case (2 note' m ms)
  then show ?case
    by (cases "existing_results ms") (auto simp: ordered_results_prefix)
qed simp

lemma materialize_from_keeps:
  "filter (\<lambda>m. \<not> is_result_message m) (materialize_from note ms) = filter (\<lambda>m. \<not> is_result_message m) ms"
proof (induction "note" ms rule: materialize_from.induct)
  case (2 note' m ms)
  show ?case
  proof (cases "call_ids m = []")
    case False
    obtain existing rest where er: "existing_results ms = (existing, rest)" by fastforce
    note er' = existing_results_all [OF er]
    have "is_result_message \<lparr>msg_role = RoleUser, msg_content = ordered_results note' (call_ids m) existing\<rparr>"
      using ordered_results_result_message [OF False] er' by blast
    with 2(2) [OF False er [symmetric] refl] er er' False show ?thesis by simp
  qed (use 2 in simp)
qed simp

lemma answered_adjacently_snoc:
  "answered_adjacently ms \<Longrightarrow> call_ids n = [] \<Longrightarrow> answered_adjacently (ms @ [n])"
  by (induction ms rule: answered_adjacently.induct) (auto split: list.splits)

lemma answered_adjacently_last: "answered_adjacently ms \<Longrightarrow> ms \<noteq> [] \<Longrightarrow> call_ids (last ms) = []"
  by (induction ms) (auto split: list.splits)

lemma answered_adjacently_butlast: "answered_adjacently (ms @ [n]) \<Longrightarrow> msg_role n = RoleAssistant \<Longrightarrow> answered_adjacently ms"
proof (induction ms)
  case (Cons m ms)
  then show ?case by (cases ms) auto
qed simp

lemma append_note_answered:
  assumes "answered_adjacently ms"
  shows "answered_adjacently (append_note note ms)"
proof (cases "note \<noteq> [] \<and> ms \<noteq> [] \<and> msg_role (last ms) = RoleAssistant")
  case True
  then have ms: "ms = butlast ms @ [last ms]" by simp
  have "call_ids (last ms) = []" using assms True answered_adjacently_last by blast
  then have "call_ids ((last ms)\<lparr>msg_content := msg_content (last ms) @ [Text note]\<rparr>) = []"
    by (simp add: call_ids_def List.map_filter_def split: if_splits)
  moreover have "answered_adjacently (butlast ms)"
    using answered_adjacently_butlast [of "butlast ms" "last ms"] assms True ms by simp
  ultimately show ?thesis using True by (simp add: append_note_def answered_adjacently_snoc)
next
  case False
  then show ?thesis
    using assms by (auto simp: append_note_def message_assistant_def call_ids_def List.map_filter_def intro!: answered_adjacently_snoc)
qed

section \<open>Repair\<close>

lemma result_ids_append [simp]: "result_ids (xs @ ys) = result_ids xs @ result_ids ys"
  by (simp add: result_ids_def List.map_filter_def)

lemma result_ids_Cons: "result_ids (m # ms) = List.map_filter tool_result_id (msg_content m) @ result_ids ms"
  by (simp add: result_ids_def List.map_filter_def)

lemma result_ids_Nil [simp]: "result_ids [] = []"
  by (simp add: result_ids_def List.map_filter_def)

lemma interrupted_ids [simp]: "List.map_filter tool_result_id (msg_content (interrupted_results ids)) = ids"
  by (induction ids) (simp_all add: interrupted_results_def List.map_filter_def)

lemma interrupted_not_user_turn [simp]: "\<not> is_user_turn_message (interrupted_results ids)"
  by (simp add: interrupted_results_def is_user_turn_message_def list_ex_iff)

lemma interrupted_no_calls [simp]: "call_ids (interrupted_results ids) = []"
  by (simp add: interrupted_results_def)

definition repair_one :: "string list \<Rightarrow> message \<Rightarrow> message list" where
  "repair_one answered m =
     (if orphans_of answered m = [] then [m] else [m, interrupted_results (orphans_of answered m)])"

lemma close_orphans_concat: "close_orphan_tool_calls ms = concat (map (repair_one (result_ids ms)) ms)"
proof -
  have zip: "map (\<lambda>(m, ids). if ids = [] then [m] else [m, interrupted_results ids]) (zip xs (map (orphans_of a) xs)) =
      map (repair_one a) xs" for a xs
    by (induction xs) (simp_all add: repair_one_def)
  have kept: "concat (map (repair_one a) xs) = xs" if "list_all (\<lambda>ids. ids = []) (map (orphans_of a) xs)" for a xs
    using that by (induction xs) (simp_all add: repair_one_def)
  show ?thesis by (simp add: close_orphan_tool_calls_def Let_def zip kept)
qed

lemma repair_result_ids:
  "set (result_ids (concat (map (repair_one a) ms))) = set (result_ids ms) \<union> (\<Union>m \<in> set ms. set (orphans_of a m))"
  by (induction ms) (auto simp: repair_one_def result_ids_Cons)

lemma repair_call_ids:
  "set (concat (map call_ids (concat (map (repair_one a) ms)))) = set (concat (map call_ids ms))"
  by (induction ms) (auto simp: repair_one_def)

lemma repair_user_turns:
  "filter is_user_turn_message (concat (map (repair_one a) ms)) = filter is_user_turn_message ms"
  by (induction ms) (auto simp: repair_one_def)

lemma repair_subseq: "subseq ms (concat (map (repair_one a) ms))"
proof (induction ms)
  case (Cons m ms)
  then show ?case by (cases "orphans_of a m = []") (auto simp: repair_one_def intro: subseq_Cons')
qed simp

abbreviation calls_answered :: "message list \<Rightarrow> bool" where
  "calls_answered ms \<equiv> set (concat (map call_ids ms)) \<subseteq> set (result_ids ms)"

lemma repair_answers: "calls_answered (close_orphan_tool_calls ms)"
proof -
  have "set (call_ids m) \<subseteq> set (result_ids ms) \<union> set (orphans_of (result_ids ms) m)" for m
    by (auto simp: orphans_of_def)
  then show ?thesis
    by (auto simp: close_orphans_concat repair_result_ids repair_call_ids simp del: set_concat) fastforce
qed

lemma repair_idle: "calls_answered ms \<Longrightarrow> close_orphan_tool_calls ms = ms"
proof -
  assume "calls_answered ms"
  then have "list_all (\<lambda>ids. ids = []) (map (orphans_of (result_ids ms)) ms)"
    by (fastforce simp: list_all_iff orphans_of_def filter_empty_conv)
  then show ?thesis by (simp add: close_orphan_tool_calls_def Let_def)
qed

text \<open>Tool calls are made by the assistant only.\<close>

definition assistant_calls :: "message list \<Rightarrow> bool" where
  "assistant_calls ms \<longleftrightarrow> (\<forall>m \<in> set ms. msg_role m = RoleUser \<longrightarrow> \<not> list_ex is_tool_call (msg_content m))"

lemma is_tool_call_iff: "is_tool_call b \<longleftrightarrow> (\<exists>i. tool_call_id b = Some i)"
  by (cases b) simp_all

lemma call_ids_set:
  assumes "assistant_calls ms" and "m \<in> set ms"
  shows "set (call_ids m) = {i. \<exists>b \<in> set (msg_content m). tool_call_id b = Some i}"
proof (cases "msg_role m")
  case RoleUser
  then have "tool_call_id b = None" if "b \<in> set (msg_content m)" for b
    using assms that by (auto simp: assistant_calls_def list_ex_iff is_tool_call_iff)
  with RoleUser show ?thesis by auto
next
  case RoleAssistant
  then show ?thesis by (force simp: call_ids_def List.map_filter_def)
qed

lemma has_orphan_iff: "assistant_calls ms \<Longrightarrow> has_orphan_tool_calls ms \<longleftrightarrow> \<not> calls_answered ms"
proof -
  assume "assistant_calls ms"
  then have "set (concat (map call_ids ms)) = {i. \<exists>m \<in> set ms. \<exists>b \<in> set (msg_content m). tool_call_id b = Some i}"
    using call_ids_set by auto
  moreover have "has_orphan_tool_calls ms \<longleftrightarrow>
      (\<exists>m \<in> set ms. \<exists>b \<in> set (msg_content m). \<exists>i. tool_call_id b = Some i \<and> i \<notin> set (result_ids ms))"
  proof -
    have "(case tool_call_id b of Some i \<Rightarrow> i \<notin> R | None \<Rightarrow> False) \<longleftrightarrow> (\<exists>i. tool_call_id b = Some i \<and> i \<notin> R)" for b R
      by (auto split: option.splits)
    then show ?thesis by (simp add: has_orphan_tool_calls_def list_ex_iff is_tool_call_iff)
  qed
  ultimately show ?thesis by blast
qed

section \<open>Properties\<close>

text \<open>
  Observation. Completing a cancelled suffix makes it acceptable to every provider without
  losing anything: each message with tool calls is followed at once by a user message whose first
  results answer its calls in order, and apart from result messages the suffix keeps its messages
  in order, followed at most by the cancellation note.
\<close>

theorem cancelled_suffix_is_answered:
  "answered_adjacently (materialize_cancelled_suffix ms note)
   \<and> filter (\<lambda>m. \<not> is_result_message m) (materialize_cancelled_suffix ms []) = filter (\<lambda>m. \<not> is_result_message m) ms
   \<and> (\<exists>base. materialize_cancelled_suffix ms note = append_note note base
        \<and> filter (\<lambda>m. \<not> is_result_message m) base = filter (\<lambda>m. \<not> is_result_message m) ms)"
proof (intro conjI)
  show "answered_adjacently (materialize_cancelled_suffix ms note)"
    by (simp add: materialize_cancelled_suffix_def append_note_answered materialize_from_answered)
  show "filter (\<lambda>m. \<not> is_result_message m) (materialize_cancelled_suffix ms []) = filter (\<lambda>m. \<not> is_result_message m) ms"
    by (simp add: materialize_cancelled_suffix_def append_note_def materialize_from_keeps)
  show "\<exists>base. materialize_cancelled_suffix ms note = append_note note base
        \<and> filter (\<lambda>m. \<not> is_result_message m) base = filter (\<lambda>m. \<not> is_result_message m) ms"
    by (intro exI [of _ "materialize_from note ms"]) (simp add: materialize_cancelled_suffix_def materialize_from_keeps)
qed

text \<open>
  Observation. Repairing a history closes every unanswered tool call and nothing else. When only
  the assistant makes calls, the repaired history has no orphan left, contains the old one in
  order, has the same user turns, is a fixed point, and a history without orphans is not touched.
\<close>

theorem repaired_history_has_no_orphans:
  assumes "assistant_calls ms"
  shows "\<not> has_orphan_tool_calls (close_orphan_tool_calls ms)
    \<and> subseq ms (close_orphan_tool_calls ms)
    \<and> filter is_user_turn_message (close_orphan_tool_calls ms) = filter is_user_turn_message ms
    \<and> close_orphan_tool_calls (close_orphan_tool_calls ms) = close_orphan_tool_calls ms
    \<and> (has_orphan_tool_calls ms \<or> close_orphan_tool_calls ms = ms)"
proof -
  have "list_ex is_tool_call (msg_content (interrupted_results ids)) = False" for ids
    by (simp add: interrupted_results_def list_ex_iff)
  then have "assistant_calls (close_orphan_tool_calls ms)"
    using assms by (auto simp: close_orphans_concat assistant_calls_def repair_one_def split: if_splits)
  then have "\<not> has_orphan_tool_calls (close_orphan_tool_calls ms)"
    using repair_answers has_orphan_iff by blast
  moreover have "subseq ms (close_orphan_tool_calls ms)"
    "filter is_user_turn_message (close_orphan_tool_calls ms) = filter is_user_turn_message ms"
    by (simp_all add: close_orphans_concat repair_subseq repair_user_turns)
  moreover have "close_orphan_tool_calls (close_orphan_tool_calls ms) = close_orphan_tool_calls ms"
    by (rule repair_idle [OF repair_answers])
  moreover have "has_orphan_tool_calls ms \<or> close_orphan_tool_calls ms = ms"
    using repair_idle [of ms] has_orphan_iff [OF assms] by argo
  ultimately show ?thesis by simp
qed

theorem repaired_history_has_no_orphans_witness:
  "\<not> has_orphan_tool_calls (close_orphan_tool_calls
       [message_user ''hi'', \<lparr>msg_role = RoleAssistant, msg_content = [ToolCall ''a'' ''f'' ''1'', ToolCall ''b'' ''g'' ''2'']\<rparr>,
        \<lparr>msg_role = RoleUser, msg_content = [ToolResult ''b'' ''ok'' False]\<rparr>])"
  using repaired_history_has_no_orphans
    [of "[message_user ''hi'', \<lparr>msg_role = RoleAssistant, msg_content = [ToolCall ''a'' ''f'' ''1'', ToolCall ''b'' ''g'' ''2'']\<rparr>,
        \<lparr>msg_role = RoleUser, msg_content = [ToolResult ''b'' ''ok'' False]\<rparr>]"]
  by (simp add: assistant_calls_def message_user_def)

end
