(* ===== verification/Compaction.thy ===== *)
theory Compaction
  imports Agent_History
begin

text \<open>
  Context compaction (src/src/compaction.rs): size estimates, turn segmentation, the choice of the
  cut, the transcript for the summariser and the replacement messages. The water marks are
  floating-point fractions of the budget; the model takes the two token counts that result from
  them, the least occupancy that triggers compaction and the size to compact down to.
\<close>

record compaction_policy =
  cp_high_mark :: nat
  cp_target :: nat
  cp_window :: nat
  cp_reservation :: nat
  cp_summary_model :: "string option"
  cp_summary_prompt :: "string option"

definition budget :: "compaction_policy \<Rightarrow> nat" where
  "budget p = cp_window p - cp_reservation p"

definition should_compact :: "compaction_policy \<Rightarrow> nat \<Rightarrow> bool" where
  "should_compact p tokens \<longleftrightarrow> cp_high_mark p \<le> tokens"

definition target_tokens :: "compaction_policy \<Rightarrow> nat" where
  "target_tokens p = cp_target p"

section \<open>Estimates\<close>

fun block_size :: "content_block \<Rightarrow> nat" where
  "block_size (Text t) = length t"
| "block_size (Thinking t) = length t"
| "block_size (ProviderState provider data) = length provider + length data"
| "block_size (Image data media_type uri) = length data + length media_type + (case uri of None \<Rightarrow> 0 | Some u \<Rightarrow> length u)"
| "block_size (ToolCall i name inp) = length i + length name + length inp"
| "block_size (ToolResult i content _) = length i + length content"

definition estimate_message_tokens :: "message \<Rightarrow> nat" where
  "estimate_message_tokens m = sum_list (map block_size (msg_content m)) div 4"

definition estimate_tokens :: "message list \<Rightarrow> nat" where
  "estimate_tokens ms = sum_list (map estimate_message_tokens ms)"

definition estimate_prompt_tokens :: "string option \<Rightarrow> message list \<Rightarrow> nat" where
  "estimate_prompt_tokens system ms = (case system of Some s \<Rightarrow> length s div 4 | None \<Rightarrow> 0) + estimate_tokens ms"

section \<open>Turns and the cut\<close>

definition is_turn_start :: "message \<Rightarrow> bool" where
  "is_turn_start m \<longleftrightarrow> msg_role m = RoleUser \<and>
     (case msg_content m of Text _ # _ \<Rightarrow> True | Image _ _ _ # _ \<Rightarrow> True | _ \<Rightarrow> False)"

definition turn_starts :: "message list \<Rightarrow> nat list" where
  "turn_starts ms = map fst (filter (\<lambda>(_, m). is_turn_start m) (List.enumerate 0 ms))"

fun cut_walk :: "message list \<Rightarrow> nat \<Rightarrow> nat list \<Rightarrow> nat \<Rightarrow> nat" where
  "cut_walk ms target [] cutoff = cutoff"
| "cut_walk ms target (start # starts) cutoff =
     (if estimate_tokens (drop cutoff ms) \<ge> target then cutoff else cut_walk ms target starts start)"

definition choose_cut :: "message list \<Rightarrow> nat \<Rightarrow> nat option" where
  "choose_cut ms target =
     (let starts = turn_starts ms in
      if length starts < 2 then None
      else (let cutoff = cut_walk ms target (drop 1 (rev starts)) (last starts)
            in if cutoff > 0 then Some cutoff else None))"

section \<open>Transcript and replacement\<close>

definition truncated_marker :: string where
  "truncated_marker = ''truncated; full output saved to''"

definition marker_output_path :: "string \<Rightarrow> string option" where
  "marker_output_path text =
     (case split_once_str truncated_marker text of
        None \<Rightarrow> None
      | Some (_, rest) \<Rightarrow>
          (let path = trim_start rest;
               endpos = (case rfind_str '' ...'' path of Some i \<Rightarrow> i | None \<Rightarrow> length path)
           in if take endpos path \<noteq> [] then Some (take endpos path) else None))"

definition ellipsis :: string where
  "ellipsis = [CHR 0xE2, CHR 0x80, CHR 0xA6]"

definition elision :: string where
  "elision = '' '' @ ellipsis @ ''[elided]'' @ ellipsis @ '' ''"

definition summary_tool_result_cap :: nat where
  "summary_tool_result_cap = 500"

definition cap_tool_result :: "string \<Rightarrow> string" where
  "cap_tool_result content =
     (let cs = chars content; total = length cs in
      if total \<le> summary_tool_result_cap then content
      else
        (let cap_budget = summary_tool_result_cap - length (chars elision);
             head_len = (cap_budget + 1) div 2;
             tail_len = cap_budget div 2;
             out = concat (take head_len cs) @ elision @ concat (drop (total - tail_len) cs)
         in case marker_output_path content of
              Some path \<Rightarrow>
                if \<not> contains_str truncated_marker out
                then out @ '' ['' @ truncated_marker @ '' '' @ path @ '']'' else out
            | None \<Rightarrow> out))"

fun transcript_block :: "role \<Rightarrow> content_block \<Rightarrow> string" where
  "transcript_block r (Text text) =
     (case r of RoleUser \<Rightarrow> ''User'' | RoleAssistant \<Rightarrow> ''Assistant'') @ '': '' @ text @ [newline]"
| "transcript_block r (Image _ media_type uri) =
     ''[user image: '' @ media_type @ (case uri of Some u \<Rightarrow> '' '' @ u | None \<Rightarrow> []) @ '']'' @ [newline]"
| "transcript_block r (ToolCall _ name inp) = ''[tool call: '' @ name @ '' '' @ inp @ '']'' @ [newline]"
| "transcript_block r (ToolResult _ content is_error) =
     ''['' @ (if is_error then ''tool error'' else ''tool result'') @ '': '' @ cap_tool_result content @ '']'' @ [newline]"
| "transcript_block r (Thinking _) = []"
| "transcript_block r (ProviderState _ _) = []"

definition transcript_for_summary :: "message list \<Rightarrow> string" where
  "transcript_for_summary ms = concat (map (\<lambda>m. concat (map (transcript_block (msg_role m)) (msg_content m))) ms)"

definition summary_message :: "string \<Rightarrow> message" where
  "summary_message text = message_user (''[Summary of earlier conversation: '' @ text @ '']'')"

definition drop_marker_message :: message where
  "drop_marker_message =
     message_user (''[Earlier conversation truncated '' @ [CHR 0xE2, CHR 0x80, CHR 0x94] @ '' summary unavailable]'')"

section \<open>The cut\<close>

lemma turn_starts_sorted: "sorted_wrt (<) (turn_starts ms)"
proof -
  have "sorted_wrt (<) (map fst (filter P (List.enumerate n ms)))" for n P
    by (induction ms arbitrary: n) (auto simp: in_set_enumerate_eq)
  then show ?thesis by (simp add: turn_starts_def)
qed

lemma turn_starts_set: "set (turn_starts ms) = {i. i < length ms \<and> is_turn_start (ms ! i)}"
  by (force simp: turn_starts_def in_set_enumerate_eq)

lemma cut_walk_spec:
  assumes "sorted_wrt (>) (cutoff # starts)"
  shows "cut_walk ms t starts cutoff \<in> set (cutoff # starts)
    \<and> (\<forall>s \<in> set (cutoff # starts). cut_walk ms t starts cutoff < s \<longrightarrow> estimate_tokens (drop s ms) < t)
    \<and> (t \<le> estimate_tokens (drop (cut_walk ms t starts cutoff) ms) \<or> (\<forall>s \<in> set (cutoff # starts). cut_walk ms t starts cutoff \<le> s))"
  using assms
proof (induction starts arbitrary: cutoff)
  case (Cons s starts)
  have below: "cut_walk ms t starts s < cutoff" if "cut_walk ms t starts s \<in> set (s # starts)"
    using that Cons.prems by auto
  show ?case
  proof (cases "estimate_tokens (drop cutoff ms) \<ge> t")
    case True
    with Cons.prems show ?thesis by auto
  next
    case False
    with Cons.IH [of s] Cons.prems below show ?thesis by (auto simp: not_le)
  qed
qed auto

lemma choose_cut_cases:
  fixes ms t
  defines "starts \<equiv> turn_starts ms"
  assumes "\<not> length starts < 2"
  obtains cutoff where "cutoff \<in> set starts" "\<forall>s \<in> set starts. cutoff < s \<longrightarrow> estimate_tokens (drop s ms) < t"
    "t \<le> estimate_tokens (drop cutoff ms) \<or> (\<forall>s \<in> set starts. cutoff \<le> s)"
    "choose_cut ms t = (if cutoff > 0 then Some cutoff else None)"
proof -
  have "starts \<noteq> []" using assms(2) by auto
  then have rev: "last starts # drop 1 (rev starts) = rev starts"
    by (metis drop0 drop_Suc hd_rev list.collapse One_nat_def rev_is_Nil_conv)
  have "sorted_wrt (>) (last starts # drop 1 (rev starts))"
    unfolding rev using turn_starts_sorted [of ms] by (simp add: starts_def sorted_wrt_rev)
  from cut_walk_spec [OF this, of ms t] rev have
    "cut_walk ms t (drop 1 (rev starts)) (last starts) \<in> set starts
     \<and> (\<forall>s \<in> set starts. cut_walk ms t (drop 1 (rev starts)) (last starts) < s \<longrightarrow> estimate_tokens (drop s ms) < t)
     \<and> (t \<le> estimate_tokens (drop (cut_walk ms t (drop 1 (rev starts)) (last starts)) ms)
          \<or> (\<forall>s \<in> set starts. cut_walk ms t (drop 1 (rev starts)) (last starts) \<le> s))"
    by (metis set_rev)
  moreover have "choose_cut ms t =
      (if cut_walk ms t (drop 1 (rev starts)) (last starts) > 0
       then Some (cut_walk ms t (drop 1 (rev starts)) (last starts)) else None)"
    using assms(2) by (simp add: choose_cut_def starts_def Let_def del: One_nat_def)
  ultimately show ?thesis using that by blast
qed

section \<open>Tool pairs\<close>

text \<open>Calls and results refer to each other within one turn only.\<close>

definition calls_in :: "message \<Rightarrow> string set" where
  "calls_in m = {i. \<exists>b \<in> set (msg_content m). tool_call_id b = Some i}"

definition results_in :: "message \<Rightarrow> string set" where
  "results_in m = {i. \<exists>b \<in> set (msg_content m). tool_result_id b = Some i}"

definition same_turn :: "message list \<Rightarrow> nat \<Rightarrow> nat \<Rightarrow> bool" where
  "same_turn ms k j \<longleftrightarrow> k < j \<and> j < length ms \<and> (\<forall>l. k < l \<and> l \<le> j \<longrightarrow> \<not> is_turn_start (ms ! l))"

definition paired :: "message list \<Rightarrow> bool" where
  "paired ms \<longleftrightarrow>
     (\<forall>j < length ms. \<forall>i \<in> results_in (ms ! j). \<exists>k. same_turn ms k j \<and> i \<in> calls_in (ms ! k))
     \<and> (\<forall>k < length ms. \<forall>i \<in> calls_in (ms ! k). \<exists>j. same_turn ms k j \<and> i \<in> results_in (ms ! j))"

lemma same_turn_drop:
  assumes "same_turn ms k j" and "cutoff \<le> k"
  shows "same_turn (r # drop cutoff ms) (Suc (k - cutoff)) (Suc (j - cutoff))"
  unfolding same_turn_def
proof (intro conjI allI impI)
  show "Suc (k - cutoff) < Suc (j - cutoff)" "Suc (j - cutoff) < length (r # drop cutoff ms)"
    using assms by (auto simp: same_turn_def)
  fix l assume l: "Suc (k - cutoff) < l \<and> l \<le> Suc (j - cutoff)"
  then obtain l' where l': "l = Suc l'" by (cases l) auto
  with l assms(2) have "k < cutoff + l'" "cutoff + l' \<le> j" using assms(1) by (auto simp: same_turn_def)
  with assms(1) have "\<not> is_turn_start (ms ! (cutoff + l'))" by (auto simp: same_turn_def)
  with \<open>cutoff + l' \<le> j\<close> assms(1) l' show "\<not> is_turn_start ((r # drop cutoff ms) ! l)"
    by (auto simp: same_turn_def)
qed

lemma same_turn_cut:
  assumes "same_turn ms k j" and "is_turn_start (ms ! cutoff)" and "cutoff \<le> j"
  shows "cutoff \<le> k"
proof (rule ccontr)
  assume "\<not> cutoff \<le> k"
  with assms show False by (auto simp: same_turn_def)
qed

lemma paired_after_cut:
  assumes "paired ms" and "is_turn_start (ms ! cutoff)" and "cutoff < length ms"
    and "calls_in r = {}" and "results_in r = {}"
  shows "paired (r # drop cutoff ms)"
  unfolding paired_def
proof (intro conjI allI impI ballI)
  fix j i assume j: "j < length (r # drop cutoff ms)" and i: "i \<in> results_in ((r # drop cutoff ms) ! j)"
  with assms(5) obtain j' where j': "j = Suc j'" by (cases j) auto
  with i j assms(3) have "cutoff + j' < length ms" "i \<in> results_in (ms ! (cutoff + j'))" by auto
  then obtain k where k: "same_turn ms k (cutoff + j')" "i \<in> calls_in (ms ! k)"
    using assms(1) unfolding paired_def by blast
  have "cutoff \<le> k" using same_turn_cut [OF k(1) assms(2)] by simp
  with same_turn_drop [OF k(1), of cutoff r] k(2) j' assms(3)
  show "\<exists>k. same_turn (r # drop cutoff ms) k j \<and> i \<in> calls_in ((r # drop cutoff ms) ! k)"
    by (intro exI [of _ "Suc (k - cutoff)"]) auto
next
  fix k i assume k: "k < length (r # drop cutoff ms)" and i: "i \<in> calls_in ((r # drop cutoff ms) ! k)"
  with assms(4) obtain k' where k': "k = Suc k'" by (cases k) auto
  with i k assms(3) have "cutoff + k' < length ms" "i \<in> calls_in (ms ! (cutoff + k'))" by auto
  then obtain j where j: "same_turn ms (cutoff + k') j" "i \<in> results_in (ms ! j)"
    using assms(1) unfolding paired_def by blast
  then have "cutoff + k' < j" by (simp add: same_turn_def)
  with same_turn_drop [OF j(1), of cutoff r] j(2) k' assms(3)
  show "\<exists>j. same_turn (r # drop cutoff ms) k j \<and> i \<in> results_in ((r # drop cutoff ms) ! j)"
    by (intro exI [of _ "Suc (j - cutoff)"]) auto
qed

section \<open>Properties\<close>

text \<open>
  Observation. The cut is the right one. If there is a cut, it falls on a turn start after the
  first message; every shorter tail that starts a turn is below the target (so no turn is kept
  that is not needed to reach it, beyond the newest); and the kept tail reaches the target unless
  the cut is at the oldest turn. Without a cut there are fewer than two turns, or all turns are
  kept because no proper tail reaches the target.
\<close>

theorem choose_cut_correct:
  "(case choose_cut ms t of
      Some c \<Rightarrow>
        0 < c \<and> c < length ms \<and> is_turn_start (ms ! c)
        \<and> (\<forall>i. c < i \<and> i < length ms \<and> is_turn_start (ms ! i) \<longrightarrow> estimate_tokens (drop i ms) < t)
        \<and> (t \<le> estimate_tokens (drop c ms) \<or> (\<forall>i < c. \<not> is_turn_start (ms ! i)))
    | None \<Rightarrow>
        length (filter is_turn_start ms) < 2
        \<or> is_turn_start (ms ! 0)
          \<and> (\<forall>i. 0 < i \<and> i < length ms \<and> is_turn_start (ms ! i) \<longrightarrow> estimate_tokens (drop i ms) < t))"
proof (cases "length (turn_starts ms) < 2")
  case True
  have "length (filter (\<lambda>(_, m). is_turn_start m) (List.enumerate n ms)) = length (filter is_turn_start ms)" for n
    by (induction ms arbitrary: n) auto
  then have "length (turn_starts ms) = length (filter is_turn_start ms)" by (simp add: turn_starts_def)
  with True show ?thesis by (simp add: choose_cut_def)
next
  case False
  obtain c where c: "c \<in> set (turn_starts ms)" "\<forall>s \<in> set (turn_starts ms). c < s \<longrightarrow> estimate_tokens (drop s ms) < t"
    "t \<le> estimate_tokens (drop c ms) \<or> (\<forall>s \<in> set (turn_starts ms). c \<le> s)"
    "choose_cut ms t = (if c > 0 then Some c else None)"
    by (rule choose_cut_cases [OF False, of t])
  have none: "\<not> is_turn_start (ms ! i)" if "\<forall>s \<in> set (turn_starts ms). c \<le> s" "i < c" for i
  proof
    assume "is_turn_start (ms ! i)"
    with that(2) c(1) have "i \<in> set (turn_starts ms)" by (simp add: turn_starts_set)
    with that show False by auto
  qed
  have "c < length ms" "is_turn_start (ms ! c)" using c(1) by (simp_all add: turn_starts_set)
  moreover have "\<forall>i. c < i \<and> i < length ms \<and> is_turn_start (ms ! i) \<longrightarrow> estimate_tokens (drop i ms) < t"
    using c(2) by (simp add: turn_starts_set)
  moreover have "t \<le> estimate_tokens (drop c ms) \<or> (\<forall>i < c. \<not> is_turn_start (ms ! i))"
    using c(3) none by blast
  ultimately show ?thesis using c(4) by (cases "c > 0") simp_all
qed

theorem choose_cut_correct_witness:
  "\<exists>ms. ms = [message_user ''abcdefgh'', message_assistant ''x'', message_user ''abcdefgh'', message_user ''abcdefgh'']
     \<and> choose_cut ms 3 = Some 2 \<and> estimate_tokens (drop 3 ms) < 3"
proof -
  define ms where "ms = [message_user ''abcdefgh'', message_assistant ''x'', message_user ''abcdefgh'', message_user ''abcdefgh'']"
  have cut: "choose_cut ms 3 = Some 2" unfolding ms_def by code_simp
  have "3 < length ms" "is_turn_start (ms ! 3)" unfolding ms_def by code_simp+
  moreover have "\<forall>i. 2 < i \<and> i < length ms \<and> is_turn_start (ms ! i) \<longrightarrow> estimate_tokens (drop i ms) < 3"
    using choose_cut_correct [of ms 3] cut by (simp only: option.case) blast
  ultimately have "estimate_tokens (drop 3 ms) < 3" by simp
  with cut ms_def show ?thesis by blast
qed

end
