(* ===== verification/Agent_Session.thy ===== *)
theory Agent_Session
  imports Compaction
begin

text \<open>
  The stateful agent session (AgentSession in src/src/agent.rs): history edits, compaction, the
  turn journal that survives a cancelled turn, and the prompt and retry paths. The summarising
  provider call is the argument \<open>complete\<close> and one run of the tool loop is the argument \<open>run\<close>:
  it answers a request with the journal events that it emits and its result. Tracing spans,
  token logs and the durable checkpoint hook are left out.
\<close>

section \<open>State\<close>

datatype turn_journal_mode = JournalAppend | JournalReplaceFrom nat

datatype cancelled_turn_kind = CancelledNew | CancelledRetry

record turn_journal =
  jn_mode :: turn_journal_mode
  jn_suffix :: "message list"
  jn_usage :: usage
  jn_last_usage :: usage

record agent_session =
  se_messages :: "message list"
  se_total_usage :: usage
  se_last_prompt :: nat
  se_inflight :: "turn_journal option"
  se_compaction :: "compaction_policy option"
  se_system :: "string option"
  se_model :: string
  se_note :: string

record agent_result =
  ar_messages :: "message list"
  ar_usage :: usage
  ar_stop_reason :: stop_reason
  ar_error_message :: "string option"
  ar_last_usage :: usage
  ar_overflow :: bool

record turn_result =
  tr_text :: string
  tr_usage :: usage
  tr_last_usage :: usage
  tr_stop_reason :: stop_reason
  tr_error_message :: "string option"
  tr_overflow :: bool

record compaction_event =
  ce_evicted_turns :: nat
  ce_evicted_messages :: nat
  ce_before :: nat
  ce_after :: nat
  ce_summary_model :: string
  ce_fallback_drop :: bool

section \<open>History edits\<close>

definition user_turn_count :: "agent_session \<Rightarrow> nat" where
  "user_turn_count s = length (filter is_user_turn_message (se_messages s))"

definition user_turn_positions :: "message list \<Rightarrow> nat list" where
  "user_turn_positions ms = map fst (filter (\<lambda>(_, m). is_user_turn_message m) (List.enumerate 0 ms))"

definition truncate_from_user_turn :: "nat \<Rightarrow> agent_session \<Rightarrow> (string + unit) \<times> agent_session" where
  "truncate_from_user_turn k s =
     (let positions = user_turn_positions (se_messages s) in
      if k < length positions
      then (Inr (), s\<lparr>se_messages := take (positions ! k) (se_messages s), se_last_prompt := 0\<rparr>)
      else (Inl (''user turn index '' @ show_nat k @ '' not found''), s))"

definition insert_assistant_turn_prefix :: "string \<Rightarrow> agent_session \<Rightarrow> (string + unit) \<times> agent_session" where
  "insert_assistant_turn_prefix text s =
     (let positions = user_turn_positions (se_messages s) in
      if positions = [] then (Inl ''cannot prefix assistant turn: session has no user turn'', s)
      else (Inr (), s\<lparr>se_messages :=
              take (last positions + 1) (se_messages s) @ [message_assistant text]
                @ drop (last positions + 1) (se_messages s)\<rparr>))"

definition set_history :: "message list \<Rightarrow> agent_session \<Rightarrow> agent_session" where
  "set_history ms s = s\<lparr>se_inflight := None, se_messages := close_orphan_tool_calls ms\<rparr>"

definition session_clear :: "agent_session \<Rightarrow> agent_session" where
  "session_clear s = s\<lparr>se_inflight := None, se_messages := []\<rparr>"

section \<open>Compaction\<close>

type_synonym summariser = "string \<Rightarrow> string \<Rightarrow> string \<Rightarrow> nat \<Rightarrow> llm_response"

fun summarise :: "(nat \<Rightarrow> llm_response) \<Rightarrow> nat \<Rightarrow> nat \<Rightarrow> usage \<Rightarrow> string option \<times> usage" where
  "summarise complete 0 ordinal spent = (None, spent)"
| "summarise complete (Suc left) ordinal spent =
     (let resp = complete ordinal;
          spent1 = accumulate_usage spent (lr_usage resp);
          text = join [newline] (List.map_filter text_of (lr_content resp))
      in if lr_error_message resp = None \<and> trim text \<noteq> [] then (Some (trim text), spent1)
         else summarise complete left (ordinal + 1) spent1)"

definition compact :: "summariser \<Rightarrow> string \<Rightarrow> nat \<Rightarrow> agent_session \<Rightarrow> compaction_event option \<times> agent_session" where
  "compact complete default_prompt ordinal s =
     (case se_compaction s of
        None \<Rightarrow> (None, s)
      | Some policy \<Rightarrow>
          (case choose_cut (se_messages s) (target_tokens policy) of
             None \<Rightarrow> (None, s)
           | Some cutoff \<Rightarrow>
               (let summary_model = (case cp_summary_model policy of Some m \<Rightarrow> m | None \<Rightarrow> se_model s);
                    summary_system = (case cp_summary_prompt policy of Some p \<Rightarrow> p | None \<Rightarrow> default_prompt);
                    evicted = take cutoff (se_messages s);
                    request = ''Summarize this earlier conversation:'' @ [newline, newline] @ transcript_for_summary evicted;
                    (summary, spent) = summarise (complete summary_model summary_system request) 2 ordinal (se_total_usage s);
                    replacement = (case summary of Some text \<Rightarrow> summary_message text | None \<Rightarrow> drop_marker_message);
                    compacted = replacement # drop cutoff (se_messages s)
                in (Some \<lparr>ce_evicted_turns = length (turn_starts evicted), ce_evicted_messages = cutoff,
                          ce_before = estimate_tokens (se_messages s), ce_after = estimate_tokens compacted,
                          ce_summary_model = summary_model, ce_fallback_drop = (summary = None)\<rparr>,
                    s\<lparr>se_messages := compacted, se_total_usage := spent, se_last_prompt := 0\<rparr>))))"

section \<open>The turn journal\<close>

definition finalize_cancelled_turn :: "bool \<Rightarrow> agent_session \<Rightarrow> cancelled_turn_kind option \<times> agent_session" where
  "finalize_cancelled_turn usage_already_applied s =
     (case se_inflight s of
        None \<Rightarrow> (None, s)
      | Some j \<Rightarrow>
          (let completed = materialize_cancelled_suffix (jn_suffix j) (se_note s);
               (kind, messages) =
                 (case jn_mode j of
                    JournalAppend \<Rightarrow> (CancelledNew, se_messages s @ completed)
                  | JournalReplaceFrom index \<Rightarrow> (CancelledRetry, take index (se_messages s) @ completed));
               s1 = s\<lparr>se_inflight := None, se_messages := messages\<rparr>
           in (Some kind,
               if usage_already_applied then s1
               else s1\<lparr>se_total_usage := accumulate_usage (se_total_usage s) (jn_usage j),
                       se_last_prompt := (if prompt_tokens (jn_last_usage j) > 0 then prompt_tokens (jn_last_usage j)
                                          else se_last_prompt s)\<rparr>)))"

definition begin_turn_journal :: "turn_journal_mode \<Rightarrow> message \<Rightarrow> agent_session \<Rightarrow> agent_session" where
  "begin_turn_journal mode user s =
     (let s1 = (if se_inflight s \<noteq> None then snd (finalize_cancelled_turn False s) else s)
      in s1\<lparr>se_inflight := Some \<lparr>jn_mode = mode, jn_suffix = [user], jn_usage = usage_default,
                                  jn_last_usage = usage_default\<rparr>\<rparr>)"

definition reset_turn_journal :: "message \<Rightarrow> agent_session \<Rightarrow> agent_session" where
  "reset_turn_journal user s =
     s\<lparr>se_inflight := map_option (\<lambda>j. j\<lparr>jn_suffix := [user], jn_usage := usage_default, jn_last_usage := usage_default\<rparr>)
                        (se_inflight s)\<rparr>"

definition restore_turn_journal_from_result :: "agent_result \<Rightarrow> agent_session \<Rightarrow> agent_session" where
  "restore_turn_journal_from_result result s =
     s\<lparr>se_inflight := map_option (\<lambda>j.
         let start = (case jn_mode j of JournalAppend \<Rightarrow> length (se_messages s) | JournalReplaceFrom index \<Rightarrow> index)
         in j\<lparr>jn_suffix := drop start (ar_messages result), jn_usage := ar_usage result,
              jn_last_usage := ar_last_usage result\<rparr>) (se_inflight s)\<rparr>"

datatype journal_event =
    Checkpoint "message list"
  | CheckpointToolResults "message list" "content_block list"
  | RecordUsage usage usage

fun journal_checkpoint :: "nat \<Rightarrow> journal_event \<Rightarrow> turn_journal \<Rightarrow> turn_journal" where
  "journal_checkpoint base_len (Checkpoint messages) j = j\<lparr>jn_suffix := drop base_len messages\<rparr>"
| "journal_checkpoint base_len (CheckpointToolResults messages tool_results) j =
     j\<lparr>jn_suffix := drop base_len (messages @
          (if tool_results \<noteq> [] then [\<lparr>msg_role = RoleUser, msg_content = tool_results\<rparr>] else []))\<rparr>"
| "journal_checkpoint base_len (RecordUsage usage last_usage) j = j\<lparr>jn_usage := usage, jn_last_usage := last_usage\<rparr>"

definition journal_write :: "nat \<Rightarrow> journal_event \<Rightarrow> agent_session \<Rightarrow> agent_session" where
  "journal_write base_len ev s = s\<lparr>se_inflight := map_option (journal_checkpoint base_len ev) (se_inflight s)\<rparr>"

section \<open>Prompting\<close>

type_synonym runner = "nat \<Rightarrow> message list \<Rightarrow> journal_event list \<times> agent_result"

definition attempt_with_history ::
  "(message list \<Rightarrow> journal_event list \<times> agent_result) \<Rightarrow> message list \<Rightarrow> message \<Rightarrow> agent_session
    \<Rightarrow> agent_result \<times> agent_session" where
  "attempt_with_history run history user s =
     (let s1 = reset_turn_journal user s;
          (events, result) = run (history @ [user]);
          s2 = fold (journal_write (length history)) events s1
      in (result, s2\<lparr>se_total_usage := accumulate_usage (se_total_usage s2) (ar_usage result),
                      se_last_prompt := prompt_tokens (ar_last_usage result)\<rparr>))"

definition run_prompt_attempt ::
  "runner \<Rightarrow> summariser \<Rightarrow> string \<Rightarrow> message \<Rightarrow> agent_session \<Rightarrow> agent_result \<times> agent_session" where
  "run_prompt_attempt run complete default_prompt user s =
     (let s1 = (if has_orphan_tool_calls (se_messages s)
                then s\<lparr>se_messages := close_orphan_tool_calls (se_messages s)\<rparr> else s);
          s2 = (case se_compaction s1 of
                  None \<Rightarrow> s1
                | Some policy \<Rightarrow>
                    (let occupancy = (if se_last_prompt s1 > 0 then se_last_prompt s1
                                      else estimate_prompt_tokens (se_system s1) (se_messages s1))
                     in if should_compact policy occupancy then snd (compact complete default_prompt 0 s1) else s1));
          (result, s3) = attempt_with_history (run 0) (se_messages s2) user s2
      in if ar_overflow result \<and> se_compaction s3 \<noteq> None
         then (case compact complete default_prompt 2 (reset_turn_journal user s3) of
                 (Some _, s4) \<Rightarrow> attempt_with_history (run 1) (se_messages s4) user s4
               | (None, s4) \<Rightarrow> (result, restore_turn_journal_from_result result s4))
         else (result, s3))"

definition commit :: "agent_result \<Rightarrow> agent_session \<Rightarrow> turn_result \<times> agent_session" where
  "commit result s =
     (\<lparr>tr_text = last_assistant_text (ar_messages result), tr_usage = ar_usage result,
       tr_last_usage = ar_last_usage result, tr_stop_reason = ar_stop_reason result,
       tr_error_message = ar_error_message result, tr_overflow = ar_overflow result\<rparr>,
      s\<lparr>se_messages := ar_messages result\<rparr>)"

definition commit_staged :: "agent_result \<Rightarrow> agent_session \<Rightarrow> turn_result \<times> agent_session" where
  "commit_staged result s = commit result (s\<lparr>se_inflight := None\<rparr>)"

definition prompt_message ::
  "runner \<Rightarrow> summariser \<Rightarrow> string \<Rightarrow> message \<Rightarrow> agent_session \<Rightarrow> turn_result \<times> agent_session" where
  "prompt_message run complete default_prompt user s =
     (let (result, s1) = run_prompt_attempt run complete default_prompt user (begin_turn_journal JournalAppend user s)
      in commit_staged result s1)"

definition retry_last_turn ::
  "runner \<Rightarrow> agent_session \<Rightarrow> (string + turn_result) \<times> agent_session" where
  "retry_last_turn run s =
     (let positions = user_turn_positions (se_messages s) in
      if positions = [] then (Inl ''cannot retry: session has no user turn'', s)
      else
        (let index = last positions; user = se_messages s ! index;
             s1 = begin_turn_journal (JournalReplaceFrom index) user s;
             (result, s2) = attempt_with_history (run 0) (take index (se_messages s)) user s1;
             (outcome, s3) = commit_staged result s2
         in (Inr outcome, s3)))"

section \<open>Compaction keeps the history usable\<close>

lemma summary_message_facts [simp]:
  "calls_in (summary_message t) = {}" "results_in (summary_message t) = {}" "\<not> is_user_turn_message (summary_message t)"
  by (simp_all add: summary_message_def message_user_def calls_in_def results_in_def is_user_turn_message_def
      summary_prefix_def starts_with_def)

lemma drop_marker_facts [simp]:
  "calls_in drop_marker_message = {}" "results_in drop_marker_message = {}" "\<not> is_user_turn_message drop_marker_message"
  by (simp_all add: drop_marker_message_def message_user_def calls_in_def results_in_def is_user_turn_message_def
      truncated_prefix_def starts_with_def)

lemma choose_cut_start:
  assumes "choose_cut ms t = Some c"
  shows "0 < c \<and> c < length ms \<and> is_turn_start (ms ! c)"
proof -
  have "\<not> length (turn_starts ms) < 2" using assms by (auto simp: choose_cut_def)
  then obtain d where "d \<in> set (turn_starts ms)" "choose_cut ms t = (if d > 0 then Some d else None)"
    by (rule choose_cut_cases)
  with assms show ?thesis by (auto simp: turn_starts_set split: if_splits)
qed

lemma compact_Some:
  assumes "compact complete dp k s = (Some ev, s')"
  obtains c r where "0 < c" "c < length (se_messages s)" "is_turn_start (se_messages s ! c)"
    "se_messages s' = r # drop c (se_messages s)" "calls_in r = {}" "results_in r = {}" "\<not> is_user_turn_message r"
    "ce_evicted_messages ev = c" "s' = s\<lparr>se_messages := se_messages s', se_total_usage := se_total_usage s', se_last_prompt := 0\<rparr>"
proof -
  obtain policy c where pc: "se_compaction s = Some policy" "choose_cut (se_messages s) (target_tokens policy) = Some c"
    using assms by (auto simp: compact_def split: option.splits)
  obtain summary spent where sum: "summarise (complete
      (case cp_summary_model policy of Some m \<Rightarrow> m | None \<Rightarrow> se_model s)
      (case cp_summary_prompt policy of Some p \<Rightarrow> p | None \<Rightarrow> dp)
      (''Summarize this earlier conversation:'' @ [newline, newline] @ transcript_for_summary (take c (se_messages s))))
      2 k (se_total_usage s) = (summary, spent)" by fastforce
  define r where "r = (case summary of Some text \<Rightarrow> summary_message text | None \<Rightarrow> drop_marker_message)"
  have "s' = s\<lparr>se_messages := r # drop c (se_messages s), se_total_usage := spent, se_last_prompt := 0\<rparr>"
    "ce_evicted_messages ev = c"
    using assms pc sum by (auto simp: compact_def r_def Let_def simp del: summarise.simps)
  moreover have "calls_in r = {}" "results_in r = {}" "\<not> is_user_turn_message r"
    by (simp_all add: r_def split: option.split)
  ultimately show ?thesis using that [of c r] choose_cut_start [OF pc(2)] by simp
qed

lemma compact_None: "compact complete dp k s = (None, s') \<Longrightarrow> s' = s"
  by (auto simp: compact_def Let_def split: option.splits prod.splits)

definition user_turns :: "agent_session \<Rightarrow> message list" where
  "user_turns s = filter is_user_turn_message (se_messages s)"

lemma filter_drop: "\<exists>k. filter P (drop n xs) = drop k (filter P xs)"
proof (intro exI)
  show "filter P (drop n xs) = drop (length (filter P (take n xs))) (filter P xs)"
    by (metis append_eq_conv_conj append_take_drop_id filter_append)
qed

lemma compact_keeps:
  assumes "compact complete dp k s = (ev, s')" and "paired (se_messages s)"
  shows "paired (se_messages s') \<and> (\<exists>n. user_turns s' = drop n (user_turns s))
    \<and> se_inflight s' = se_inflight s \<and> se_note s' = se_note s"
proof (cases ev)
  case None
  with assms compact_None have "s' = s" by blast
  with assms(2) show ?thesis by (auto intro: exI [of _ 0])
next
  case (Some e)
  from assms(1) [unfolded Some] obtain c r where cr: "c < length (se_messages s)" "is_turn_start (se_messages s ! c)"
    "se_messages s' = r # drop c (se_messages s)" "calls_in r = {}" "results_in r = {}" "\<not> is_user_turn_message r"
    "s' = s\<lparr>se_messages := se_messages s', se_total_usage := se_total_usage s', se_last_prompt := 0\<rparr>"
    by (rule compact_Some)
  have "paired (se_messages s')"
    using paired_after_cut [OF assms(2) cr(2,1,4,5)] cr(3) by simp
  moreover have "\<exists>n. user_turns s' = drop n (user_turns s)"
    using filter_drop [of is_user_turn_message c "se_messages s"] cr(3,6) by (simp add: user_turns_def)
  moreover have "se_inflight s' = se_inflight s" "se_note s' = se_note s" by (subst cr(7), simp)+
  ultimately show ?thesis by blast
qed

lemma calls_in_ids: "set (call_ids m) \<subseteq> calls_in m"
  by (auto simp: call_ids_def calls_in_def List.map_filter_def split: if_splits)

lemma paired_repair: "paired ms \<Longrightarrow> close_orphan_tool_calls ms = ms"
proof (rule repair_idle, rule subsetI)
  fix i assume p: "paired ms" and "i \<in> set (concat (map call_ids ms))"
  then obtain m where "m \<in> set ms" "i \<in> calls_in m" using calls_in_ids by fastforce
  then obtain k where "k < length ms" "i \<in> calls_in (ms ! k)" by (metis in_set_conv_nth)
  with p obtain j where j: "j < length ms" "i \<in> results_in (ms ! j)"
    unfolding paired_def same_turn_def by blast
  then obtain b where "b \<in> set (msg_content (ms ! j))" "tool_result_id b = Some i"
    by (auto simp: results_in_def)
  with j(1) have "b \<in> set (concat (map msg_content ms))" by (auto intro: nth_mem)
  with \<open>tool_result_id b = Some i\<close> show "i \<in> set (result_ids ms)"
    by (force simp: result_ids_def List.map_filter_def)
qed

section \<open>A turn, cut off anywhere\<close>

text \<open>
  What a prompt does to the session between taking the user message and being cancelled, as a
  sequence of moves; the first component of the state is the length of the history that the
  current journal writer was created with.
\<close>

datatype turn_move =
    MoveRepair
  | MoveCompact summariser string nat
  | MoveAttempt
  | MoveReset
  | MoveWrite journal_event
  | MoveAccount agent_result
  | MoveRestore agent_result

fun do_move :: "message \<Rightarrow> turn_move \<Rightarrow> nat \<times> agent_session \<Rightarrow> nat \<times> agent_session" where
  "do_move user MoveRepair (n, s) =
     (n, if has_orphan_tool_calls (se_messages s) then s\<lparr>se_messages := close_orphan_tool_calls (se_messages s)\<rparr> else s)"
| "do_move user (MoveCompact complete dp k) (n, s) = (n, snd (compact complete dp k s))"
| "do_move user MoveAttempt (n, s) = (length (se_messages s), reset_turn_journal user s)"
| "do_move user MoveReset (n, s) = (n, reset_turn_journal user s)"
| "do_move user (MoveWrite ev) (n, s) = (n, journal_write n ev s)"
| "do_move user (MoveAccount result) (n, s) =
     (n, s\<lparr>se_total_usage := accumulate_usage (se_total_usage s) (ar_usage result),
           se_last_prompt := prompt_tokens (ar_last_usage result)\<rparr>)"
| "do_move user (MoveRestore result) (n, s) = (n, restore_turn_journal_from_result result s)"

fun event_messages :: "journal_event \<Rightarrow> message list option" where
  "event_messages (Checkpoint ms) = Some ms"
| "event_messages (CheckpointToolResults ms _) = Some ms"
| "event_messages (RecordUsage _ _) = None"

text \<open>
  The tool loop only extends the request: the messages it checkpoints and returns have the user
  message where the request had it.
\<close>

fun extends_request :: "message \<Rightarrow> turn_move \<Rightarrow> nat \<times> agent_session \<Rightarrow> bool" where
  "extends_request user (MoveWrite ev) (n, s) =
     (case event_messages ev of Some ms \<Rightarrow> n < length ms \<and> ms ! n = user | None \<Rightarrow> True)"
| "extends_request user (MoveRestore result) (n, s) =
     (length (se_messages s) < length (ar_messages result) \<and> ar_messages result ! length (se_messages s) = user)"
| "extends_request user _ st = True"

fun run_moves :: "message \<Rightarrow> turn_move list \<Rightarrow> nat \<times> agent_session \<Rightarrow> (nat \<times> agent_session) option" where
  "run_moves user [] st = Some st"
| "run_moves user (mv # mvs) st =
     (if extends_request user mv st then run_moves user mvs (do_move user mv st) else None)"

definition journal_inv :: "message \<Rightarrow> agent_session \<Rightarrow> agent_session \<Rightarrow> bool" where
  "journal_inv user s0 s \<longleftrightarrow>
     (\<exists>j tl. se_inflight s = Some j \<and> jn_mode j = JournalAppend \<and> jn_suffix j = user # tl)
     \<and> paired (se_messages s) \<and> (\<exists>n. user_turns s = drop n (user_turns s0)) \<and> se_note s = se_note s0"

lemma journal_inv_compact: "journal_inv user s0 s \<Longrightarrow> journal_inv user s0 (snd (compact complete dp k s))"
proof -
  assume inv: "journal_inv user s0 s"
  obtain ev s' where c: "compact complete dp k s = (ev, s')" by fastforce
  with compact_keeps [OF c] inv obtain n m where
    "user_turns s' = drop n (user_turns s)" "user_turns s = drop m (user_turns s0)"
    "paired (se_messages s')" "se_inflight s' = se_inflight s" "se_note s' = se_note s"
    unfolding journal_inv_def by blast
  with inv c show ?thesis by (auto simp: journal_inv_def)
qed

lemma journal_inv_repair: "journal_inv user s0 s \<Longrightarrow> journal_inv user s0 (s\<lparr>se_messages := close_orphan_tool_calls (se_messages s)\<rparr>)"
  by (simp add: journal_inv_def paired_repair user_turns_def)

lemma drop_at: "n < length ms \<Longrightarrow> ms ! n = user \<Longrightarrow> drop n (ms @ xs) = user # drop (Suc n) (ms @ xs)"
  by (simp add: Cons_nth_drop_Suc [symmetric] nth_append)

lemma journal_inv_write:
  assumes "journal_inv user s0 s" and "extends_request user (MoveWrite ev) (n, s)"
  shows "journal_inv user s0 (journal_write n ev s)"
proof -
  have "\<exists>tl. jn_suffix (journal_checkpoint n ev j) = user # tl" if "jn_suffix j = user # tl" for j tl
    using that assms(2) by (cases ev) (auto simp: drop_at drop_at [where xs = "[]", simplified])
  moreover have "jn_mode (journal_checkpoint n ev j) = jn_mode j" for j by (cases ev) simp_all
  ultimately show ?thesis
    using assms(1) by (fastforce simp: journal_inv_def journal_write_def user_turns_def)
qed

lemma journal_inv_move:
  assumes "journal_inv user s0 s" and "extends_request user mv (n, s)"
  shows "journal_inv user s0 (snd (do_move user mv (n, s)))"
proof (cases mv)
  case (MoveWrite ev)
  with journal_inv_write assms show ?thesis by simp
next
  case (MoveRestore r)
  with assms show ?thesis
    by (auto simp: journal_inv_def restore_turn_journal_from_result_def user_turns_def Let_def
        drop_at [where xs = "[]", simplified])
next
  case (MoveCompact complete dp k)
  with assms(1) journal_inv_compact show ?thesis by simp
next
  case MoveRepair
  with assms(1) journal_inv_repair show ?thesis by simp
qed (use assms(1) in \<open>auto simp: journal_inv_def reset_turn_journal_def user_turns_def\<close>)

lemma journal_inv_run:
  "run_moves user mvs st = Some (n', s') \<Longrightarrow> journal_inv user s0 (snd st) \<Longrightarrow> journal_inv user s0 s'"
proof (induction mvs arbitrary: st)
  case (Cons mv mvs)
  then have ok: "extends_request user mv st" "run_moves user mvs (do_move user mv st) = Some (n', s')"
    by (auto split: if_splits)
  have "journal_inv user s0 (snd (do_move user mv st))"
    using journal_inv_move [of user s0 "snd st" mv "fst st"] Cons.prems(2) ok(1) by simp
  with Cons.IH ok(2) show ?case by blast
qed simp

text \<open>The prompt itself is such a sequence of moves.\<close>

lemma attempt_moves:
  "\<exists>mvs n'. fold (do_move user) mvs (n, s) = (n', snd (attempt_with_history run (se_messages s) user s))"
proof -
  obtain evs result where r: "run (se_messages s @ [user]) = (evs, result)" by fastforce
  have writes: "fold (do_move user) (map MoveWrite evs) (k, t) = (k, fold (journal_write k) evs t)" for k t
    by (induction evs arbitrary: t) simp_all
  show ?thesis
    by (intro exI [of _ "MoveAttempt # map MoveWrite evs @ [MoveAccount result]"] exI [of _ "length (se_messages s)"])
      (simp add: attempt_with_history_def r writes Let_def)
qed

lemma prompt_attempt_moves:
  "\<exists>mvs n'. fold (do_move user) mvs (n, s) = (n', snd (run_prompt_attempt run complete dp user s))"
proof -
  define s1 where "s1 = (if has_orphan_tool_calls (se_messages s)
      then s\<lparr>se_messages := close_orphan_tool_calls (se_messages s)\<rparr> else s)"
  define s2 where "s2 = (case se_compaction s1 of None \<Rightarrow> s1 | Some policy \<Rightarrow>
      (let occupancy = (if se_last_prompt s1 > 0 then se_last_prompt s1
                        else estimate_prompt_tokens (se_system s1) (se_messages s1))
       in if should_compact policy occupancy then snd (compact complete dp 0 s1) else s1))"
  obtain result s3 where a: "attempt_with_history (run 0) (se_messages s2) user s2 = (result, s3)" by fastforce
  have "s2 = s1 \<or> s2 = snd (compact complete dp 0 s1)" by (auto simp: s2_def Let_def split: option.splits)
  then obtain pre where pre: "fold (do_move user) pre (n, s1) = (n, s2)"
    by (metis do_move.simps(2) fold_simps(1,2))
  obtain mvs n1 where att: "fold (do_move user) mvs (n, s2) = (n1, s3)"
    using attempt_moves [of user n s2 "run 0"] a by auto
  have to_s3: "fold (do_move user) (MoveRepair # pre @ mvs) (n, s) = (n1, s3)"
    using pre att by (simp add: s1_def)
  obtain ev s4 where c: "compact complete dp 2 (reset_turn_journal user s3) = (ev, s4)" by fastforce
  have to_s4: "fold (do_move user) (MoveRepair # pre @ mvs @ [MoveReset, MoveCompact complete dp 2]) (n, s) = (n1, s4)"
    using to_s3 c by simp
  have eq: "run_prompt_attempt run complete dp user s =
      (if ar_overflow result \<and> se_compaction s3 \<noteq> None
       then (case ev of Some _ \<Rightarrow> attempt_with_history (run 1) (se_messages s4) user s4
             | None \<Rightarrow> (result, restore_turn_journal_from_result result s4))
       else (result, s3))"
    unfolding run_prompt_attempt_def s1_def [symmetric] Let_def s2_def [unfolded Let_def, symmetric] a
    by (auto simp: c split: option.splits)
  show ?thesis
  proof (cases "ar_overflow result \<and> se_compaction s3 \<noteq> None")
    case False
    then have "snd (run_prompt_attempt run complete dp user s) = s3" using eq by auto
    with to_s3 show ?thesis by metis
  next
    case True
    show ?thesis
    proof (cases ev)
      case None
      have "fold (do_move user) (MoveRepair # pre @ mvs @ [MoveReset, MoveCompact complete dp 2, MoveRestore result]) (n, s) =
          (n1, restore_turn_journal_from_result result s4)"
        using to_s4 by simp
      moreover have "snd (run_prompt_attempt run complete dp user s) = restore_turn_journal_from_result result s4"
        using True None eq by auto
      ultimately show ?thesis by metis
    next
      case (Some e)
      obtain mvs2 n2 where "fold (do_move user) mvs2 (n1, s4) = (n2, snd (attempt_with_history (run 1) (se_messages s4) user s4))"
        using attempt_moves by blast
      then have "fold (do_move user) ((MoveRepair # pre @ mvs @ [MoveReset, MoveCompact complete dp 2]) @ mvs2) (n, s) =
          (n2, snd (attempt_with_history (run 1) (se_messages s4) user s4))"
        unfolding fold_append comp_def to_s4 .
      moreover have "snd (run_prompt_attempt run complete dp user s) =
          snd (attempt_with_history (run 1) (se_messages s4) user s4)"
        using True Some eq by auto
      ultimately show ?thesis by metis
    qed
  qed
qed

lemma materialize_head:
  assumes "msg_role user = RoleUser"
  shows "\<exists>rest'. materialize_cancelled_suffix (user # rest) note = user # rest'"
  using assms by (auto simp: materialize_cancelled_suffix_def append_note_def butlast_append)

lemma user_turn_positions_facts:
  "length (user_turn_positions ms) = length (filter is_user_turn_message ms)
   \<and> (\<forall>k < length (user_turn_positions ms). user_turn_positions ms ! k < length ms
        \<and> is_user_turn_message (ms ! (user_turn_positions ms ! k))
        \<and> length (filter is_user_turn_message (take (user_turn_positions ms ! k) ms)) = k)"
proof (induction ms rule: rev_induct)
  case (snoc m ms)
  have "user_turn_positions (ms @ [m]) = user_turn_positions ms @ (if is_user_turn_message m then [length ms] else [])"
    by (simp add: user_turn_positions_def enumerate_append_eq)
  with snoc show ?case by (auto simp: nth_append less_Suc_eq)
qed (simp add: user_turn_positions_def)

section \<open>Properties\<close>

text \<open>
  Property C32. Compaction keeps the history acceptable. If calls and results were paired within
  their turns, they still are; what is kept is a tail of the history that starts a turn, behind one
  replacement message that is not a user turn; the user turns that remain are the newest ones;
  the journal is untouched. Without a cut nothing changes.
\<close>

theorem compaction_preserves_pairs:
  assumes "paired (se_messages s)" and "compact complete dp k s = (ev, s')"
  shows "paired (se_messages s') \<and> (\<exists>n. user_turns s' = drop n (user_turns s)) \<and> se_inflight s' = se_inflight s
    \<and> (case ev of
         None \<Rightarrow> s' = s
       | Some e \<Rightarrow> (\<exists>r. se_messages s' = r # drop (ce_evicted_messages e) (se_messages s) \<and> \<not> is_user_turn_message r)
           \<and> is_turn_start (se_messages s ! ce_evicted_messages e) \<and> se_last_prompt s' = 0)"
proof (cases ev)
  case None
  with compact_None assms compact_keeps [OF assms(2,1)] show ?thesis by simp
next
  case (Some e)
  from assms(2) [unfolded Some] obtain c r where "is_turn_start (se_messages s ! c)"
    "se_messages s' = r # drop c (se_messages s)" "\<not> is_user_turn_message r" "ce_evicted_messages e = c"
    "s' = s\<lparr>se_messages := se_messages s', se_total_usage := se_total_usage s', se_last_prompt := 0\<rparr>"
    by (rule compact_Some)
  moreover from this(5) have "se_last_prompt s' = 0" by (rule ssubst) simp
  ultimately show ?thesis using Some compact_keeps [OF assms(2,1)] by auto
qed

theorem compaction_preserves_pairs_witness:
  "\<exists>s ev s'. length (se_messages s) = 3 \<and> compact (\<lambda>_ _ _ _. response_error ''x'') [] 0 s = (Some ev, s')
     \<and> ce_fallback_drop ev \<and> paired (se_messages s')"
proof -
  define s :: agent_session where "s = \<lparr>se_messages = [message_user ''abcd'', message_assistant ''x'', message_user ''abcd''],
     se_total_usage = usage_default, se_last_prompt = 9, se_inflight = None,
     se_compaction = Some \<lparr>cp_high_mark = 1, cp_target = 1, cp_window = 9, cp_reservation = 0, cp_summary_model = None,
       cp_summary_prompt = None\<rparr>, se_system = None, se_model = ''m'', se_note = []\<rparr>"
  obtain ev s' where c: "compact (\<lambda>_ _ _ _. response_error ''x'') [] 0 s = (ev, s')" by fastforce
  have "choose_cut (se_messages s) (target_tokens (the (se_compaction s))) = Some 2" unfolding s_def by code_simp
  then obtain e where e: "ev = Some e" "ce_fallback_drop e"
    using c by (auto simp: compact_def s_def Let_def response_error_def numeral_2_eq_2)
  have "paired (se_messages s)"
    by (auto simp: s_def paired_def results_in_def calls_in_def message_user_def message_assistant_def less_Suc_eq)
  from compaction_preserves_pairs [OF this c] e c show ?thesis by (intro exI [of _ s]) (auto simp: s_def)
qed



text \<open>
  Observation. Rewinding to a user turn keeps exactly the turns before it: for an existing turn
  the history becomes its prefix in front of that turn, with as many user turns as the index and
  no measured occupancy; otherwise an error is reported and nothing changes.
\<close>

theorem truncate_from_user_turn_correct:
  "(if k < user_turn_count s
    then \<exists>p < length (se_messages s). is_user_turn_message (se_messages s ! p)
      \<and> truncate_from_user_turn k s = (Inr (), s\<lparr>se_messages := take p (se_messages s), se_last_prompt := 0\<rparr>)
      \<and> user_turn_count (snd (truncate_from_user_turn k s)) = k
    else truncate_from_user_turn k s = (Inl (''user turn index '' @ show_nat k @ '' not found''), s))"
  using user_turn_positions_facts [of "se_messages s"]
  by (auto simp: truncate_from_user_turn_def user_turn_count_def Let_def)

end
