(* ===== verification/Loop_Detector.thy ===== *)
theory Loop_Detector
  imports Text_More "HOL-Library.AList" "HOL-Library.List_Lexorder" "HOL-Library.Char_ord" "HOL-Library.Product_Lexorder"
begin

text \<open>
  The retry-storm detector of the agent loop (src/src/loop_detector.rs). A tool call is reduced to
  the fingerprints of its call and of its result; the hash of a list of fingerprints is the
  argument \<open>hash\<close>. Counters are unbounded, as they stay far below the width of their types within one turn.
\<close>

record call_observation =
  co_name :: string
  co_call :: nat
  co_result :: nat
  co_error :: bool
  co_transient :: bool

datatype round_verdict = Proceed | Steer string | Break string

record detector_config =
  dc_repeat_threshold :: nat
  dc_no_novelty_rounds :: nat
  dc_circuit_breaker_rounds :: nat

record detector_stats =
  st_rounds :: nat
  st_emitted :: nat
  st_suppressed :: nat
  st_max_repeats :: nat

record loop_detector =
  ld_cfg :: detector_config
  ld_sections :: "string list"
  ld_pairs :: "((nat \<times> nat \<times> bool) \<times> nat) list"
  ld_failures :: "((nat \<times> nat) \<times> nat) list"
  ld_no_novelty :: nat
  ld_last_call_set :: "nat option"
  ld_steered :: "nat option"
  ld_ignored :: nat
  ld_rotation :: nat
  ld_stats :: detector_stats

definition failure_warn_rounds :: nat where "failure_warn_rounds = 3"
definition failure_stop_rounds :: nat where "failure_stop_rounds = 6"
definition max_tracked_failures :: nat where "max_tracked_failures = 128"

definition detector_new :: "detector_config \<Rightarrow> string \<Rightarrow> loop_detector" where
  "detector_new cfg steer_template =
     \<lparr>ld_cfg = cfg,
      ld_sections = filter (\<lambda>s. s \<noteq> []) (map trim (split_str ([newline] @ ''---'' @ [newline]) steer_template)),
      ld_pairs = [], ld_failures = [], ld_no_novelty = 0, ld_last_call_set = None, ld_steered = None,
      ld_ignored = 0, ld_rotation = 0,
      ld_stats = \<lparr>st_rounds = 0, st_emitted = 0, st_suppressed = 0, st_max_repeats = 0\<rparr>\<rparr>"

definition on_context_pruned :: "loop_detector \<Rightarrow> loop_detector" where
  "on_context_pruned d = d\<lparr>ld_pairs := [], ld_no_novelty := 0\<rparr>"

section \<open>Texts\<close>

definition sort_dedup :: "'a :: linorder list \<Rightarrow> 'a list" where
  "sort_dedup xs = remdups_adj (sort xs)"

definition summarize_tools :: "call_observation list \<Rightarrow> string" where
  "summarize_tools round =
     (let names = sort_dedup (map co_name round);
          overflow = length names - 5;
          out = join '', '' (take 5 names)
      in if overflow > 0 then out @ '' (+'' @ show_nat overflow @ '' more)'' else out)"

definition fallback_steer :: string where
  "fallback_steer = ''You are repeating identical tool calls that return identical results. Change your approach.''"

definition failure_exhausted_text :: "call_observation list \<Rightarrow> string" where
  "failure_exhausted_text round =
     ''exact failure budget exhausted: '' @ show_nat max_tracked_failures @
     '' distinct failed calls in this turn (tools: '' @ summarize_tools round @
     ''); stopping rather than evicting protection''"

definition failure_stop_text :: "string \<Rightarrow> nat \<Rightarrow> string" where
  "failure_stop_text name count =
     ''exact failure budget: tool '' @ name @ '' returned the same error in '' @ show_nat count @
     '' rounds. Stopping this turn; change the request or start a new turn.''"

definition failure_warn_text :: "string \<Rightarrow> string" where
  "failure_warn_text name =
     ''Tool '' @ name @ '' returned the same error in '' @ show_nat failure_warn_rounds @
     '' rounds. Do not repeat unchanged inputs; inspect the error or ask the user for clarification.''"

definition breaker_text :: "nat \<Rightarrow> call_observation list \<Rightarrow> string" where
  "breaker_text rounds round =
     ''loop detector circuit breaker: '' @ show_nat rounds @
     '' consecutive tool rounds produced no new information (repeated identical calls/results; tools: '' @
     summarize_tools round @
     ''). Stopping this turn; re-prompt with a different approach or raise [loop_detector].circuit_breaker_rounds.''"

definition render_steer :: "call_observation list \<Rightarrow> nat \<Rightarrow> loop_detector \<Rightarrow> string \<times> loop_detector" where
  "render_steer round repeats d =
     (let d1 = d\<lparr>ld_stats := (ld_stats d)\<lparr>st_emitted := st_emitted (ld_stats d) + 1\<rparr>\<rparr>;
          (section, d2) =
            (if ld_sections d1 = [] then (fallback_steer, d1)
             else (ld_sections d1 ! (ld_rotation d1 mod length (ld_sections d1)), d1\<lparr>ld_rotation := ld_rotation d1 + 1\<rparr>))
      in (replace_str ''{rounds}'' (show_nat (ld_no_novelty d))
            (replace_str ''{repeats}'' (show_nat repeats)
              (replace_str ''{tools}'' (summarize_tools round) section)), d2))"

section \<open>Observing a round\<close>

function is_power_of_two :: "nat \<Rightarrow> bool" where
  "is_power_of_two n = (if n = 0 then False else if n = 1 then True else even n \<and> is_power_of_two (n div 2))"
  by pat_completeness auto

termination
  by (relation "measure id") auto

declare is_power_of_two.simps [simp del]

fun count_pairs :: "(nat \<times> nat \<times> bool) list \<Rightarrow> ((nat \<times> nat \<times> bool) \<times> nat) list \<Rightarrow> nat
    \<Rightarrow> ((nat \<times> nat \<times> bool) \<times> nat) list \<times> nat" where
  "count_pairs [] m max_repeats = (m, max_repeats)"
| "count_pairs (p # ps) m max_repeats =
     (let count = (case map_of m p of Some n \<Rightarrow> n | None \<Rightarrow> 0) + 1
      in count_pairs ps (AList.update p count m) (max max_repeats count))"

definition call_set_fp :: "(nat list \<Rightarrow> nat) \<Rightarrow> call_observation list \<Rightarrow> nat" where
  "call_set_fp hash round = hash (sort_dedup (map co_call round))"

definition round_pairs :: "call_observation list \<Rightarrow> (nat \<times> nat \<times> bool) list" where
  "round_pairs round = sort_dedup (map (\<lambda>c. (co_call c, co_result c, co_error c)) round)"

definition novelty :: "call_observation list \<Rightarrow> loop_detector \<Rightarrow> bool" where
  "novelty round d \<longleftrightarrow> list_ex (\<lambda>p. map_of (ld_pairs d) p = None) (round_pairs round)"

definition observe_window :: "(nat list \<Rightarrow> nat) \<Rightarrow> call_observation list \<Rightarrow> loop_detector \<Rightarrow> nat \<times> nat \<times> loop_detector" where
  "observe_window hash round d =
     (let new = novelty round d;
          (pairs, max_repeats) = count_pairs (round_pairs round) (if new then [] else ld_pairs d) 0;
          call_set = call_set_fp hash round;
          changed = (case ld_steered d of Some steered \<Rightarrow> steered \<noteq> call_set | None \<Rightarrow> False)
      in (max_repeats, call_set,
          d\<lparr>ld_pairs := pairs,
            ld_stats := (ld_stats d)\<lparr>st_max_repeats := max (st_max_repeats (ld_stats d)) max_repeats\<rparr>,
            ld_no_novelty := (if new then 0 else ld_no_novelty d + 1),
            ld_steered := (if changed then None else ld_steered d),
            ld_ignored := (if changed then 0 else ld_ignored d),
            ld_last_call_set := Some call_set\<rparr>))"

definition observe_legacy :: "(nat list \<Rightarrow> nat) \<Rightarrow> call_observation list \<Rightarrow> loop_detector \<Rightarrow> round_verdict \<times> loop_detector" where
  "observe_legacy hash round d =
     (let (max_repeats, call_set, d1) = observe_window hash round d;
          cfg = ld_cfg d1;
          breaker = dc_circuit_breaker_rounds cfg
      in if breaker > 0 \<and> ld_no_novelty d1 \<ge> breaker then (Break (breaker_text (ld_no_novelty d1) round), d1)
         else
           (let repeat_hit = (dc_repeat_threshold cfg > 0 \<and> max_repeats \<ge> dc_repeat_threshold cfg);
                window_hit = (dc_no_novelty_rounds cfg > 0 \<and> ld_no_novelty d1 \<ge> dc_no_novelty_rounds cfg)
            in if \<not> repeat_hit \<and> \<not> window_hit then (Proceed, d1)
               else if ld_steered d1 = Some call_set
               then (let d2 = d1\<lparr>ld_ignored := ld_ignored d1 + 1\<rparr>
                     in if \<not> is_power_of_two (ld_ignored d2)
                        then (Proceed, d2\<lparr>ld_stats := (ld_stats d2)\<lparr>st_suppressed := st_suppressed (ld_stats d2) + 1\<rparr>\<rparr>)
                        else (case render_steer round max_repeats d2 of (text, d3) \<Rightarrow> (Steer text, d3)))
               else (case render_steer round max_repeats (d1\<lparr>ld_steered := Some call_set, ld_ignored := 0\<rparr>) of
                       (text, d3) \<Rightarrow> (Steer text, d3))))"

fun count_failures :: "call_observation list \<Rightarrow> (nat \<times> nat) list \<Rightarrow> ((nat \<times> nat) \<times> nat) list \<Rightarrow> string option
    \<Rightarrow> (string + string option) \<times> ((nat \<times> nat) \<times> nat) list" where
  "count_failures round [] m steer = (Inr steer, m)"
| "count_failures round (p # ps) m steer =
     (if map_of m p = None \<and> length m \<ge> max_tracked_failures then (Inl (failure_exhausted_text round), m)
      else
        (let count = (case map_of m p of Some n \<Rightarrow> n | None \<Rightarrow> 0) + 1;
             m1 = AList.update p count m;
             name = (case List.find (\<lambda>c. co_call c = fst p) round of Some c \<Rightarrow> co_name c | None \<Rightarrow> [])
         in if count \<ge> failure_stop_rounds then (Inl (failure_stop_text name count), m1)
            else count_failures round ps m1
                   (if count = failure_warn_rounds then Some (failure_warn_text name) else steer)))"

definition forget_successes :: "call_observation list \<Rightarrow> ((nat \<times> nat) \<times> nat) list \<Rightarrow> ((nat \<times> nat) \<times> nat) list" where
  "forget_successes round m =
     fold (\<lambda>c. filter (\<lambda>((call, _), _). call \<noteq> co_call c)) (filter (\<lambda>c. \<not> co_error c) round) m"

definition round_failures :: "call_observation list \<Rightarrow> ((nat \<times> nat) \<times> nat) list \<Rightarrow> (nat \<times> nat) list" where
  "round_failures round m =
     (let failures = sort_dedup (map (\<lambda>c. (co_call c, co_result c)) (filter (\<lambda>c. co_error c \<and> \<not> co_transient c) round))
      in filter (\<lambda>p. map_of m p \<noteq> None) failures @ filter (\<lambda>p. map_of m p = None) failures)"

definition observe_round :: "(nat list \<Rightarrow> nat) \<Rightarrow> call_observation list \<Rightarrow> loop_detector \<Rightarrow> round_verdict \<times> loop_detector" where
  "observe_round hash round d =
     (if round = [] then (Proceed, d)
      else
        (let d1 = d\<lparr>ld_stats := (ld_stats d)\<lparr>st_rounds := st_rounds (ld_stats d) + 1\<rparr>\<rparr>;
             kept = forget_successes round (ld_failures d1)
         in case count_failures round (round_failures round kept) kept None of
              (Inl text, m) \<Rightarrow> (Break text, d1\<lparr>ld_failures := m\<rparr>)
            | (Inr failure_steer, m) \<Rightarrow>
                (case observe_legacy hash round (d1\<lparr>ld_failures := m\<rparr>) of
                   (Proceed, d2) \<Rightarrow>
                     (case failure_steer of
                        Some text \<Rightarrow>
                          (Steer text,
                           d2\<lparr>ld_stats := (ld_stats d2)\<lparr>st_emitted := st_emitted (ld_stats d2) + 1\<rparr>,
                              ld_steered := ld_last_call_set d2, ld_ignored := 0\<rparr>)
                      | None \<Rightarrow> (Proceed, d2))
                 | (verdict, d2) \<Rightarrow> (verdict, d2))))"

section \<open>Runs\<close>

text \<open>The agent loop observes round after round and stops at a break.\<close>

fun observe_all :: "(nat list \<Rightarrow> nat) \<Rightarrow> call_observation list list \<Rightarrow> loop_detector \<Rightarrow> round_verdict list" where
  "observe_all hash [] d = []"
| "observe_all hash (r # rs) d =
     (case observe_round hash r d of
        (Break t, d1) \<Rightarrow> [Break t]
      | (v, d1) \<Rightarrow> v # observe_all hash rs d1)"

fun is_break :: "round_verdict \<Rightarrow> bool" where
  "is_break (Break _) = True"
| "is_break _ = False"

lemma set_sort_dedup [simp]: "set (sort_dedup xs) = set xs"
  by (simp add: sort_dedup_def)

lemma distinct_sort_dedup [simp]: "distinct (sort_dedup xs)"
proof -
  have "sorted ys \<Longrightarrow> distinct (remdups_adj ys)" for ys :: "'a list"
  proof (induction ys rule: remdups_adj.induct)
    case (3 x y ys)
    then show ?case by (cases "x = y") auto
  qed simp_all
  then show ?thesis by (simp add: sort_dedup_def)
qed

lemma is_power_of_two_iff: "is_power_of_two n \<longleftrightarrow> (\<exists>j. n = 2 ^ j)"
proof (induction n rule: is_power_of_two.induct)
  case (1 n)
  consider "n = 0" | "n = 1" | "n > 1" by linarith
  then show ?case
  proof cases
    case 3
    have "(\<exists>j. n = 2 ^ j) \<longleftrightarrow> even n \<and> (\<exists>j. n div 2 = 2 ^ j)"
    proof
      assume "\<exists>j. n = 2 ^ j"
      then obtain j where "n = 2 ^ j" by blast
      with 3 obtain i where "n = 2 ^ Suc i" by (cases j) auto
      then show "even n \<and> (\<exists>j. n div 2 = 2 ^ j)" by auto
    next
      assume "even n \<and> (\<exists>j. n div 2 = 2 ^ j)"
      then obtain j where "n = 2 * 2 ^ j" by (metis dvd_mult_div_cancel)
      then have "n = 2 ^ Suc j" by simp
      then show "\<exists>j. n = 2 ^ j" by blast
    qed
    with 1 3 show ?thesis by (subst is_power_of_two.simps) auto
  qed (auto simp: is_power_of_two.simps intro: exI [of _ 0])
qed

section \<open>The window\<close>

lemma count_pairs_dom: "dom (map_of (fst (count_pairs ps m x))) = set ps \<union> dom (map_of m)"
  by (induction ps arbitrary: m x) (auto simp: AList.update_conv' Let_def)

lemma count_pairs_max: "x \<le> snd (count_pairs ps m x)"
proof (induction ps arbitrary: m x)
  case (Cons p ps)
  then show ?case by (auto simp: Let_def) (meson max.bounded_iff)+
qed simp

lemma novelty_iff: "novelty round d \<longleftrightarrow> \<not> set (round_pairs round) \<subseteq> dom (map_of (ld_pairs d))"
  by (auto simp: novelty_def list_ex_iff)

lemma observe_window_facts:
  assumes "observe_window hash round d = (mx, cs, d1)"
  shows "set (round_pairs round) \<subseteq> dom (map_of (ld_pairs d1))"
    and "ld_no_novelty d1 = (if novelty round d then 0 else ld_no_novelty d + 1)"
    and "\<not> novelty round d \<Longrightarrow> dom (map_of (ld_pairs d)) \<subseteq> dom (map_of (ld_pairs d1))"
    and "ld_cfg d1 = ld_cfg d" and "cs = call_set_fp hash round" and "ld_last_call_set d1 = Some cs"
    and "ld_failures d1 = ld_failures d"
    and "ld_steered d = Some cs \<Longrightarrow> ld_steered d1 = Some cs \<and> ld_ignored d1 = ld_ignored d"
proof -
  have "ld_pairs d1 = fst (count_pairs (round_pairs round) (if novelty round d then [] else ld_pairs d) 0)"
    using assms by (auto simp: observe_window_def Let_def case_prod_unfold)
  then have "dom (map_of (ld_pairs d1)) = set (round_pairs round) \<union> dom (map_of (if novelty round d then [] else ld_pairs d))"
    by (simp only: count_pairs_dom)
  then show "set (round_pairs round) \<subseteq> dom (map_of (ld_pairs d1))"
    "\<not> novelty round d \<Longrightarrow> dom (map_of (ld_pairs d)) \<subseteq> dom (map_of (ld_pairs d1))" by simp_all
qed (use assms in \<open>auto simp: observe_window_def Let_def case_prod_unfold\<close>)

lemma render_steer_fields [simp]:
  "ld_pairs (snd (render_steer round n d)) = ld_pairs d"
  "ld_no_novelty (snd (render_steer round n d)) = ld_no_novelty d"
  "ld_cfg (snd (render_steer round n d)) = ld_cfg d"
  "ld_failures (snd (render_steer round n d)) = ld_failures d"
  "ld_steered (snd (render_steer round n d)) = ld_steered d"
  "ld_ignored (snd (render_steer round n d)) = ld_ignored d"
  by (simp_all add: render_steer_def Let_def)

lemma observe_legacy_frame:
  assumes "observe_window hash round d = (mx, cs, d1)" and "observe_legacy hash round d = (v, d2)"
  shows "ld_pairs d2 = ld_pairs d1 \<and> ld_no_novelty d2 = ld_no_novelty d1 \<and> ld_cfg d2 = ld_cfg d1
    \<and> ld_failures d2 = ld_failures d1"
  using assms
  by (auto simp: observe_legacy_def Let_def case_prod_unfold split: if_splits)

lemma observe_round_cases:
  assumes "observe_round hash round d = (v, d')" and "\<not> is_break v" and "round \<noteq> []"
  obtains d0 w d2 steer where "observe_legacy hash round d0 = (w, d2)" "\<not> is_break w"
    "ld_pairs d0 = ld_pairs d" "ld_no_novelty d0 = ld_no_novelty d" "ld_cfg d0 = ld_cfg d"
    "ld_steered d0 = ld_steered d" "ld_ignored d0 = ld_ignored d"
    "count_failures round (round_failures round (forget_successes round (ld_failures d)))
       (forget_successes round (ld_failures d)) None = (Inr steer, ld_failures d0)"
    "ld_pairs d' = ld_pairs d2" "ld_no_novelty d' = ld_no_novelty d2" "ld_cfg d' = ld_cfg d2"
    "ld_failures d' = ld_failures d2" "steer = None \<Longrightarrow> v = w \<and> d' = d2"
proof -
  let ?d1 = "d\<lparr>ld_stats := (ld_stats d)\<lparr>st_rounds := st_rounds (ld_stats d) + 1\<rparr>\<rparr>"
  let ?kept = "forget_successes round (ld_failures d)"
  obtain c m where cf: "count_failures round (round_failures round ?kept) ?kept None = (c, m)" by fastforce
  obtain steer where steer: "c = Inr steer"
    using assms cf by (cases c) (auto simp: observe_round_def Let_def)
  obtain w d2 where leg: "observe_legacy hash round (?d1\<lparr>ld_failures := m\<rparr>) = (w, d2)" by fastforce
  have "\<not> is_break w"
    using assms cf steer leg by (cases w) (auto simp: observe_round_def Let_def)
  with assms cf steer leg show ?thesis
    by (intro that [of "?d1\<lparr>ld_failures := m\<rparr>" w d2 steer])
      (auto simp: observe_round_def Let_def split: round_verdict.splits option.splits)
qed

lemma breaker_reached:
  assumes "observe_legacy hash round d = (v, d')" and "\<not> novelty round d"
    and "0 < dc_circuit_breaker_rounds (ld_cfg d)" and "dc_circuit_breaker_rounds (ld_cfg d) \<le> ld_no_novelty d + 1"
  shows "is_break v"
proof -
  obtain mx cs d1 where w: "observe_window hash round d = (mx, cs, d1)" by (metis prod_cases3)
  have "ld_no_novelty d1 = ld_no_novelty d + 1" "ld_cfg d1 = ld_cfg d"
    using observe_window_facts(2,4) [OF w] assms(2) by simp_all
  with w assms show ?thesis by (auto simp: observe_legacy_def Let_def)
qed

lemma observe_round_progress:
  assumes "observe_round hash round d = (v, d')" and "\<not> is_break v" and "round \<noteq> []"
  shows "set (round_pairs round) \<subseteq> dom (map_of (ld_pairs d'))" and "ld_cfg d' = ld_cfg d"
    and "\<not> novelty round d \<Longrightarrow> ld_no_novelty d' = ld_no_novelty d + 1
           \<and> dom (map_of (ld_pairs d)) \<subseteq> dom (map_of (ld_pairs d'))
           \<and> \<not> (0 < dc_circuit_breaker_rounds (ld_cfg d) \<and> dc_circuit_breaker_rounds (ld_cfg d) \<le> ld_no_novelty d + 1)"
proof -
  from assms obtain d0 w d2 steer where leg: "observe_legacy hash round d0 = (w, d2)" "\<not> is_break w"
    and d0: "ld_pairs d0 = ld_pairs d" "ld_no_novelty d0 = ld_no_novelty d" "ld_cfg d0 = ld_cfg d"
    and d': "ld_pairs d' = ld_pairs d2" "ld_no_novelty d' = ld_no_novelty d2" "ld_cfg d' = ld_cfg d2"
    by (rule observe_round_cases)
  obtain mx cs d1 where w: "observe_window hash round d0 = (mx, cs, d1)" by (metis prod_cases3)
  note frame = observe_legacy_frame [OF w leg(1)]
  note facts = observe_window_facts [OF w]
  have nov: "novelty round d0 = novelty round d" by (simp add: novelty_def d0)
  show "set (round_pairs round) \<subseteq> dom (map_of (ld_pairs d'))" "ld_cfg d' = ld_cfg d"
    using facts(1,4) frame d' d0 by simp_all
  assume "\<not> novelty round d"
  then show "ld_no_novelty d' = ld_no_novelty d + 1 \<and> dom (map_of (ld_pairs d)) \<subseteq> dom (map_of (ld_pairs d'))
      \<and> \<not> (0 < dc_circuit_breaker_rounds (ld_cfg d) \<and> dc_circuit_breaker_rounds (ld_cfg d) \<le> ld_no_novelty d + 1)"
    using facts(2,3) frame d' d0 nov breaker_reached [OF leg(1)] leg(2) by auto
qed

lemma repeated_rounds_break:
  assumes "\<forall>r \<in> set rs. r \<noteq> [] \<and> set (round_pairs r) \<subseteq> dom (map_of (ld_pairs d))"
    and "0 < dc_circuit_breaker_rounds (ld_cfg d)"
    and "dc_circuit_breaker_rounds (ld_cfg d) \<le> ld_no_novelty d + length rs" and "rs \<noteq> []"
  shows "is_break (last (observe_all hash rs d))"
  using assms
proof (induction rs arbitrary: d)
  case (Cons r rs)
  obtain v d' where o: "observe_round hash r d = (v, d')" by fastforce
  show ?case
  proof (cases "is_break v")
    case True
    with o show ?thesis by (cases v) auto
  next
    case False
    have r: "r \<noteq> []" and nov: "\<not> novelty r d" using Cons.prems(1) by (simp_all add: novelty_iff)
    note step = observe_round_progress(2) [OF o False r] observe_round_progress(3) [OF o False r nov]
    have "rs \<noteq> []" using step(2) Cons.prems(2,3) by auto
    moreover have "\<forall>r \<in> set rs. r \<noteq> [] \<and> set (round_pairs r) \<subseteq> dom (map_of (ld_pairs d'))"
      using Cons.prems(1) step(2) by (meson list.set_intros(2) subset_trans)
    then have "is_break (last (observe_all hash rs d'))"
      using Cons.prems(2,3) step \<open>rs \<noteq> []\<close> by (intro Cons.IH) simp_all
    moreover have "observe_all hash rs d' \<noteq> []" using \<open>rs \<noteq> []\<close> by (cases rs) (auto split: prod.splits round_verdict.splits)
    ultimately show ?thesis using o False by (cases v) simp_all
  qed
qed simp

section \<open>The failure budget\<close>

lemma forget_successes_lookup:
  "map_of (forget_successes round m) p =
     (if \<exists>c \<in> set round. \<not> co_error c \<and> co_call c = fst p then None else map_of m p)"
proof -
  have filt: "map_of (filter (\<lambda>((call, _), _). call \<noteq> x) m) p = (if fst p = x then None else map_of m p)" for x m
    by (induction m) (auto split: if_splits)
  have "map_of (fold (\<lambda>c. filter (\<lambda>((call, _), _). call \<noteq> co_call c)) cs m) p =
      (if \<exists>c \<in> set cs. co_call c = fst p then None else map_of m p)" for cs
    by (induction cs arbitrary: m) (auto simp: filt)
  from this [of "filter (\<lambda>c. \<not> co_error c) round"] show ?thesis
    by (simp add: forget_successes_def Bex_def conj_ac)
qed

lemma round_failures_set:
  "set (round_failures round m) = {p. \<exists>c \<in> set round. co_error c \<and> \<not> co_transient c \<and> p = (co_call c, co_result c)}"
  "distinct (round_failures round m)"
  by (auto simp: round_failures_def Let_def)

definition failure_count :: "((nat \<times> nat) \<times> nat) list \<Rightarrow> nat \<times> nat \<Rightarrow> nat" where
  "failure_count m p = (case map_of m p of Some n \<Rightarrow> n | None \<Rightarrow> 0)"

lemma count_failures_counts:
  assumes "count_failures round ps m steer = (Inr steer', m')" and "distinct ps"
  shows "failure_count m' p = failure_count m p + (if p \<in> set ps then 1 else 0)
    \<and> (p \<in> set ps \<longrightarrow> failure_count m' p < failure_stop_rounds)"
  using assms
proof (induction round ps m steer rule: count_failures.induct)
  case (2 round q ps m steer)
  let ?count = "failure_count m q + 1"
  let ?m1 = "AList.update q ?count m"
  have go: "\<not> (map_of m q = None \<and> length m \<ge> max_tracked_failures)" "\<not> ?count \<ge> failure_stop_rounds"
    "\<exists>steer1. count_failures round ps ?m1 steer1 = (Inr steer', m')"
    using "2.prems"(1) by (auto simp: failure_count_def Let_def split: if_splits)
  have one: "failure_count ?m1 p = (if p = q then ?count else failure_count m p)"
    by (simp add: failure_count_def AList.update_conv')
  have "failure_count m' p = failure_count ?m1 p + (if p \<in> set ps then 1 else 0)
      \<and> (p \<in> set ps \<longrightarrow> failure_count m' p < failure_stop_rounds)"
    using "2.IH" [OF go(1) refl refl refl] go(2,3) "2.prems" by (auto simp: failure_count_def Let_def split: if_splits)
  with one go(2) "2.prems"(2) show ?case by auto
qed simp

lemma failures_size:
  assumes "count_failures round ps m steer = (c, m')" and "length m \<le> max_tracked_failures" and "distinct (map fst m)"
  shows "length m' \<le> max_tracked_failures \<and> distinct (map fst m')"
  using assms
proof (induction round ps m steer rule: count_failures.induct)
  case (2 round q ps m steer)
  have upd: "length (AList.update q n m) \<le> max_tracked_failures" "distinct (map fst (AList.update q n m))"
    if "\<not> (map_of m q = None \<and> length m \<ge> max_tracked_failures)" for n
  proof -
    show "distinct (map fst (AList.update q n m))" using "2.prems"(3) by (simp add: AList.distinct_update)
    have "length (AList.update q n m) = (if q \<in> fst ` set m then length m else Suc (length m))" for m
      by (induction m) auto
    with that "2.prems"(2) show "length (AList.update q n m) \<le> max_tracked_failures"
      by (auto simp: map_of_eq_None_iff)
  qed
  with 2 show ?case by (auto simp: Let_def split: if_splits)
qed simp

text \<open>The round fails with this call and result, and the call does not succeed in it.\<close>

definition fails_with :: "nat \<times> nat \<Rightarrow> call_observation list \<Rightarrow> bool" where
  "fails_with p round \<longleftrightarrow>
     (\<exists>c \<in> set round. co_error c \<and> \<not> co_transient c \<and> (co_call c, co_result c) = p)
     \<and> (\<forall>c \<in> set round. co_call c = fst p \<longrightarrow> co_error c)"

lemma failing_round_counts:
  assumes "observe_round hash round d = (v, d')" and "\<not> is_break v" and "fails_with p round"
  shows "failure_count (ld_failures d') p = failure_count (ld_failures d) p + 1
    \<and> failure_count (ld_failures d') p < failure_stop_rounds"
proof -
  let ?kept = "forget_successes round (ld_failures d)"
  have "round \<noteq> []" using assms(3) by (auto simp: fails_with_def)
  with assms(1,2) obtain d0 w d2 steer where leg: "observe_legacy hash round d0 = (w, d2)"
    and cf: "count_failures round (round_failures round ?kept) ?kept None = (Inr steer, ld_failures d0)"
    and d': "ld_failures d' = ld_failures d2"
    by (rule observe_round_cases)
  obtain mx cs d1 where w: "observe_window hash round d0 = (mx, cs, d1)" by (metis prod_cases3)
  have "ld_failures d' = ld_failures d0"
    using observe_legacy_frame [OF w leg] observe_window_facts(7) [OF w] d' by simp
  moreover have "p \<in> set (round_failures round ?kept)"
    using assms(3) by (auto simp: round_failures_set fails_with_def)
  moreover have "failure_count ?kept p = failure_count (ld_failures d) p"
    using assms(3) by (auto simp: failure_count_def forget_successes_lookup fails_with_def)
  ultimately show ?thesis
    using count_failures_counts [OF cf round_failures_set(2), of p] by simp
qed

lemma failing_rounds_break:
  assumes "\<forall>r \<in> set rs. fails_with p r" and "failure_stop_rounds \<le> failure_count (ld_failures d) p + length rs" and "rs \<noteq> []"
  shows "is_break (last (observe_all hash rs d))"
  using assms
proof (induction rs arbitrary: d)
  case (Cons r rs)
  obtain v d' where o: "observe_round hash r d = (v, d')" by fastforce
  show ?case
  proof (cases "is_break v")
    case True
    with o show ?thesis by (cases v) auto
  next
    case False
    note step = failing_round_counts [OF o False, of p]
    have "rs \<noteq> []" using step Cons.prems by auto
    moreover have "is_break (last (observe_all hash rs d'))"
      using Cons.prems step \<open>rs \<noteq> []\<close> by (intro Cons.IH) auto
    moreover have "observe_all hash rs d' \<noteq> []" using \<open>rs \<noteq> []\<close> by (cases rs) (auto split: prod.splits round_verdict.splits)
    ultimately show ?thesis using o False by (cases v) simp_all
  qed
qed simp

section \<open>Reminders\<close>

definition steered_state :: "(nat list \<Rightarrow> nat) \<Rightarrow> call_observation list \<Rightarrow> loop_detector \<Rightarrow> bool" where
  "steered_state hash round d \<longleftrightarrow>
     \<not> novelty round d \<and> ld_steered d = Some (call_set_fp hash round)
     \<and> dc_circuit_breaker_rounds (ld_cfg d) = 0
     \<and> 0 < dc_no_novelty_rounds (ld_cfg d) \<and> dc_no_novelty_rounds (ld_cfg d) \<le> ld_no_novelty d + 1"

lemma steered_legacy:
  assumes "steered_state hash round d" and "observe_legacy hash round d = (v, d')"
  shows "steered_state hash round d' \<and> ld_ignored d' = ld_ignored d + 1 \<and> \<not> is_break v
    \<and> (v = Proceed \<longleftrightarrow> \<not> is_power_of_two (ld_ignored d + 1))"
proof -
  obtain mx cs d1 where w: "observe_window hash round d = (mx, cs, d1)" by (metis prod_cases3)
  note facts = observe_window_facts [OF w]
  have st: "ld_steered d1 = Some cs" "ld_ignored d1 = ld_ignored d" "ld_no_novelty d1 = ld_no_novelty d + 1"
    "ld_cfg d1 = ld_cfg d" "cs = call_set_fp hash round"
    using assms(1) facts by (auto simp: steered_state_def)
  have "ld_steered d' = Some cs \<and> ld_ignored d' = ld_ignored d + 1 \<and> \<not> is_break v
      \<and> (v = Proceed \<longleftrightarrow> \<not> is_power_of_two (ld_ignored d + 1))"
    using assms w st
    by (auto simp: observe_legacy_def Let_def steered_state_def case_prod_unfold split: if_splits)
  moreover have "\<not> novelty round d'"
    using observe_legacy_frame [OF w assms(2)] facts(1) by (simp add: novelty_iff)
  ultimately show ?thesis
    using assms(1) st observe_legacy_frame [OF w assms(2)] by (auto simp: steered_state_def)
qed

lemma steered_round:
  assumes "steered_state hash round d" and "round \<noteq> []" and "\<forall>c \<in> set round. \<not> co_error c"
    and "observe_round hash round d = (v, d')"
  shows "steered_state hash round d' \<and> ld_ignored d' = ld_ignored d + 1 \<and> \<not> is_break v
    \<and> (v = Proceed \<longleftrightarrow> \<not> is_power_of_two (ld_ignored d + 1))"
proof -
  let ?kept = "forget_successes round (ld_failures d)"
  let ?d0 = "d\<lparr>ld_stats := (ld_stats d)\<lparr>st_rounds := st_rounds (ld_stats d) + 1\<rparr>, ld_failures := ?kept\<rparr>"
  have "round_failures round ?kept = []"
    using assms(3) round_failures_set(1) [of round ?kept] by auto
  then have cf: "count_failures round (round_failures round ?kept) ?kept None = (Inr None, ?kept)" by simp
  obtain w d2 where leg: "observe_legacy hash round ?d0 = (w, d2)" by fastforce
  have "v = w \<and> d' = d2" using assms(2,4) cf leg by (cases w) (simp_all add: observe_round_def Let_def)
  moreover have "steered_state hash round ?d0" using assms(1) by (simp add: steered_state_def novelty_def)
  ultimately show ?thesis using steered_legacy [OF _ leg] by simp
qed

section \<open>Properties\<close>

text \<open>
  Property C34. The circuit breaker stops every storm. With the breaker set to \<open>b\<close> rounds, if
  after some round the next \<open>b\<close> rounds bring no call and result that was not in it, then the turn
  is broken off at the latest after the last of them, whatever the detector had seen before.
\<close>

theorem circuit_breaker_stops_storms:
  assumes "0 < dc_circuit_breaker_rounds (ld_cfg d)" and "length rs = dc_circuit_breaker_rounds (ld_cfg d)"
    and "r \<noteq> []" and "\<forall>r' \<in> set rs. r' \<noteq> [] \<and> set (round_pairs r') \<subseteq> set (round_pairs r)"
  shows "is_break (last (observe_all hash (r # rs) d))"
proof -
  obtain v d' where o: "observe_round hash r d = (v, d')" by fastforce
  have "rs \<noteq> []" using assms(1,2) by auto
  then have ne: "observe_all hash rs d' \<noteq> []" by (cases rs) (auto split: prod.splits round_verdict.splits)
  show ?thesis
  proof (cases "is_break v")
    case True
    with o show ?thesis by (cases v) auto
  next
    case False
    have "is_break (last (observe_all hash rs d'))"
    proof (rule repeated_rounds_break)
      show "\<forall>r \<in> set rs. r \<noteq> [] \<and> set (round_pairs r) \<subseteq> dom (map_of (ld_pairs d'))"
        using assms(4) observe_round_progress(1) [OF o False assms(3)] by (meson subset_trans)
    qed (use assms(1,2) \<open>rs \<noteq> []\<close> observe_round_progress(2) [OF o False assms(3)] in simp_all)
    with ne o False show ?thesis by (cases v) simp_all
  qed
qed

theorem circuit_breaker_stops_storms_witness:
  "is_break (last (observe_all sum_list
     (replicate 3 [\<lparr>co_name = ''read'', co_call = 1, co_result = 2, co_error = False, co_transient = False\<rparr>])
     (detector_new \<lparr>dc_repeat_threshold = 3, dc_no_novelty_rounds = 3, dc_circuit_breaker_rounds = 2\<rparr> [])))"
proof -
  let ?r = "[\<lparr>co_name = ''read'', co_call = 1, co_result = 2, co_error = False, co_transient = False\<rparr>]"
  let ?d = "detector_new \<lparr>dc_repeat_threshold = 3, dc_no_novelty_rounds = 3, dc_circuit_breaker_rounds = 2\<rparr> []"
  have "is_break (last (observe_all sum_list (?r # [?r, ?r]) ?d))"
    by (rule circuit_breaker_stops_storms) (simp_all add: detector_new_def)
  then show ?thesis by (simp only: numeral_3_eq_3 replicate_Suc replicate_0)
qed

text \<open>
  Observation. The failure budget is exact and its memory bounded. Six rounds in which the same
  call fails with the same result, without succeeding in between and not for a transient reason,
  end the turn whatever else happens in them, and at most 128 failures are ever tracked.
\<close>

theorem failure_budget_stops:
  assumes "\<forall>r \<in> set rs. fails_with p r" and "length rs = 6"
    and "length (ld_failures d) \<le> 128" and "distinct (map fst (ld_failures d))"
  shows "is_break (last (observe_all hash rs d)) \<and> length (ld_failures (snd (observe_round hash r d))) \<le> 128"
proof
  show "is_break (last (observe_all hash rs d))"
    using assms(1,2) by (intro failing_rounds_break [of rs p]) (auto simp: failure_stop_rounds_def)
  let ?kept = "forget_successes r (ld_failures d)"
  have kept: "length (fold (\<lambda>c. filter (\<lambda>((call, _), _). call \<noteq> co_call c)) cs m) \<le> length m
      \<and> (distinct (map fst m) \<longrightarrow> distinct (map fst (fold (\<lambda>c. filter (\<lambda>((call, _), _). call \<noteq> co_call c)) cs m)))"
    for cs :: "call_observation list" and m :: "((nat \<times> nat) \<times> nat) list"
    by (induction cs arbitrary: m) (auto simp: distinct_map_filter intro: order_trans [OF _ length_filter_le])
  obtain c m where cf: "count_failures r (round_failures r ?kept) ?kept None = (c, m)" by fastforce
  have le: "length m \<le> 128"
    using failures_size [OF cf] kept [where m = "ld_failures d"] assms(3,4)
    by (auto simp: forget_successes_def max_tracked_failures_def intro: order_trans)
  have same: "ld_failures d2 = ld_failures d0" if "observe_legacy hash r d0 = (v, d2)" for d0 v d2
  proof -
    obtain mx cs d1 where w: "observe_window hash r d0 = (mx, cs, d1)" by (metis prod_cases3)
    show ?thesis using observe_legacy_frame [OF w that] observe_window_facts(7) [OF w] by simp
  qed
  show "length (ld_failures (snd (observe_round hash r d))) \<le> 128"
    using le cf assms(3)
    by (auto simp: observe_round_def Let_def same split: sum.splits prod.splits round_verdict.splits option.splits)
qed

theorem failure_budget_stops_witness:
  "is_break (last (observe_all sum_list
     (replicate 6 [\<lparr>co_name = ''read'', co_call = 1, co_result = 2, co_error = True, co_transient = False\<rparr>])
     (detector_new \<lparr>dc_repeat_threshold = 0, dc_no_novelty_rounds = 0, dc_circuit_breaker_rounds = 0\<rparr> [])))"
  using failure_budget_stops [of
      "replicate 6 [\<lparr>co_name = ''read'', co_call = 1, co_result = 2, co_error = True, co_transient = False\<rparr>]" "(1, 2)"
      "detector_new \<lparr>dc_repeat_threshold = 0, dc_no_novelty_rounds = 0, dc_circuit_breaker_rounds = 0\<rparr> []" sum_list "[]"]
  by (simp add: fails_with_def detector_new_def)

text \<open>
  Observation. Reminders back off exponentially. Once a call set has been steered and the model
  keeps repeating it without new information, the \<open>k\<close>-th repetition is answered by a reminder
  exactly when \<open>k\<close> is a power of two, and is let pass otherwise.
\<close>

theorem reminders_back_off:
  assumes "steered_state hash r d" and "r \<noteq> []" and "\<forall>c \<in> set r. \<not> co_error c" and "ld_ignored d = 0" and "k < n"
  shows "length (observe_all hash (replicate n r) d) = n
    \<and> ((\<exists>text. observe_all hash (replicate n r) d ! k = Steer text) \<longleftrightarrow> (\<exists>j. Suc k = 2 ^ j))"
proof -
  have "length (observe_all hash (replicate n r) d) = n
    \<and> (\<forall>k < n. (\<exists>text. observe_all hash (replicate n r) d ! k = Steer text) \<longleftrightarrow> is_power_of_two (ld_ignored d + Suc k))"
    using assms(1)
  proof (induction n arbitrary: d)
    case (Suc n)
    obtain v d' where o: "observe_round hash r d = (v, d')" by fastforce
    note step = steered_round [OF Suc.prems assms(2,3) o]
    then have "observe_all hash (replicate (Suc n) r) d = v # observe_all hash (replicate n r) d'"
      using o by (cases v) auto
    moreover have "(\<exists>text. v = Steer text) \<longleftrightarrow> is_power_of_two (ld_ignored d + 1)"
      using step by (cases v) auto
    ultimately show ?case using Suc.IH [of d'] step by (auto simp: less_Suc_eq_0_disj)
  qed simp
  with assms(4,5) show ?thesis by (simp add: is_power_of_two_iff)
qed

theorem reminders_back_off_witness:
  "\<exists>d text. observe_all sum_list
     (replicate 9 [\<lparr>co_name = ''read'', co_call = 1, co_result = 2, co_error = False, co_transient = False\<rparr>]) d ! 7 = Steer text"
proof -
  let ?r = "[\<lparr>co_name = ''read'', co_call = 1, co_result = 2, co_error = False, co_transient = False\<rparr>]"
  define d where "d = (detector_new \<lparr>dc_repeat_threshold = 3, dc_no_novelty_rounds = 3, dc_circuit_breaker_rounds = 0\<rparr> [])
    \<lparr>ld_pairs := [((1, 2, False), 3)], ld_no_novelty := 2, ld_steered := Some 1\<rparr>"
  have "steered_state sum_list ?r d"
    by (simp add: steered_state_def d_def detector_new_def novelty_def round_pairs_def call_set_fp_def sort_dedup_def)
  moreover have "ld_ignored d = 0" by (simp add: d_def detector_new_def)
  ultimately have "(\<exists>text. observe_all sum_list (replicate 9 ?r) d ! 7 = Steer text) \<longleftrightarrow> (\<exists>j. Suc 7 = 2 ^ j)"
    using reminders_back_off [of sum_list ?r d 7 9] by fastforce
  moreover have "Suc 7 = (2 :: nat) ^ 3" by simp
  ultimately show ?thesis by blast
qed

end
