(* ===== verification/Json_Value.thy ===== *)
theory Json_Value
  imports Text_More
begin

text \<open>
  JSON values as the sources inspect them (serde_json::Value): the accessors that the code calls.
  Numbers keep their text; an object is the list of its members in iteration order. Parsing and
  printing belong to serde_json and are arguments of the definitions that need them.
\<close>

datatype jvalue =
    JNull
  | JBool bool
  | JNumber string
  | JString string
  | JArray "jvalue list"
  | JObject "(string \<times> jvalue) list"

fun json_get :: "string \<Rightarrow> jvalue \<Rightarrow> jvalue option" where
  "json_get key (JObject members) = map_of members key"
| "json_get key _ = None"

fun json_as_str :: "jvalue \<Rightarrow> string option" where
  "json_as_str (JString text) = Some text"
| "json_as_str _ = None"

fun json_as_array :: "jvalue \<Rightarrow> jvalue list option" where
  "json_as_array (JArray items) = Some items"
| "json_as_array _ = None"

fun json_as_bool :: "jvalue \<Rightarrow> bool option" where
  "json_as_bool (JBool b) = Some b"
| "json_as_bool _ = None"

text \<open>serde_json reads a number without fraction or exponent as an integer; it reads \<open>-0\<close> as a float.\<close>

definition i64_of_number :: "string \<Rightarrow> int option" where
  "i64_of_number t =
     (case t of
        c # cs \<Rightarrow>
          if c = CHR ''-'' then
            (if cs = [] then None
             else case parse_digits 0 cs of Some n \<Rightarrow> if 0 < n \<and> int n \<le> 9223372036854775808 then Some (- int n) else None | None \<Rightarrow> None)
          else (case parse_digits 0 t of Some n \<Rightarrow> if int n \<le> 9223372036854775807 then Some (int n) else None | None \<Rightarrow> None)
      | [] \<Rightarrow> None)"

fun json_as_i64 :: "jvalue \<Rightarrow> int option" where
  "json_as_i64 (JNumber t) = i64_of_number t"
| "json_as_i64 _ = None"

fun json_as_u64 :: "jvalue \<Rightarrow> nat option" where
  "json_as_u64 (JNumber t) =
     (if t = [] then None else case parse_digits 0 t of Some n \<Rightarrow> if n \<le> u64_max then Some n else None | None \<Rightarrow> None)"
| "json_as_u64 _ = None"

definition json_int :: "int \<Rightarrow> jvalue" where
  "json_int i = JNumber (show_int i)"

text \<open>Replacing the value of a member that exists (get_mut).\<close>

fun set_member :: "string \<Rightarrow> jvalue \<Rightarrow> (string \<times> jvalue) list \<Rightarrow> (string \<times> jvalue) list" where
  "set_member key v [] = []"
| "set_member key v ((k, w) # ms) = (if k = key then (k, v) # ms else (k, w) # set_member key v ms)"

fun json_set :: "string \<Rightarrow> jvalue \<Rightarrow> jvalue \<Rightarrow> jvalue" where
  "json_set key v (JObject members) = JObject (set_member key v members)"
| "json_set key v w = w"

text \<open>The total length of the strings of a value.\<close>

fun strings_size :: "jvalue \<Rightarrow> nat" where
  "strings_size (JString text) = length text"
| "strings_size (JArray items) = sum_list (map strings_size items)"
| "strings_size (JObject members) = sum_list (map (\<lambda>(k, v). strings_size v) members)"
| "strings_size _ = 0"

lemma find_map_cong [fundef_cong]:
  "xs = ys \<Longrightarrow> (\<And>x. x \<in> set ys \<Longrightarrow> f x = g x) \<Longrightarrow> find_map f xs = find_map g ys"
  by (induction ys arbitrary: xs) (auto split: option.split)

lemma map_of_set_member:
  "map_of (set_member key v ms) k = (if k = key \<and> map_of ms key \<noteq> None then Some v else map_of ms k)"
  by (induction ms) auto

end
