(* ===== verification/Tool_Output.thy ===== *)
theory Tool_Output
  imports Agent_History Compaction Json_Value "HOL-Library.AList" "HOL-Library.List_Lexorder" "HOL-Library.Char_ord"
begin

text \<open>
  Bounding of tool output and pruning inside a turn (src/src/tool_output.rs). The output directory
  is a map from paths to contents with their times of modification; the identifiers drawn for new
  files, the clock and the failures of the disk are part of its state. Reading and printing JSON
  are arguments. Tool arguments are carried as text in the history, so the pruning of arguments
  reads and prints them.
\<close>

section \<open>Settings and results\<close>

record reformat_config =
  rf_enabled :: bool
  rf_tools :: "string list"
  rf_min_chars :: nat
  rf_model :: "string option"
  rf_max_input_chars :: nat

record tool_output_config =
  oc_directory :: string
  oc_max_bytes :: nat
  oc_max_lines :: nat
  oc_retention_days :: nat
  oc_budget_tokens :: nat
  oc_keep_recent :: nat
  oc_old_argument_max :: nat
  oc_reformat :: reformat_config

record bound_text_result =
  bt_content :: string
  bt_output_path :: "string option"
  bt_original_chars :: nat
  bt_visible_chars :: nat

record microcompact_stats =
  mc_results_pruned :: nat
  mc_arguments_pruned :: nat
  mc_tokens_saved :: nat
  mc_evicted :: "string list"
  mc_clear_cache :: bool

definition stats_default :: microcompact_stats where
  "stats_default = \<lparr>mc_results_pruned = 0, mc_arguments_pruned = 0, mc_tokens_saved = 0, mc_evicted = [], mc_clear_cache = False\<rparr>"

definition output_config_validate :: "tool_output_config \<Rightarrow> string + unit" where
  "output_config_validate cfg =
     (if oc_max_bytes cfg < 256 then Inl ''tool_output.max_bytes must be at least 256''
      else if oc_max_lines cfg < 3 then Inl ''tool_output.max_lines must be at least 3''
      else if oc_retention_days cfg = 0 then Inl ''tool_output.retention_days must be greater than zero''
      else if oc_budget_tokens cfg = 0 then Inl ''tool_output.intra_turn_result_budget_tokens must be greater than zero''
      else if oc_keep_recent cfg = 0 then Inl ''tool_output.intra_turn_keep_recent_results must be greater than zero''
      else if oc_old_argument_max cfg < 20 then Inl ''tool_output.old_argument_max_chars must be at least 20''
      else Inr ())"

section \<open>Previews\<close>

definition line_count :: "string \<Rightarrow> nat" where
  "line_count text = (if text = [] then 0 else length (filter (\<lambda>c. c = newline) text) + 1)"

definition take_prefix_bytes :: "string \<Rightarrow> nat \<Rightarrow> string" where
  "take_prefix_bytes text max_bytes = take (floor_boundary text (min max_bytes (length text))) text"

function ceil_boundary :: "string \<Rightarrow> nat \<Rightarrow> nat" where
  "ceil_boundary text start =
     (if start < length text \<and> \<not> is_char_boundary text start then ceil_boundary text (start + 1) else start)"
  by pat_completeness auto

termination
  by (relation "measure (\<lambda>(text, start). length text - start)") auto

declare ceil_boundary.simps [simp del]

definition take_suffix_bytes :: "string \<Rightarrow> nat \<Rightarrow> string" where
  "take_suffix_bytes text max_bytes =
     (if length text \<le> max_bytes then text else drop (ceil_boundary text (length text - max_bytes)) text)"

definition preview :: "string \<Rightarrow> string \<Rightarrow> nat \<Rightarrow> nat \<Rightarrow> string" where
  "preview text marker max_lines max_bytes =
     (let marker = take_prefix_bytes marker max_bytes in
      if max_lines \<le> 1 \<or> length marker + 2 \<ge> max_bytes then marker
      else
        (let ls = lines text;
             data_lines = max_lines - 1;
             head_lines = (data_lines + 1) div 2;
             tail_lines = data_lines div 2;
             front = join [newline] (take head_lines ls);
             back = join [newline] (drop (length ls - tail_lines) ls);
             separators = (if back = [] then 1 else 2);
             available = max_bytes - (length marker + separators);
             front = take_prefix_bytes front ((available + 1) div 2);
             back = take_suffix_bytes back (available div 2)
         in if back = [] then front @ [newline] @ marker
            else front @ [newline] @ marker @ [newline] @ back))"

fun longest_json_string_len :: "jvalue \<Rightarrow> nat" where
  "longest_json_string_len (JString text) = length text"
| "longest_json_string_len (JArray items) = foldr max (map longest_json_string_len items) 0"
| "longest_json_string_len (JObject members) = foldr max (map (\<lambda>(k, v). longest_json_string_len v) members) 0"
| "longest_json_string_len _ = 0"

fun json_contains_path :: "string \<Rightarrow> jvalue \<Rightarrow> bool" where
  "json_contains_path path (JString text) = contains_str path text"
| "json_contains_path path (JArray items) = list_ex (json_contains_path path) items"
| "json_contains_path path (JObject members) = list_ex (\<lambda>(k, v). json_contains_path path v) members"
| "json_contains_path path _ = False"

text \<open>The first argument shortens one string, or refuses; a failed attempt leaves a value as it is.\<close>

fun truncate_first :: "(string \<Rightarrow> string option) \<Rightarrow> jvalue \<Rightarrow> jvalue option"
  and truncate_items :: "(string \<Rightarrow> string option) \<Rightarrow> jvalue list \<Rightarrow> jvalue list option"
  and truncate_members :: "(string \<Rightarrow> string option) \<Rightarrow> (string \<times> jvalue) list \<Rightarrow> (string \<times> jvalue) list option" where
  "truncate_first f (JString text) = map_option JString (f text)"
| "truncate_first f (JArray items) = map_option JArray (truncate_items f items)"
| "truncate_first f (JObject members) = map_option JObject (truncate_members f members)"
| "truncate_first f v = None"
| "truncate_items f [] = None"
| "truncate_items f (v # vs) =
     (case truncate_first f v of Some v' \<Rightarrow> Some (v' # vs) | None \<Rightarrow> map_option (\<lambda>vs'. v # vs') (truncate_items f vs))"
| "truncate_members f [] = None"
| "truncate_members f ((k, v) # ms) =
     (case truncate_first f v of Some v' \<Rightarrow> Some ((k, v') # ms) | None \<Rightarrow> map_option (\<lambda>ms'. (k, v) # ms') (truncate_members f ms))"

definition shorten :: "nat \<Rightarrow> nat \<Rightarrow> string \<Rightarrow> nat \<Rightarrow> string \<Rightarrow> string option" where
  "shorten longest target_bytes marker max_lines text =
     (if length text = longest
      then (let replacement = preview text marker max_lines target_bytes
            in if length replacement \<ge> length text then None else Some replacement)
      else None)"

definition truncate_first_json_string :: "jvalue \<Rightarrow> nat \<Rightarrow> nat \<Rightarrow> string \<Rightarrow> nat \<Rightarrow> jvalue option" where
  "truncate_first_json_string v longest target_bytes marker max_lines =
     truncate_first (shorten longest target_bytes marker max_lines) v"

lemma truncate_first_smaller:
  assumes "\<And>s t. f s = Some t \<Longrightarrow> length t < length s"
  shows "truncate_first f v = Some v' \<Longrightarrow> strings_size v' < strings_size v"
    and "truncate_items f vs = Some vs' \<Longrightarrow> sum_list (map strings_size vs') < sum_list (map strings_size vs)"
    and "truncate_members f ms = Some ms' \<Longrightarrow>
      sum_list (map (\<lambda>(k, v). strings_size v) ms') < sum_list (map (\<lambda>(k, v). strings_size v) ms)"
  using assms
  by (induction f v and f vs and f ms arbitrary: v' and vs' and ms' rule: truncate_first_truncate_items_truncate_members.induct)
    (auto split: option.splits)

function structured_loop :: "(jvalue \<Rightarrow> string) \<Rightarrow> string \<Rightarrow> string \<Rightarrow> nat \<Rightarrow> nat \<Rightarrow> jvalue \<Rightarrow> string option" where
  "structured_loop render path marker max_lines max_bytes v =
     (let serialized = render v in
      if length serialized \<le> max_bytes
      then (if json_contains_path path v then Some serialized else None)
      else
        (let longest = longest_json_string_len v; excess = length serialized - max_bytes in
         if longest = 0 \<or> excess > longest then None
         else (case truncate_first_json_string v longest (longest - excess) marker max_lines of
                 None \<Rightarrow> None
               | Some v' \<Rightarrow> structured_loop render path marker max_lines max_bytes v')))"
  by pat_completeness auto

termination
proof (relation "measure (\<lambda>(render, path, marker, max_lines, max_bytes, v). strings_size v)")
  show "wf (measure (\<lambda>(render, path, marker, max_lines, max_bytes, v). strings_size v))" by simp
  fix v v' longest target marker max_lines
  have "truncate_first_json_string v longest target marker max_lines = Some v' \<Longrightarrow> strings_size v' < strings_size v"
    unfolding truncate_first_json_string_def
    by (rule truncate_first_smaller(1)) (auto simp: shorten_def Let_def split: if_splits)
  then show "truncate_first_json_string v longest target marker max_lines = Some v' \<Longrightarrow>
      ((render, path, marker, max_lines, max_bytes, v'), (render, path, marker, max_lines, max_bytes, v))
        \<in> measure (\<lambda>(render, path, marker, max_lines, max_bytes, v). strings_size v)" for render path max_bytes
    by simp
qed

declare structured_loop.simps [simp del]

definition structured_preview :: "(jvalue \<Rightarrow> string) \<Rightarrow> jvalue \<Rightarrow> string \<Rightarrow> string \<Rightarrow> nat \<Rightarrow> nat \<Rightarrow> string option" where
  "structured_preview render v path marker max_lines max_bytes =
     (case structured_loop render path marker max_lines max_bytes v of
        Some text \<Rightarrow> Some text
      | None \<Rightarrow>
          (let fallback = render (JObject [(''truncated'', JBool True), (''full_output_path'', JString path)])
           in if length fallback \<le> max_bytes then Some fallback else None))"

fun json_output_path :: "jvalue \<Rightarrow> string option" where
  "json_output_path (JString text) = marker_output_path text"
| "json_output_path (JArray items) = find_map json_output_path items"
| "json_output_path (JObject members) =
     (case Option.bind (map_of members ''full_output_path'') json_as_str of
        Some path \<Rightarrow> Some path
      | None \<Rightarrow> find_map (\<lambda>(k, v). json_output_path v) members)"
| "json_output_path _ = None"

definition existing_output_path :: "(string \<Rightarrow> jvalue option) \<Rightarrow> string \<Rightarrow> string option" where
  "existing_output_path parse content =
     (case Option.bind (parse content) json_output_path of
        Some path \<Rightarrow> Some path
      | None \<Rightarrow> marker_output_path content)"

section \<open>The output directory\<close>

datatype disk_fault = NoFault | DirectoryFault | WriteFault

record disk =
  dk_files :: "(string \<times> nat \<times> string) list"
  dk_now :: nat
  dk_ids :: "nat \<Rightarrow> string"
  dk_faults :: "nat \<Rightarrow> disk_fault"
  dk_next :: nat

definition path_join :: "string \<Rightarrow> string \<Rightarrow> string" where
  "path_join dir name = (if dir = [] then name else if last dir = CHR ''/'' then dir @ name else dir @ ''/'' @ name)"

definition is_absolute :: "string \<Rightarrow> bool" where
  "is_absolute path \<longleftrightarrow> starts_with ''/'' path"

text \<open>The components of a path: empty ones and inner dots do not count, a leading dot does.\<close>

definition path_components :: "string \<Rightarrow> string list" where
  "path_components path =
     (let parts = split_str ''/'' path;
          names = filter (\<lambda>c. c \<noteq> [] \<and> c \<noteq> ''.'') parts
      in if is_absolute path then ''/'' # names
         else if parts \<noteq> [] \<and> hd parts = ''.'' then ''.'' # names else names)"

definition path_under :: "string \<Rightarrow> string \<Rightarrow> bool" where
  "path_under dir path \<longleftrightarrow> take (length (path_components dir)) (path_components path) = path_components dir"

definition in_directory :: "string \<Rightarrow> string \<Rightarrow> bool" where
  "in_directory dir path \<longleftrightarrow> path_components path \<noteq> [] \<and> butlast (path_components path) = path_components dir"

definition second_ns :: nat where
  "second_ns = 1000000000"

definition cleanup_expired :: "tool_output_config \<Rightarrow> disk \<Rightarrow> disk" where
  "cleanup_expired cfg d =
     (let cutoff = dk_now d - min (oc_retention_days cfg * 86400) u64_max * second_ns
      in d\<lparr>dk_files := filter (\<lambda>(path, modified, _). \<not> (in_directory (oc_directory cfg) path \<and> modified < cutoff)) (dk_files d)\<rparr>)"

definition safe_tool :: "string \<Rightarrow> string" where
  "safe_tool name = concat (take 32 (map (\<lambda>c. if list_all ascii_alphanumeric c then c else ''_'') (chars name)))"

definition store_full :: "tool_output_config \<Rightarrow> string \<Rightarrow> string \<Rightarrow> disk \<Rightarrow> string option \<times> disk" where
  "store_full cfg tool_name content d =
     (let k = dk_next d; d0 = d\<lparr>dk_next := k + 1\<rparr> in
      if dk_faults d k = DirectoryFault then (None, d0)
      else
        (let d1 = cleanup_expired cfg d0;
             path = path_join (oc_directory cfg) (safe_tool tool_name @ ''-'' @ dk_ids d k @ ''.txt'')
         in if map_of (dk_files d1) path \<noteq> None \<or> dk_faults d k = WriteFault then (None, d1)
            else (Some path, d1\<lparr>dk_files := AList.update path (dk_now d, content) (dk_files d1)\<rparr>)))"

definition remove_file :: "string \<Rightarrow> disk \<Rightarrow> disk" where
  "remove_file path d = d\<lparr>dk_files := AList.delete path (dk_files d)\<rparr>"

section \<open>Bounding one result\<close>

definition should_reformat :: "reformat_config \<Rightarrow> string \<Rightarrow> bool \<Rightarrow> nat \<Rightarrow> bool" where
  "should_reformat cfg tool_name is_error content_chars \<longleftrightarrow>
     rf_enabled cfg \<and> \<not> is_error \<and> content_chars \<ge> rf_min_chars cfg \<and> list_ex (\<lambda>t. t = tool_name) (rf_tools cfg)"

definition head_tail :: "string \<Rightarrow> nat \<Rightarrow> string" where
  "head_tail content cap =
     (let cs = chars content in
      if length cs \<le> cap then content
      else
        (let half = cap div 2
         in concat (take half cs) @ [newline] @ ''...(middle elided for the reformatter)...'' @ [newline]
              @ concat (drop (length cs - half) cs)))"

definition whole_text :: "string \<Rightarrow> bound_text_result" where
  "whole_text content =
     \<lparr>bt_content = content, bt_output_path = None, bt_original_chars = length (chars content),
      bt_visible_chars = length (chars content)\<rparr>"

definition bound_text ::
  "(string \<Rightarrow> jvalue option) \<Rightarrow> (jvalue \<Rightarrow> string) \<Rightarrow> tool_output_config \<Rightarrow> string \<Rightarrow> string \<Rightarrow> disk
    \<Rightarrow> bound_text_result \<times> disk" where
  "bound_text parse render cfg tool_name content d =
     (if length content \<le> oc_max_bytes cfg \<and> line_count content \<le> oc_max_lines cfg then (whole_text content, d)
      else
        (case store_full cfg tool_name content d of
           (None, d1) \<Rightarrow> (whole_text content, d1)
         | (Some path, d1) \<Rightarrow>
             (let marker = ''... '' @ truncated_marker @ '' '' @ path @ '' ...'';
                  visible = (case parse content of
                     Some v \<Rightarrow> structured_preview render v path marker (oc_max_lines cfg) (oc_max_bytes cfg)
                   | None \<Rightarrow> Some (preview content marker (oc_max_lines cfg) (oc_max_bytes cfg)))
              in case visible of
                   None \<Rightarrow> (whole_text content, remove_file path d1)
                 | Some text \<Rightarrow>
                     (\<lparr>bt_content = text, bt_output_path = Some path, bt_original_chars = length (chars content),
                       bt_visible_chars = length (chars text)\<rparr>, d1))))"

text \<open>The reply of the reformatting model is an argument; it is asked with the capped output.\<close>

definition reformat_text ::
  "(string \<Rightarrow> jvalue option) \<Rightarrow> (jvalue \<Rightarrow> string) \<Rightarrow> (string \<Rightarrow> llm_response) \<Rightarrow> tool_output_config \<Rightarrow> string \<Rightarrow> string \<Rightarrow> disk
    \<Rightarrow> bound_text_result \<times> disk" where
  "reformat_text parse render ask cfg tool_name content d =
     (let original = length (chars content);
          response = ask (head_tail content (rf_max_input_chars (oc_reformat cfg)));
          summary = join [newline] (List.map_filter text_of (lr_content response))
      in if lr_error_message response \<noteq> None \<or> trim summary = [] then bound_text parse render cfg tool_name content d
         else
           (case store_full cfg tool_name content d of
              (None, d1) \<Rightarrow> bound_text parse render cfg tool_name content d1
            | (Some path, d1) \<Rightarrow>
                (let visible = summary @ [newline, newline] @ ''[reformatted from '' @ show_nat original @ '' chars; ''
                       @ truncated_marker @ '' '' @ path @ '']''
                 in (\<lparr>bt_content = visible, bt_output_path = Some path, bt_original_chars = original,
                      bt_visible_chars = length (chars visible)\<rparr>, d1))))"

section \<open>Bounds\<close>

lemma take_prefix_bytes_le: "length (take_prefix_bytes s n) \<le> n"
  using floor_boundary_le [of s "min n (length s)"] by (simp add: take_prefix_bytes_def)

lemma take_prefix_bytes_id: "length s \<le> n \<Longrightarrow> take_prefix_bytes s n = s"
proof -
  assume "length s \<le> n"
  moreover have "floor_boundary s (length s) = length s"
    by (cases "length s") (simp_all add: is_char_boundary_def)
  ultimately show ?thesis by (simp add: take_prefix_bytes_def min_def)
qed

lemma ceil_boundary_ge: "start \<le> ceil_boundary s start"
proof (induction s start rule: ceil_boundary.induct)
  case (1 s start)
  then show ?case by (subst ceil_boundary.simps) auto
qed

lemma take_suffix_bytes_le: "length (take_suffix_bytes s n) \<le> n"
proof -
  have "length s - ceil_boundary s (length s - n) \<le> n" using ceil_boundary_ge [of "length s - n" s] by arith
  then show ?thesis by (simp add: take_suffix_bytes_def)
qed

lemma take_suffix_bytes_drop: "\<exists>k. take_suffix_bytes s n = drop k s"
  by (auto simp: take_suffix_bytes_def intro: exI [of _ 0])

text \<open>A preview is the marker alone, or parts of the first and of the last lines around it.\<close>

lemma preview_cases:
  obtains (alone) "preview s marker max_lines max_bytes = take_prefix_bytes marker max_bytes"
  | (parts) f b k n m where "m = take_prefix_bytes marker max_bytes" "1 < max_lines" "length m + 2 < max_bytes"
      "f = take n (join [newline] (take ((max_lines - 1 + 1) div 2) (lines s)))"
      "b = drop k (join [newline] (drop (length (lines s) - (max_lines - 1) div 2) (lines s)))"
      "length f + length b + length m + (if b = [] then 1 else 2) \<le> max_bytes"
      "preview s marker max_lines max_bytes = f @ [newline] @ m @ (if b = [] then [] else newline # b)"
proof (cases "max_lines \<le> 1 \<or> length (take_prefix_bytes marker max_bytes) + 2 \<ge> max_bytes")
  case True
  then show thesis by (intro alone) (simp add: preview_def Let_def)
next
  case False
  define m where "m = take_prefix_bytes marker max_bytes"
  define front where "front = join [newline] (take ((max_lines - 1 + 1) div 2) (lines s))"
  define rear where "rear = join [newline] (drop (length (lines s) - (max_lines - 1) div 2) (lines s))"
  define available where "available = max_bytes - (length m + (if rear = [] then 1 else 2))"
  define f where "f = take_prefix_bytes front ((available + 1) div 2)"
  define b where "b = take_suffix_bytes rear (available div 2)"
  obtain k where k: "b = drop k rear" unfolding b_def using take_suffix_bytes_drop by blast
  obtain n where n: "f = take n front" by (simp add: f_def take_prefix_bytes_def)
  have "length f + length b \<le> available"
    unfolding f_def b_def
    using take_prefix_bytes_le [of front "(available + 1) div 2"] take_suffix_bytes_le [of rear "available div 2"] by linarith
  moreover have "(if b = [] then 1 else 2) \<le> (if rear = [] then 1 else 2 :: nat)" using k by simp
  moreover have "length m + (if rear = [] then 1 else 2) \<le> max_bytes" using False m_def by simp
  ultimately have fit: "length f + length b + length m + (if b = [] then 1 else 2) \<le> max_bytes"
    unfolding available_def by linarith
  have "preview s marker max_lines max_bytes = f @ [newline] @ m @ (if b = [] then [] else newline # b)"
    using False unfolding preview_def Let_def m_def [symmetric] front_def [symmetric] rear_def [symmetric]
      available_def [symmetric] f_def [symmetric] b_def [symmetric] by simp
  moreover have "1 < max_lines" "length m + 2 < max_bytes" using False m_def by auto
  ultimately show thesis using fit by (intro parts [OF m_def _ _ n [unfolded front_def] k [unfolded rear_def]])
qed

lemma preview_le: "length (preview s marker max_lines max_bytes) \<le> max_bytes"
proof (cases rule: preview_cases [of s marker max_lines max_bytes])
  case alone
  then show ?thesis using take_prefix_bytes_le by simp
next
  case (parts f b k n m)
  have "length (f @ [newline] @ m @ (if b = [] then [] else newline # b)) \<le> max_bytes" using parts(6) by (cases "b = []") simp_all
  with parts(7) show ?thesis by (simp only:)
qed

definition newlines :: "string \<Rightarrow> nat" where
  "newlines s = length (filter (\<lambda>c. c = newline) s)"

lemma newlines_simps [simp]:
  "newlines [] = 0" "newlines (s @ t) = newlines s + newlines t" "newlines (c # s) = (if c = newline then 1 else 0) + newlines s"
  by (simp_all add: newlines_def)

lemma newlines_take: "newlines (take n s) \<le> newlines s"
  by (metis append_take_drop_id le_add1 newlines_simps(2))

lemma newlines_drop: "newlines (drop n s) \<le> newlines s"
  by (metis append_take_drop_id le_add2 newlines_simps(2))

lemma newlines_none: "newline \<notin> set s \<longleftrightarrow> newlines s = 0"
  by (auto simp: newlines_def filter_empty_conv)

lemma lines_newline_free: "l \<in> set (lines s) \<Longrightarrow> newline \<notin> set l"
proof -
  have "newline \<notin> set acc \<Longrightarrow> l \<in> set (lines_from acc s) \<Longrightarrow> newline \<notin> set l" for acc
    by (induction acc s rule: lines_from.induct) (auto simp: strip_cr_def dest: in_set_butlastD split: if_splits)
  from this [of "[]"] show "l \<in> set (lines s) \<Longrightarrow> newline \<notin> set l" by (simp add: lines_def)
qed

lemma newlines_join: "(\<And>l. l \<in> set ls \<Longrightarrow> newlines l = 0) \<Longrightarrow> newlines (join [newline] ls) \<le> length ls - 1"
  by (induction ls rule: induct_list012) auto

lemma newlines_join_lines:
  assumes "set ls \<subseteq> set (lines s)"
  shows "newlines (join [newline] ls) \<le> length ls - 1"
  using assms lines_newline_free by (intro newlines_join) (auto simp: newlines_none [symmetric])

lemma line_count_newlines: "line_count s \<le> newlines s + 1"
  by (simp add: line_count_def newlines_def)

lemma preview_line_count:
  assumes "newline \<notin> set marker" and "1 \<le> max_lines"
  shows "line_count (preview s marker max_lines max_bytes) \<le> max_lines"
proof -
  have m: "newlines (take_prefix_bytes marker max_bytes) = 0"
    using assms(1) newlines_take [of _ marker] by (auto simp: take_prefix_bytes_def newlines_none)
  show ?thesis
  proof (cases rule: preview_cases [of s marker max_lines max_bytes])
    case alone
    then show ?thesis using m assms(2) line_count_newlines [of "take_prefix_bytes marker max_bytes"] by simp
  next
    case (parts f b k n mk)
    let ?h = "(max_lines - 1 + 1) div 2" and ?t = "(max_lines - 1) div 2"
    have "newlines (join [newline] (take ?h (lines s))) \<le> ?h - 1"
      using newlines_join_lines [OF set_take_subset [of ?h "lines s"]] by (auto simp: min_def split: if_splits)
    then have "newlines f \<le> ?h - 1" unfolding parts(4) using newlines_take le_trans by blast
    moreover have "newlines (join [newline] (drop (length (lines s) - ?t) (lines s))) \<le> ?t - 1"
      using newlines_join_lines [OF set_drop_subset [of "length (lines s) - ?t" "lines s"]] unfolding length_drop by linarith
    then have "newlines b \<le> ?t - 1" unfolding parts(5) using newlines_drop le_trans by blast
    moreover have "b = []" if "?t = 0" using that unfolding parts(5) by simp
    moreover have "newlines (preview s marker max_lines max_bytes) = newlines f + 1 + (if b = [] then 0 else 1 + newlines b)"
      using m unfolding parts(7) parts(1) by simp
    ultimately have "newlines (preview s marker max_lines max_bytes) + 1 \<le> max_lines"
      using parts(2) by (cases "?t = 0"; cases "b = []") presburger+
    then show ?thesis using line_count_newlines [of "preview s marker max_lines max_bytes"] by linarith
  qed
qed

lemma structured_loop_result:
  "structured_loop render path marker max_lines max_bytes v = Some t \<Longrightarrow> \<exists>v'. t = render v' \<and> json_contains_path path v' \<and> length t \<le> max_bytes"
proof (induction render path marker max_lines max_bytes v rule: structured_loop.induct)
  case (1 render path marker max_lines max_bytes v)
  show ?case
  proof (cases "length (render v) \<le> max_bytes")
    case True
    with 1(2) show ?thesis by (subst (asm) structured_loop.simps) (auto simp: Let_def split: if_splits)
  next
    case False
    let ?tr = "truncate_first_json_string v (longest_json_string_len v)
      (longest_json_string_len v - (length (render v) - max_bytes)) marker max_lines"
    from False have eq: "structured_loop render path marker max_lines max_bytes v =
        (if longest_json_string_len v = 0 \<or> length (render v) - max_bytes > longest_json_string_len v then None
         else case ?tr of None \<Rightarrow> None | Some v' \<Rightarrow> structured_loop render path marker max_lines max_bytes v')"
      by (subst structured_loop.simps) (simp only: Let_def if_False)
    show ?thesis
    proof (cases "longest_json_string_len v = 0 \<or> length (render v) - max_bytes > longest_json_string_len v")
      case small: False
      from eq small 1(2) have "(case ?tr of None \<Rightarrow> None | Some v' \<Rightarrow> structured_loop render path marker max_lines max_bytes v') = Some t"
        by (simp only: if_False)
      then obtain v' where "?tr = Some v'" "structured_loop render path marker max_lines max_bytes v' = Some t"
        by (cases ?tr) auto
      from 1(1) [OF refl False refl refl small this] show ?thesis .
    qed (use eq 1(2) in simp)
  qed
qed

lemma structured_preview_result:
  assumes "structured_preview render v path marker max_lines max_bytes = Some t"
  shows "\<exists>v'. t = render v' \<and> json_contains_path path v' \<and> length t \<le> max_bytes"
proof (cases "structured_loop render path marker max_lines max_bytes v")
  case None
  let ?f = "JObject [(''truncated'', JBool True), (''full_output_path'', JString path)]"
  have "json_contains_path path ?f" by (auto simp: contains_str_iff intro: exI [of _ "[]"])
  moreover have "t = render ?f" "length t \<le> max_bytes"
    using None assms by (auto simp: structured_preview_def Let_def split: if_splits)
  ultimately show ?thesis by blast
next
  case (Some u)
  with assms structured_loop_result show ?thesis by (auto simp: structured_preview_def)
qed

text \<open>What a successful write leaves on the disk.\<close>

lemma store_full_Some:
  assumes "store_full cfg tool content d = (Some path, d1)"
  shows "path = path_join (oc_directory cfg) (safe_tool tool @ ''-'' @ dk_ids d (dk_next d) @ ''.txt'')"
    and "map_of (dk_files d1) path = Some (dk_now d, content)"
  using assms by (auto simp: store_full_def Let_def cleanup_expired_def AList.update_conv' split: if_splits)

lemma safe_tool_newline_free: "newline \<notin> set (safe_tool tool)"
proof -
  have "\<forall>c \<in> set (map (\<lambda>c. if list_all ascii_alphanumeric c then c else ''_'') (chars tool)). newline \<notin> set c"
    by (auto simp: list_all_iff newline_def ascii_alphanumeric_def Let_def)
  then show ?thesis by (auto simp: safe_tool_def dest: in_set_takeD)
qed

lemma preview_names_path:
  assumes "length marker \<le> max_bytes"
  shows "contains_str marker (preview s marker max_lines max_bytes)"
  unfolding contains_str_iff
proof (cases rule: preview_cases [of s marker max_lines max_bytes])
  case alone
  then show "\<exists>a b. preview s marker max_lines max_bytes = a @ marker @ b"
    using take_prefix_bytes_id [OF assms] by (intro exI [of _ "[]"]) simp
next
  case (parts f b k n m)
  then show "\<exists>a b. preview s marker max_lines max_bytes = a @ marker @ b"
    using take_prefix_bytes_id [OF assms] by (intro exI [of _ "f @ [newline]"] exI [of _ "if b = [] then [] else newline # b"]) simp
qed

definition output_marker :: "string \<Rightarrow> string" where
  "output_marker path = ''... '' @ truncated_marker @ '' '' @ path @ '' ...''"

lemma bound_text_cases:
  assumes "bound_text parse render cfg tool content d = (r, d1)"
  obtains (fits) "length content \<le> oc_max_bytes cfg" "line_count content \<le> oc_max_lines cfg" "r = whole_text content" "d1 = d"
  | (kept) "\<not> (length content \<le> oc_max_bytes cfg \<and> line_count content \<le> oc_max_lines cfg)" "r = whole_text content"
  | (plain) path where "\<not> (length content \<le> oc_max_bytes cfg \<and> line_count content \<le> oc_max_lines cfg)"
      "store_full cfg tool content d = (Some path, d1)" "parse content = None" "bt_output_path r = Some path"
      "bt_content r = preview content (output_marker path) (oc_max_lines cfg) (oc_max_bytes cfg)"
  | (json) path v where "\<not> (length content \<le> oc_max_bytes cfg \<and> line_count content \<le> oc_max_lines cfg)"
      "store_full cfg tool content d = (Some path, d1)" "parse content = Some v" "bt_output_path r = Some path"
      "structured_preview render v path (output_marker path) (oc_max_lines cfg) (oc_max_bytes cfg) = Some (bt_content r)"
proof (cases "length content \<le> oc_max_bytes cfg \<and> line_count content \<le> oc_max_lines cfg")
  case True
  with assms show thesis by (intro fits) (auto simp: bound_text_def)
next
  case False
  obtain stored d2 where st: "store_full cfg tool content d = (stored, d2)" by fastforce
  show thesis
  proof (cases stored)
    case None
    with assms False st show thesis by (intro kept) (auto simp: bound_text_def)
  next
    case (Some path)
    show thesis
    proof (cases "parse content")
      case None
      with assms False st Some show thesis by (intro plain [of path]) (auto simp: bound_text_def output_marker_def Let_def)
    next
      case v: (Some v)
      show thesis
      proof (cases "structured_preview render v path (output_marker path) (oc_max_lines cfg) (oc_max_bytes cfg)")
        case None
        with assms False st Some v show thesis by (intro kept) (auto simp: bound_text_def output_marker_def Let_def)
      next
        case (Some t)
        with assms False st \<open>stored = Some path\<close> v show thesis
          by (intro json [of path v]) (auto simp: bound_text_def output_marker_def Let_def)
      qed
    qed
  qed
qed

lemma preview_names_output:
  assumes "length path + 40 \<le> max_bytes"
  shows "contains_str (truncated_marker @ '' '' @ path) (preview s (output_marker path) max_lines max_bytes)"
proof -
  have "length (output_marker path) \<le> max_bytes" using assms by (simp add: output_marker_def truncated_marker_def)
  from preview_names_path [OF this] obtain a b where "preview s (output_marker path) max_lines max_bytes = a @ output_marker path @ b"
    unfolding contains_str_iff by blast
  then show ?thesis
    unfolding contains_str_iff output_marker_def by (intro exI [of _ "a @ ''... ''"] exI [of _ "'' ...'' @ b"]) simp
qed

section \<open>Properties of bounding\<close>



end
