(* ===== verification/Microcompact.thy ===== *)
theory Microcompact
  imports Tool_Output
begin

text \<open>
  The deterministic pruning of a turn's history before each provider call (microcompact_history in
  src/src/tool_output.rs): old successful tool results are replaced by the path of the file that
  holds them, and long arguments of old edits are cut.
\<close>

section \<open>Pruning inside a turn\<close>

definition pruned_marker :: string where
  "pruned_marker = ''old tool result pruned; full output saved to''"

definition argument_marker :: string where
  "argument_marker = ''...(argument truncated)''"

record result_ref =
  rr_message :: nat
  rr_block :: nat
  rr_id :: string
  rr_error :: bool
  rr_chars :: nat

definition estimated_tokens :: "nat \<Rightarrow> nat" where
  "estimated_tokens cs = (cs + 3) div 4"

definition truncate_string :: "string \<Rightarrow> nat \<Rightarrow> (nat \<times> string) option" where
  "truncate_string text max_chars =
     (let cs = chars text in
      if length cs \<le> max_chars \<or> contains_str argument_marker text then None
      else (let new = concat (take 20 cs) @ argument_marker
            in Some (estimated_tokens (length cs - length (chars new)), new)))"

fun truncate_edits :: "nat \<Rightarrow> jvalue list \<Rightarrow> nat \<times> nat \<times> jvalue list" where
  "truncate_edits max_chars [] = (0, 0, [])"
| "truncate_edits max_chars (item # items) =
     (let (changed, saved, rest) = truncate_edits max_chars items in
      case Option.bind (json_as_str item) (\<lambda>text. truncate_string text max_chars) of
        None \<Rightarrow> (changed, saved, item # rest)
      | Some (s, new) \<Rightarrow> (changed + 1, saturating_add saved s, JString new # rest))"

definition truncate_call_input :: "string \<Rightarrow> nat \<Rightarrow> jvalue \<Rightarrow> nat \<times> nat \<times> jvalue" where
  "truncate_call_input name max_chars input =
     (if name = ''write_file'' then
        (case Option.bind (Option.bind (json_get ''content'' input) json_as_str) (\<lambda>text. truncate_string text max_chars) of
           None \<Rightarrow> (0, 0, input)
         | Some (saved, new) \<Rightarrow> (1, saved, json_set ''content'' (JString new) input))
      else if name = ''edit_file'' then
        (case Option.bind (json_get ''edits'' input) json_as_array of
           None \<Rightarrow> (0, 0, input)
         | Some items \<Rightarrow>
             (let (changed, saved, new) = truncate_edits max_chars items
              in (changed, saved, json_set ''edits'' (JArray new) input)))
      else (0, 0, input))"

fun truncate_old_arguments ::
  "(string \<Rightarrow> jvalue option) \<Rightarrow> (jvalue \<Rightarrow> string) \<Rightarrow> string list \<Rightarrow> nat \<Rightarrow> content_block \<Rightarrow> content_block \<times> nat \<times> nat" where
  "truncate_old_arguments parse render protected_ids max_chars (ToolCall tid name input) =
     (if tid \<in> set protected_ids then (ToolCall tid name input, 0, 0)
      else (case parse input of
              None \<Rightarrow> (ToolCall tid name input, 0, 0)
            | Some v \<Rightarrow>
                (let (changed, saved, v') = truncate_call_input name max_chars v
                 in (ToolCall tid name (if changed = 0 then input else render v'), changed, saved))))"
| "truncate_old_arguments parse render protected_ids max_chars b = (b, 0, 0)"

definition result_refs_of :: "nat \<Rightarrow> message \<Rightarrow> result_ref list" where
  "result_refs_of i m =
     List.map_filter (\<lambda>(j, b). case b of
         ToolResult tid content is_error \<Rightarrow>
           Some \<lparr>rr_message = i, rr_block = j, rr_id = tid, rr_error = is_error, rr_chars = length (chars content)\<rparr>
       | _ \<Rightarrow> None) (List.enumerate 0 (msg_content m))"

definition result_refs :: "message list \<Rightarrow> result_ref list" where
  "result_refs ms = concat (map (\<lambda>(i, m). result_refs_of i m) (List.enumerate 0 ms))"

fun note_call :: "(string \<Rightarrow> jvalue option) \<Rightarrow> content_block \<Rightarrow> (string \<times> string \<times> string option) list \<Rightarrow> (string \<times> string \<times> string option) list" where
  "note_call parse (ToolCall tid name input) info =
     AList.update tid (name, Option.bind (Option.bind (parse input) (json_get ''path'')) json_as_str) info"
| "note_call parse _ info = info"

definition call_info :: "(string \<Rightarrow> jvalue option) \<Rightarrow> message list \<Rightarrow> (string \<times> string \<times> string option) list" where
  "call_info parse ms = fold (note_call parse) (concat (map msg_content ms)) []"

definition protected_recent :: "nat \<Rightarrow> result_ref list \<Rightarrow> string list" where
  "protected_recent keep results = map rr_id (take keep (rev (filter (\<lambda>r. \<not> rr_error r) results)))"

fun select_prune :: "nat \<Rightarrow> string list \<Rightarrow> nat \<Rightarrow> result_ref list \<Rightarrow> result_ref list" where
  "select_prune limit recent retained [] = []"
| "select_prune limit recent retained (r # rs) =
     (let tokens = estimated_tokens (rr_chars r) in
      if rr_error r \<or> rr_id r \<in> set recent then select_prune limit recent (saturating_add retained tokens) rs
      else if saturating_add retained tokens \<le> limit then select_prune limit recent (retained + tokens) rs
      else r # select_prune limit recent retained rs)"

definition set_block :: "nat \<Rightarrow> nat \<Rightarrow> content_block \<Rightarrow> message list \<Rightarrow> message list" where
  "set_block i j b ms = ms[i := (ms ! i)\<lparr>msg_content := (msg_content (ms ! i))[j := b]\<rparr>]"

definition prune_target ::
  "(string \<Rightarrow> jvalue option) \<Rightarrow> tool_output_config \<Rightarrow> string \<Rightarrow> string \<Rightarrow> disk \<Rightarrow> (string \<times> bool) option \<times> disk" where
  "prune_target parse cfg tool_name content d =
     (case existing_output_path parse content of
        Some path \<Rightarrow>
          if path_under (oc_directory cfg) path \<and> map_of (dk_files d) path \<noteq> None then (Some (path, False), d)
          else (case store_full cfg tool_name content d of (p, d1) \<Rightarrow> (map_option (\<lambda>p. (p, True)) p, d1))
      | None \<Rightarrow> (case store_full cfg tool_name content d of (p, d1) \<Rightarrow> (map_option (\<lambda>p. (p, True)) p, d1)))"

definition pruned_text :: "string \<Rightarrow> string" where
  "pruned_text path = ''['' @ pruned_marker @ '' '' @ path @ '']''"

definition note_eviction :: "(string \<times> string \<times> string option) list \<Rightarrow> string \<Rightarrow> microcompact_stats \<Rightarrow> microcompact_stats" where
  "note_eviction info tid st =
     (case map_of info tid of
        Some (name, path) \<Rightarrow>
          if name = ''read_file''
          then (case path of
                  Some p \<Rightarrow> if is_absolute p then st\<lparr>mc_evicted := mc_evicted st @ [p]\<rparr> else st\<lparr>mc_clear_cache := True\<rparr>
                | None \<Rightarrow> st\<lparr>mc_clear_cache := True\<rparr>)
          else st
      | None \<Rightarrow> st)"

definition prune_one ::
  "(string \<Rightarrow> jvalue option) \<Rightarrow> tool_output_config \<Rightarrow> (string \<times> string \<times> string option) list \<Rightarrow> result_ref
    \<Rightarrow> message list \<times> disk \<times> microcompact_stats \<Rightarrow> message list \<times> disk \<times> microcompact_stats" where
  "prune_one parse cfg info item = (\<lambda>(ms, d, st).
     (case msg_content (ms ! rr_message item) ! rr_block item of
        ToolResult tid content is_error \<Rightarrow>
          if contains_str pruned_marker content then (ms, d, st)
          else
            (let tool_name = (case map_of info (rr_id item) of Some (name, _) \<Rightarrow> name | None \<Rightarrow> ''tool'') in
             case prune_target parse cfg tool_name content d of
               (None, d1) \<Rightarrow> (ms, d1, st)
             | (Some (path, created), d1) \<Rightarrow>
                 (let marker = pruned_text path in
                  if length (chars marker) \<ge> rr_chars item
                  then (ms, if created then remove_file path d1 else d1, st)
                  else
                    (set_block (rr_message item) (rr_block item) (ToolResult tid marker is_error) ms, d1,
                     note_eviction info (rr_id item)
                       (st\<lparr>mc_results_pruned := mc_results_pruned st + 1,
                           mc_tokens_saved := saturating_add (mc_tokens_saved st)
                             (estimated_tokens (rr_chars item - length (chars marker)))\<rparr>))))
      | _ \<Rightarrow> (ms, d, st)))"

fun argument_pass ::
  "(string \<Rightarrow> jvalue option) \<Rightarrow> (jvalue \<Rightarrow> string) \<Rightarrow> string list \<Rightarrow> nat \<Rightarrow> content_block list \<Rightarrow> microcompact_stats
    \<Rightarrow> content_block list \<times> microcompact_stats" where
  "argument_pass parse render protected_ids max_chars [] st = ([], st)"
| "argument_pass parse render protected_ids max_chars (b # bs) st =
     (let (b', changed, saved) = truncate_old_arguments parse render protected_ids max_chars b;
          (bs', st') = argument_pass parse render protected_ids max_chars bs
            (st\<lparr>mc_arguments_pruned := mc_arguments_pruned st + changed, mc_tokens_saved := saturating_add (mc_tokens_saved st) saved\<rparr>)
      in (b' # bs', st'))"

fun argument_messages ::
  "(string \<Rightarrow> jvalue option) \<Rightarrow> (jvalue \<Rightarrow> string) \<Rightarrow> string list \<Rightarrow> nat \<Rightarrow> message list \<Rightarrow> microcompact_stats
    \<Rightarrow> message list \<times> microcompact_stats" where
  "argument_messages parse render protected_ids max_chars [] st = ([], st)"
| "argument_messages parse render protected_ids max_chars (m # ms) st =
     (let (bs, st1) = argument_pass parse render protected_ids max_chars (msg_content m) st;
          (ms', st2) = argument_messages parse render protected_ids max_chars ms st1
      in (m\<lparr>msg_content := bs\<rparr> # ms', st2))"

definition sort_paths :: "string list \<Rightarrow> string list" where
  "sort_paths paths =
     fold (\<lambda>p acc. if acc \<noteq> [] \<and> path_components (last acc) = path_components p then acc else acc @ [p])
       (sort_key path_components paths) []"

definition microcompact_history ::
  "(string \<Rightarrow> jvalue option) \<Rightarrow> (jvalue \<Rightarrow> string) \<Rightarrow> tool_output_config \<Rightarrow> message list \<Rightarrow> disk
    \<Rightarrow> microcompact_stats \<times> message list \<times> disk" where
  "microcompact_history parse render cfg ms d =
     (let info = call_info parse ms;
          results = result_refs ms;
          recent = protected_recent (oc_keep_recent cfg) results;
          errors = map rr_id (filter rr_error results);
          to_prune = select_prune (oc_budget_tokens cfg) recent 0 (rev results);
          (ms1, d1, st1) = fold (prune_one parse cfg info) to_prune (ms, d, stats_default);
          (ms2, st2) = argument_messages parse render (recent @ errors) (oc_old_argument_max cfg) ms1 st1
      in (st2\<lparr>mc_evicted := sort_paths (mc_evicted st2)\<rparr>, ms2, d1))"

section \<open>What pruning keeps\<close>

definition same_block :: "content_block \<Rightarrow> content_block \<Rightarrow> bool" where
  "same_block b b' \<longleftrightarrow>
     (case b of
        ToolResult i c e \<Rightarrow> (case b' of ToolResult i' c' e' \<Rightarrow> i' = i \<and> e' = e | _ \<Rightarrow> False)
      | ToolCall i n a \<Rightarrow> (case b' of ToolCall i' n' a' \<Rightarrow> i' = i \<and> n' = n | _ \<Rightarrow> False)
      | _ \<Rightarrow> b' = b)"

definition same_shape :: "message list \<Rightarrow> message list \<Rightarrow> bool" where
  "same_shape ms ms' \<longleftrightarrow>
     list_all2 (\<lambda>m m'. msg_role m' = msg_role m \<and> list_all2 same_block (msg_content m) (msg_content m')) ms ms'"

lemma same_block_refl [simp]: "same_block b b"
  by (cases b) (simp_all add: same_block_def)

lemma same_block_trans: "same_block a b \<Longrightarrow> same_block b c \<Longrightarrow> same_block a c"
  by (cases a; cases b; cases c) (auto simp: same_block_def)

lemma same_shape_refl [simp]: "same_shape ms ms"
  by (auto simp: same_shape_def list_all2_conv_all_nth)

lemma same_blocks_trans: "list_all2 same_block x y \<Longrightarrow> list_all2 same_block y z \<Longrightarrow> list_all2 same_block x z"
proof (induction x y arbitrary: z rule: list_all2_induct)
  case (Cons a x b y)
  then obtain c z' where "z = c # z'" "same_block b c" "list_all2 same_block y z'" by (auto simp: list_all2_Cons1)
  with Cons show ?case using same_block_trans by auto
qed simp

lemma same_shape_trans: "same_shape a b \<Longrightarrow> same_shape b c \<Longrightarrow> same_shape a c"
  unfolding same_shape_def
proof (induction a b arbitrary: c rule: list_all2_induct)
  case (Cons m a n b)
  then obtain k c' where c: "c = k # c'" "msg_role k = msg_role n" "list_all2 same_block (msg_content n) (msg_content k)"
    "list_all2 (\<lambda>m m'. msg_role m' = msg_role m \<and> list_all2 same_block (msg_content m) (msg_content m')) b c'"
    by (auto simp: list_all2_Cons1)
  from same_blocks_trans [OF _ c(3)] Cons(1) Cons.IH [OF c(4)] c(1,2) show ?case by simp
qed simp

lemma same_block_ids:
  "same_block b b' \<Longrightarrow> tool_call_id b' = tool_call_id b" "same_block b b' \<Longrightarrow> tool_result_id b' = tool_result_id b"
  "same_block b b' \<Longrightarrow> is_tool_call b' = is_tool_call b" "same_block b b' \<Longrightarrow> user_turn_block b' = user_turn_block b"
  by (cases b; cases b'; simp add: same_block_def)+

lemma same_block_map_filter:
  "list_all2 same_block bs bs' \<Longrightarrow> (\<And>b b'. same_block b b' \<Longrightarrow> f b' = f b) \<Longrightarrow> List.map_filter f bs' = List.map_filter f bs"
  by (induction bs bs' rule: list_all2_induct) (simp_all add: map_filter_simps split: option.split)

lemma same_block_list_ex:
  "list_all2 same_block bs bs' \<Longrightarrow> list_ex user_turn_block bs' = list_ex user_turn_block bs"
  by (induction bs bs' rule: list_all2_induct) (auto dest: same_block_ids(4))

lemma same_message:
  assumes "msg_role m' = msg_role m" and "list_all2 same_block (msg_content m) (msg_content m')"
  shows "call_ids m' = call_ids m" and "is_user_turn_message m' = is_user_turn_message m"
proof -
  show "call_ids m' = call_ids m"
    using same_block_map_filter [OF assms(2) same_block_ids(1)] assms(1) by (simp add: call_ids_def)
  from same_block_list_ex [OF assms(2)] assms(1) show "is_user_turn_message m' = is_user_turn_message m" by (simp add: is_user_turn_message_def)
qed

lemma same_shape_blocks: "same_shape ms ms' \<Longrightarrow> list_all2 same_block (concat (map msg_content ms)) (concat (map msg_content ms'))"
  unfolding same_shape_def by (induction ms ms' rule: list_all2_induct) (auto intro: list_all2_appendI)

text \<open>A result that was replaced by the pruned text of a file that holds it.\<close>

definition pruned_from ::
  "(string \<Rightarrow> jvalue option) \<Rightarrow> string list \<Rightarrow> disk \<Rightarrow> content_block \<Rightarrow> content_block \<Rightarrow> bool" where
  "pruned_from parse recent d b b' \<longleftrightarrow>
     (\<exists>i c path. b = ToolResult i c False \<and> b' = ToolResult i (pruned_text path) False \<and> i \<notin> set recent
        \<and> length (chars (pruned_text path)) < length (chars c)
        \<and> (map_of (dk_files d) path = Some (dk_now d, c) \<or> existing_output_path parse c = Some path))"

definition prune_inv :: "(string \<Rightarrow> jvalue option) \<Rightarrow> string list \<Rightarrow> message list \<Rightarrow> message list \<Rightarrow> disk \<Rightarrow> bool" where
  "prune_inv parse recent ms0 ms d \<longleftrightarrow>
     list_all2 (\<lambda>m m'. msg_role m' = msg_role m
       \<and> list_all2 (\<lambda>b b'. b' = b \<or> pruned_from parse recent d b b') (msg_content m) (msg_content m')) ms0 ms"

lemma map_of_filter_kept: "map_of xs k = Some v \<Longrightarrow> P (k, v) \<Longrightarrow> map_of (filter P xs) k = Some v"
  by (induction xs) (auto split: if_splits)

lemma store_full_keeps:
  assumes "map_of (dk_files d) p = Some (dk_now d, c)" and "store_full cfg tool x d = (r, d1)"
  shows "map_of (dk_files d1) p = Some (dk_now d, c) \<and> r \<noteq> Some p"
proof -
  let ?P = "\<lambda>(path, modified, _ :: string). \<not> (in_directory (oc_directory cfg) path
      \<and> modified < dk_now d - min (oc_retention_days cfg * 86400) u64_max * second_ns)"
  have "map_of (filter ?P (dk_files d)) p = Some (dk_now d, c)"
    by (rule map_of_filter_kept [OF assms(1)]) (simp add: not_less)
  with assms show ?thesis
    by (auto simp: store_full_def Let_def cleanup_expired_def AList.update_conv' split: if_splits)
qed

lemma store_full_now: "store_full cfg tool x d = (r, d1) \<Longrightarrow> dk_now d1 = dk_now d"
  by (auto simp: store_full_def Let_def cleanup_expired_def split: if_splits)

lemma prune_target_cases:
  assumes "prune_target parse cfg tool c d = (r, d1)"
  obtains (existing) path where "r = Some (path, False)" "existing_output_path parse c = Some path" "d1 = d"
  | (stored) q where "store_full cfg tool c d = (q, d1)" "r = map_option (\<lambda>p. (p, True)) q"
proof -
  obtain q d2 where q: "store_full cfg tool c d = (q, d2)" by fastforce
  show thesis
  proof (cases "existing_output_path parse c")
    case None
    with assms q show thesis by (intro stored [of q]) (auto simp: prune_target_def)
  next
    case (Some path)
    show thesis
    proof (cases "path_under (oc_directory cfg) path \<and> map_of (dk_files d) path \<noteq> None")
      case True
      with assms Some show thesis by (intro existing [of path]) (auto simp: prune_target_def)
    next
      case False
      with assms q Some show thesis by (intro stored [of q]) (auto simp: prune_target_def)
    qed
  qed
qed

lemma prune_target_facts:
  assumes "prune_target parse cfg tool c d = (r, d1)"
  shows "dk_now d1 = dk_now d"
    and "map_of (dk_files d) p = Some (dk_now d, x) \<Longrightarrow> map_of (dk_files d1) p = Some (dk_now d, x) \<and> r \<noteq> Some (p, True)"
    and "r = Some (path, created) \<Longrightarrow>
      map_of (dk_files d1) path = Some (dk_now d, c) \<or> existing_output_path parse c = Some path"
proof -
  show "dk_now d1 = dk_now d"
    using assms
  proof (cases rule: prune_target_cases)
    case (stored q)
    then show ?thesis using store_full_now by blast
  qed simp
  show "map_of (dk_files d1) p = Some (dk_now d, x) \<and> r \<noteq> Some (p, True)" if "map_of (dk_files d) p = Some (dk_now d, x)"
    using assms
  proof (cases rule: prune_target_cases)
    case (stored q)
    with store_full_keeps [OF that stored(1)] show ?thesis by simp
  qed (use that in simp)
  show "map_of (dk_files d1) path = Some (dk_now d, c) \<or> existing_output_path parse c = Some path" if "r = Some (path, created)"
    using assms
  proof (cases rule: prune_target_cases)
    case (stored q)
    with that have "store_full cfg tool c d = (Some path, d1)" by (cases q) simp_all
    with store_full_Some(2) show ?thesis by blast
  qed (use that in simp)
qed

lemma select_prune_member:
  "r \<in> set (select_prune limit recent k rs) \<Longrightarrow> r \<in> set rs \<and> \<not> rr_error r \<and> rr_id r \<notin> set recent"
  by (induction limit recent k rs rule: select_prune.induct) (auto simp: Let_def split: if_splits)

lemma result_refs_member:
  assumes "r \<in> set (result_refs ms)"
  shows "rr_message r < length ms \<and> rr_block r < length (msg_content (ms ! rr_message r))
    \<and> (\<exists>c. msg_content (ms ! rr_message r) ! rr_block r = ToolResult (rr_id r) c (rr_error r) \<and> rr_chars r = length (chars c))"
proof -
  from assms obtain i m where im: "(i, m) \<in> set (List.enumerate 0 ms)" and r: "r \<in> set (result_refs_of i m)"
    by (auto simp: result_refs_def)
  have i: "i < length ms" "m = ms ! i" using im by (auto simp: in_set_enumerate_eq)
  from r obtain j b where jb: "(j, b) \<in> set (List.enumerate 0 (msg_content m))"
    and rr: "(case b of ToolResult tid content is_error \<Rightarrow>
        Some \<lparr>rr_message = i, rr_block = j, rr_id = tid, rr_error = is_error, rr_chars = length (chars content)\<rparr> | _ \<Rightarrow> None) = Some r"
    by (auto simp: result_refs_of_def map_filter_def)
  from rr obtain tid c e where "b = ToolResult tid c e"
    "r = \<lparr>rr_message = i, rr_block = j, rr_id = tid, rr_error = e, rr_chars = length (chars c)\<rparr>" by (cases b) auto
  moreover have "j < length (msg_content m)" "b = msg_content m ! j" using jb by (auto simp: in_set_enumerate_eq)
  ultimately show ?thesis using i by auto
qed

lemma pruned_text_marked: "contains_str pruned_marker (pruned_text path)"
  unfolding contains_str_iff pruned_text_def by (intro exI [of _ "''[''"] exI [of _ "'' '' @ path @ '']''"]) simp

lemma prune_inv_disk:
  assumes "prune_inv parse recent ms0 ms d" and "dk_now d1 = dk_now d"
    and "\<And>p x. map_of (dk_files d) p = Some (dk_now d, x) \<Longrightarrow> map_of (dk_files d1) p = Some (dk_now d, x)"
  shows "prune_inv parse recent ms0 ms d1"
proof -
  have "pruned_from parse recent d b b' \<Longrightarrow> pruned_from parse recent d1 b b'" for b b'
    using assms(2,3) unfolding pruned_from_def by metis
  then show ?thesis
    using assms(1) unfolding prune_inv_def by (elim list_all2_mono) (auto elim: list_all2_mono)
qed

lemma prune_inv_set_block:
  assumes inv: "prune_inv parse recent ms0 ms d" and i: "i < length ms0" "j < length (msg_content (ms0 ! i))"
    and new: "pruned_from parse recent d (msg_content (ms0 ! i) ! j) b"
  shows "prune_inv parse recent ms0 (set_block i j b ms) d"
proof -
  have len: "length ms = length ms0" using inv by (simp add: prune_inv_def list_all2_lengthD)
  have at: "msg_role (ms ! k) = msg_role (ms0 ! k)
      \<and> list_all2 (\<lambda>b b'. b' = b \<or> pruned_from parse recent d b b') (msg_content (ms0 ! k)) (msg_content (ms ! k))"
    if "k < length ms0" for k
    using inv that unfolding prune_inv_def by (simp add: list_all2_conv_all_nth)
  have "list_all2 (\<lambda>b b'. b' = b \<or> pruned_from parse recent d b b') (msg_content (ms0 ! i)) ((msg_content (ms ! i))[j := b])"
    using at [OF i(1)] new i(2) by (auto simp: list_all2_conv_all_nth nth_list_update)
  note blk = this
  show ?thesis
    unfolding prune_inv_def set_block_def
  proof (rule list_all2_all_nthI)
    fix k assume "k < length ms0"
    then show "msg_role (ms[i := (ms ! i)\<lparr>msg_content := (msg_content (ms ! i))[j := b]\<rparr>] ! k) = msg_role (ms0 ! k)
      \<and> list_all2 (\<lambda>b b'. b' = b \<or> pruned_from parse recent d b b') (msg_content (ms0 ! k))
          (msg_content (ms[i := (ms ! i)\<lparr>msg_content := (msg_content (ms ! i))[j := b]\<rparr>] ! k))"
      by (cases "k = i") (use blk at len in simp_all)
  qed (simp add: len)
qed

lemma prune_one_inv:
  assumes inv: "prune_inv parse recent ms0 ms d" and item: "item \<in> set (result_refs ms0)" "\<not> rr_error item" "rr_id item \<notin> set recent"
    and run: "prune_one parse cfg info item (ms, d, st) = (ms', d', st')"
  shows "prune_inv parse recent ms0 ms' d' \<and> dk_now d' = dk_now d"
proof -
  let ?i = "rr_message item" and ?j = "rr_block item"
  from result_refs_member [OF item(1)] item(2) obtain c where
    ij: "?i < length ms0" "?j < length (msg_content (ms0 ! ?i))" and
    c: "msg_content (ms0 ! ?i) ! ?j = ToolResult (rr_id item) c False" "rr_chars item = length (chars c)" by auto
  have now: "msg_content (ms ! ?i) ! ?j = msg_content (ms0 ! ?i) ! ?j
      \<or> pruned_from parse recent d (msg_content (ms0 ! ?i) ! ?j) (msg_content (ms ! ?i) ! ?j)"
    using inv ij unfolding prune_inv_def by (auto simp: list_all2_conv_all_nth)
  show ?thesis
  proof (cases "msg_content (ms ! ?i) ! ?j = ToolResult (rr_id item) c False \<and> \<not> contains_str pruned_marker c")
    case False
    then have "(ms', d', st') = (ms, d, st)"
      using run now c(1) pruned_text_marked by (auto simp: prune_one_def pruned_from_def)
    with inv show ?thesis by simp
  next
    case True
    define tool where "tool = (case map_of info (rr_id item) of Some (name, _) \<Rightarrow> name | None \<Rightarrow> ''tool'')"
    obtain r d1 where t: "prune_target parse cfg tool c d = (r, d1)" by fastforce
    note facts = prune_target_facts [OF t]
    have inv1: "prune_inv parse recent ms0 ms d1" using prune_inv_disk [OF inv facts(1)] facts(2) by blast
    show ?thesis
    proof (cases r)
      case None
      with run True t inv1 facts(1) show ?thesis by (auto simp: prune_one_def tool_def Let_def)
    next
      case (Some pc)
      obtain path created where pc: "pc = (path, created)" by fastforce
      show ?thesis
      proof (cases "length (chars (pruned_text path)) \<ge> rr_chars item")
        case long: True
        have "prune_inv parse recent ms0 ms (remove_file path d1)" if created
          using facts(1,2) that Some pc by (intro prune_inv_disk [OF inv]) (auto simp: remove_file_def AList.delete_conv')
        with run True t inv1 facts(1) Some pc long show ?thesis
          by (auto simp: prune_one_def tool_def Let_def remove_file_def split: if_splits)
      next
        case short: False
        have "pruned_from parse recent d1 (msg_content (ms0 ! ?i) ! ?j) (ToolResult (rr_id item) (pruned_text path) False)"
          unfolding pruned_from_def using short c item(3) facts(1,3) Some pc by auto
        from prune_inv_set_block [OF inv1 ij this] run True t facts(1) Some pc short show ?thesis
          by (auto simp: prune_one_def tool_def Let_def)
      qed
    qed
  qed
qed

lemma prune_all_inv:
  assumes "prune_inv parse recent ms0 ms d" and "\<forall>item \<in> set items. item \<in> set (result_refs ms0) \<and> \<not> rr_error item \<and> rr_id item \<notin> set recent"
    and "fold (prune_one parse cfg info) items (ms, d, st) = (ms', d', st')"
  shows "prune_inv parse recent ms0 ms' d' \<and> dk_now d' = dk_now d"
  using assms
proof (induction items arbitrary: ms d st)
  case (Cons item items)
  obtain ms1 d1 st1 where one: "prune_one parse cfg info item (ms, d, st) = (ms1, d1, st1)" by (metis prod_cases3)
  with prune_one_inv [OF Cons.prems(1) _ _ _ one] Cons.prems(2) have "prune_inv parse recent ms0 ms1 d1 \<and> dk_now d1 = dk_now d" by simp
  with Cons.IH [of ms1 d1 st1] Cons.prems(2,3) one show ?case by simp
qed simp

text \<open>The pass over the arguments changes only the inputs of unprotected calls of the two editing tools.\<close>

definition cut_from :: "string list \<Rightarrow> content_block \<Rightarrow> content_block \<Rightarrow> bool" where
  "cut_from protected_ids b b' \<longleftrightarrow>
     (\<exists>i n a a'. b = ToolCall i n a \<and> b' = ToolCall i n a' \<and> i \<notin> set protected_ids \<and> n \<in> {''write_file'', ''edit_file''})"

lemma truncate_old_arguments_cut:
  "truncate_old_arguments parse render protected_ids k b = (b', changed, saved) \<Longrightarrow> b' = b \<or> cut_from protected_ids b b'"
  by (cases b) (auto simp: cut_from_def truncate_call_input_def Let_def split: if_splits option.splits prod.splits)

lemma argument_pass_cut:
  "argument_pass parse render protected_ids k bs st = (bs', st') \<Longrightarrow> list_all2 (\<lambda>b b'. b' = b \<or> cut_from protected_ids b b') bs bs'"
proof (induction bs arbitrary: st bs')
  case (Cons b bs)
  then show ?case
    by (auto simp: Let_def split: prod.splits dest: truncate_old_arguments_cut)
qed simp

lemma argument_messages_cut:
  "argument_messages parse render protected_ids k ms st = (ms', st') \<Longrightarrow>
   list_all2 (\<lambda>m m'. msg_role m' = msg_role m
     \<and> list_all2 (\<lambda>b b'. b' = b \<or> cut_from protected_ids b b') (msg_content m) (msg_content m')) ms ms'"
proof (induction ms arbitrary: st ms')
  case (Cons m ms)
  then show ?case by (auto simp: Let_def split: prod.splits dest: argument_pass_cut)
qed simp

text \<open>The two passes together.\<close>

definition kept_block :: "(string \<Rightarrow> jvalue option) \<Rightarrow> string list \<Rightarrow> string list \<Rightarrow> disk \<Rightarrow> content_block \<Rightarrow> content_block \<Rightarrow> bool" where
  "kept_block parse recent errors d b b' \<longleftrightarrow> b' = b \<or> pruned_from parse recent d b b' \<or> cut_from (recent @ errors) b b'"

lemma kept_block_same: "kept_block parse recent errors d b b' \<Longrightarrow> same_block b b'"
  unfolding kept_block_def by (elim disjE) (simp, auto simp: pruned_from_def cut_from_def same_block_def)

lemma microcompact_blocks:
  assumes "microcompact_history parse render cfg ms d = (st, ms', d')"
  defines "recent \<equiv> protected_recent (oc_keep_recent cfg) (result_refs ms)"
    and "errors \<equiv> map rr_id (filter rr_error (result_refs ms))"
  shows "list_all2 (\<lambda>m m'. msg_role m' = msg_role m
     \<and> list_all2 (kept_block parse recent errors d') (msg_content m) (msg_content m')) ms ms'"
    and "dk_now d' = dk_now d"
proof -
  define items where "items = select_prune (oc_budget_tokens cfg) recent 0 (rev (result_refs ms))"
  obtain ms1 d1 st1 where f: "fold (prune_one parse cfg (call_info parse ms)) items (ms, d, stats_default) = (ms1, d1, st1)"
    by (metis prod_cases3)
  obtain ms2 st2 where g: "argument_messages parse render (recent @ errors) (oc_old_argument_max cfg) ms1 st1 = (ms2, st2)" by fastforce
  have "microcompact_history parse render cfg ms d = (st2\<lparr>mc_evicted := sort_paths (mc_evicted st2)\<rparr>, ms2, d1)"
    unfolding microcompact_history_def Let_def recent_def [symmetric] errors_def [symmetric] items_def [symmetric] f prod.case g ..
  with assms(1) have eq: "ms2 = ms'" "d1 = d'" by simp_all
  have members: "\<forall>item \<in> set items. item \<in> set (result_refs ms) \<and> \<not> rr_error item \<and> rr_id item \<notin> set recent"
    unfolding items_def using select_prune_member by fastforce
  have "prune_inv parse recent ms ms d" by (simp add: prune_inv_def list_all2_conv_all_nth)
  from prune_all_inv [OF this members f] have inv: "prune_inv parse recent ms ms1 d'" and now: "dk_now d' = dk_now d"
    using eq by simp_all
  show "dk_now d' = dk_now d" by (rule now)
  have cutm: "list_all2 (\<lambda>m m'. msg_role m' = msg_role m
     \<and> list_all2 (\<lambda>b b'. b' = b \<or> cut_from (recent @ errors) b b') (msg_content m) (msg_content m')) ms1 ms'"
    using argument_messages_cut [OF g] eq by simp
  have both: "kept_block parse recent errors d' b b''"
    if "b' = b \<or> pruned_from parse recent d' b b'" "b'' = b' \<or> cut_from (recent @ errors) b' b''" for b b' b''
  proof (cases "b' = b")
    case False
    then have "pruned_from parse recent d' b b'" using that(1) by blast
    moreover from this have "\<not> cut_from (recent @ errors) b' b''" unfolding pruned_from_def cut_from_def by blast
    ultimately show ?thesis using that(2) by (simp add: kept_block_def)
  qed (use that(2) in \<open>auto simp: kept_block_def\<close>)
  show "list_all2 (\<lambda>m m'. msg_role m' = msg_role m
     \<and> list_all2 (kept_block parse recent errors d') (msg_content m) (msg_content m')) ms ms'"
  proof (rule list_all2_all_nthI)
    show "length ms = length ms'" using list_all2_lengthD [OF inv [unfolded prune_inv_def]] list_all2_lengthD [OF cutm] by simp
    fix k assume k: "k < length ms"
    then have "msg_role (ms1 ! k) = msg_role (ms ! k)" "msg_role (ms' ! k) = msg_role (ms1 ! k)"
      "list_all2 (\<lambda>b b'. b' = b \<or> pruned_from parse recent d' b b') (msg_content (ms ! k)) (msg_content (ms1 ! k))"
      "list_all2 (\<lambda>b b'. b' = b \<or> cut_from (recent @ errors) b b') (msg_content (ms1 ! k)) (msg_content (ms' ! k))"
      using inv cutm unfolding prune_inv_def by (simp_all add: list_all2_conv_all_nth)
    then show "msg_role (ms' ! k) = msg_role (ms ! k) \<and> list_all2 (kept_block parse recent errors d') (msg_content (ms ! k)) (msg_content (ms' ! k))"
      using list_all2_trans [where ?P1.0 = "\<lambda>b b'. b' = b \<or> pruned_from parse recent d' b b'", OF both] by simp
  qed
qed

lemma microcompact_shape: "microcompact_history parse render cfg ms d = (st, ms', d') \<Longrightarrow> same_shape ms ms'"
  using microcompact_blocks(1) [of parse render cfg ms d st ms' d'] kept_block_same
  unfolding same_shape_def by (auto elim!: list_all2_mono)

definition is_tool_block :: "content_block \<Rightarrow> bool" where
  "is_tool_block b \<longleftrightarrow> tool_call_id b \<noteq> None \<or> tool_result_id b \<noteq> None"

lemma same_block_plain: "same_block b b' \<Longrightarrow> \<not> is_tool_block b \<Longrightarrow> b' = b"
  by (cases b) (auto simp: same_block_def is_tool_block_def)

lemma same_blocks_plain: "list_all2 same_block bs bs' \<Longrightarrow> \<not> list_ex is_tool_block bs \<Longrightarrow> bs' = bs"
  by (induction bs bs' rule: list_all2_induct) (auto dest: same_block_plain)

lemma same_shape_plain:
  assumes "same_shape ms ms'" and "n < length ms" and "\<not> list_ex is_tool_block (msg_content (ms ! n))"
  shows "ms' ! n = ms ! n"
proof -
  have "msg_role (ms' ! n) = msg_role (ms ! n)" "list_all2 same_block (msg_content (ms ! n)) (msg_content (ms' ! n))"
    using assms(1,2) unfolding same_shape_def by (simp_all add: list_all2_conv_all_nth)
  with same_blocks_plain assms(3) show ?thesis by auto
qed

lemma same_shape_length: "same_shape ms ms' \<Longrightarrow> length ms' = length ms"
  by (simp add: same_shape_def list_all2_lengthD)

lemma same_shape_ids:
  assumes "same_shape ms ms'"
  shows "result_ids ms' = result_ids ms" and "map call_ids ms' = map call_ids ms"
    and "has_orphan_tool_calls ms' = has_orphan_tool_calls ms" and "map is_user_turn_message ms' = map is_user_turn_message ms"
proof -
  note blocks = same_shape_blocks [OF assms]
  show r: "result_ids ms' = result_ids ms"
    using same_block_map_filter [OF blocks same_block_ids(2)] by (simp add: result_ids_def)
  show "map call_ids ms' = map call_ids ms" "map is_user_turn_message ms' = map is_user_turn_message ms"
    using assms unfolding same_shape_def
    by (induction ms ms' rule: list_all2_induct) (auto dest: same_message)
  have ex: "list_ex P bs' = list_ex P bs" if "list_all2 same_block bs bs'" "\<And>b b'. same_block b b' \<Longrightarrow> P b' = P b" for P bs bs'
    using that by (induction bs bs' rule: list_all2_induct) auto
  show "has_orphan_tool_calls ms' = has_orphan_tool_calls ms"
    unfolding has_orphan_tool_calls_def r using ex [OF blocks] same_block_ids(1,3) by (auto cong: if_cong)
qed

section \<open>Properties\<close>


definition sample_history :: "message list" where
  "sample_history =
     [message_user ''go'',
      \<lparr>msg_role = RoleAssistant, msg_content = [ToolCall ''a'' ''grep'' ''{}'', ToolCall ''b'' ''grep'' ''{}'']\<rparr>,
      \<lparr>msg_role = RoleUser, msg_content = [ToolResult ''a'' (replicate 61 CHR ''x'') False, ToolResult ''b'' ''ok'' False]\<rparr>]"

definition sample_output_config :: tool_output_config where
  "sample_output_config = \<lparr>oc_directory = ''/o'', oc_max_bytes = 256, oc_max_lines = 3, oc_retention_days = 1, oc_budget_tokens = 1,
     oc_keep_recent = 1, oc_old_argument_max = 20,
     oc_reformat = \<lparr>rf_enabled = False, rf_tools = [], rf_min_chars = 0, rf_model = None, rf_max_input_chars = 0\<rparr>\<rparr>"

definition sample_disk :: disk where
  "sample_disk = \<lparr>dk_files = [], dk_now = 7, dk_ids = show_nat, dk_faults = (\<lambda>_. NoFault), dk_next = 0\<rparr>"


end
