(* ===== verification/Exec_Filter.thy ===== *)
theory Exec_Filter
  imports Text_More "HOL-Library.Sublist"
begin

text \<open>
  Classification of shell commands and condensation of their output (src/src/ops/exec_filter.rs).
  The two line patterns and the removal of terminal escapes use the regex crate and are arguments,
  as is Unicode lower-casing.
\<close>

section \<open>Classification\<close>

datatype exec_filter = FilterTestRunner | FilterInstall | FilterBuild | FilterLinter | FilterNone

record filtered_output =
  fo_out :: string
  fo_err :: string

definition base_name :: "string \<Rightarrow> string" where
  "base_name word = last (split_str ''/'' word)"

definition classify :: "string \<Rightarrow> exec_filter" where
  "classify cmd =
     (case split_whitespace cmd of
        [] \<Rightarrow> FilterNone
      | w # ws \<Rightarrow>
          (let base = base_name w;
               second = (case ws of [] \<Rightarrow> [] | x # _ \<Rightarrow> x)
           in if base = ''pytest'' \<or> base = ''py.test'' then FilterTestRunner
              else if (base = ''python'' \<or> base = ''python3'') \<and> contains_str ''-m pytest'' cmd then FilterTestRunner
              else if base = ''cargo'' \<and> second = ''test'' then FilterTestRunner
              else if base = ''go'' \<and> second = ''test'' then FilterTestRunner
              else if (base = ''npm'' \<or> base = ''yarn'' \<or> base = ''pnpm'') \<and> second = ''test'' then FilterTestRunner
              else if base = ''npx'' \<and> (second = ''jest'' \<or> second = ''vitest'' \<or> second = ''mocha'') then FilterTestRunner
              else if base = ''jest'' \<or> base = ''vitest'' \<or> base = ''mocha'' then FilterTestRunner
              else if base = ''rspec'' then FilterTestRunner
              else if base = ''rake'' \<and> second = ''test'' then FilterTestRunner
              else if (base = ''pip'' \<or> base = ''pip3'' \<or> base = ''uv'') \<and> second = ''install'' then FilterInstall
              else if (base = ''npm'' \<or> base = ''yarn'' \<or> base = ''pnpm'')
                      \<and> (second = ''install'' \<or> second = ''add'' \<or> second = ''i'') then FilterInstall
              else if base = ''cargo'' \<and> second = ''add'' then FilterInstall
              else if (base = ''apt'' \<or> base = ''apt-get'') \<and> second = ''install'' then FilterInstall
              else if base = ''brew'' \<and> second = ''install'' then FilterInstall
              else if base = ''make'' \<or> base = ''cmake'' \<or> base = ''ninja'' then FilterBuild
              else if base = ''cargo'' \<and> second = ''build'' then FilterBuild
              else if base = ''go'' \<and> second = ''build'' then FilterBuild
              else if base = ''ruff'' \<and> second = ''check'' then FilterLinter
              else if base = ''eslint'' \<or> base = ''pylint'' \<or> base = ''mypy'' \<or> base = ''flake8'' then FilterLinter
              else if base = ''cargo'' \<and> second = ''clippy'' then FilterLinter
              else if base = ''shellcheck'' then FilterLinter
              else FilterNone))"

section \<open>Test runners\<close>

definition put_lines :: "string list \<Rightarrow> string" where
  "put_lines ls = concat (map (\<lambda>l. l @ [newline]) ls)"

definition last_lines :: "nat \<Rightarrow> string list \<Rightarrow> string list" where
  "last_lines n ls = drop (length ls - n) ls"

definition failed_header :: "int \<Rightarrow> string" where
  "failed_header exit_code = ''FAILED (exit '' @ show_int exit_code @ '')'' @ [newline]"

definition cross_mark :: string where
  "cross_mark = [CHR 0xE2, CHR 0x9C, CHR 0x95]"

definition tab :: string where
  "tab = [CHR 0x09]"

record test_scan =
  tc_summary :: "string list"
  tc_failures :: "string list"
  tc_in_block :: bool

definition scan_test_line :: "string \<Rightarrow> test_scan \<Rightarrow> test_scan" where
  "scan_test_line line s =
     (let trimmed = trim line;
          summary = s\<lparr>tc_summary := tc_summary s @ [trimmed]\<rparr>;
          failure = s\<lparr>tc_failures := tc_failures s @ [line]\<rparr>
      in if trimmed = [] then (if tc_in_block s then failure else s)
         else if starts_with ''test result:'' trimmed then summary\<lparr>tc_in_block := False\<rparr>
         else if starts_with ''failures:'' trimmed \<or> starts_with ''---- '' trimmed then failure\<lparr>tc_in_block := True\<rparr>
         else if (contains_str '' passed'' trimmed \<or> contains_str '' failed'' trimmed)
                 \<and> (contains_str '' in '' trimmed \<or> contains_str ''error'' trimmed) \<and> length trimmed < 200 then summary
         else if starts_with ''FAILED '' trimmed then failure
         else if contains_str ''short test summary'' trimmed then s\<lparr>tc_in_block := True\<rparr>
         else if starts_with ''ok '' trimmed then summary
         else if starts_with (''FAIL'' @ tab) trimmed \<or> starts_with ''--- FAIL'' trimmed then failure
         else if starts_with ''Tests:'' trimmed \<or> starts_with ''Test Suites:'' trimmed then summary
         else if contains_str cross_mark trimmed \<or> contains_str ''FAIL '' trimmed then failure
         else if tc_in_block s \<and> (starts_with '' '' line \<or> starts_with tab line \<or> starts_with ''thread'' trimmed) then failure
         else if tc_in_block s \<and> \<not> starts_with '' '' line \<and> \<not> starts_with tab line then s\<lparr>tc_in_block := False\<rparr>
         else s)"

definition filter_test_output :: "string \<Rightarrow> string \<Rightarrow> int \<Rightarrow> filtered_output" where
  "filter_test_output stdout stderr exit_code =
     (let ls = lines (stderr @ stdout);
          scan = fold scan_test_line ls \<lparr>tc_summary = [], tc_failures = [], tc_in_block = False\<rparr>;
          failures = tc_failures scan;
          out1 = put_lines (take 30 failures)
            @ (if length failures > 30 then ''... +'' @ show_nat (length failures - 30) @ '' more failure lines'' @ [newline] else []);
          out2 = (if tc_summary scan \<noteq> [] then put_lines (tc_summary scan)
                  else if exit_code = 0 then ''ok'' @ [newline]
                  else failed_header exit_code @ put_lines (filter (\<lambda>l. trim l \<noteq> []) (last_lines 10 ls)))
      in \<lparr>fo_out = trim_end (out1 @ out2), fo_err = []\<rparr>)"

section \<open>Installers\<close>

definition install_line :: "(string \<Rightarrow> string) \<Rightarrow> string \<Rightarrow> bool" where
  "install_line lower l =
     (let t = lower (trim l)
      in starts_with ''successfully installed'' t \<or> starts_with ''added '' t \<or> contains_str ''packages in'' t \<or> starts_with ''installing '' t)"

definition install_error :: "(string \<Rightarrow> string) \<Rightarrow> string \<Rightarrow> bool" where
  "install_error lower l =
     (let t = lower l
      in contains_str ''error'' t \<or> contains_str ''not found'' t \<or> contains_str ''failed'' t \<or> contains_str ''conflict'' t
         \<or> contains_str ''could not'' t \<or> contains_str ''permission denied'' t)"

definition filter_install_output :: "(string \<Rightarrow> string) \<Rightarrow> string \<Rightarrow> string \<Rightarrow> int \<Rightarrow> filtered_output" where
  "filter_install_output lower stdout stderr exit_code =
     (if exit_code = 0 then
        (let count = length (filter (install_line lower) (lines (stdout @ stderr)))
         in \<lparr>fo_out = (if count > 0 then ''ok: install complete ('' @ show_nat count @ '' operations)'' else ''ok: install complete''),
             fo_err = []\<rparr>)
      else
        (let ls = lines stderr @ lines stdout;
             errors = filter (install_error lower) ls;
             errors = (if errors = [] then last_lines 10 ls else errors)
         in \<lparr>fo_out = failed_header exit_code @ trim_end (put_lines (take 20 errors)), fo_err = []\<rparr>))"

section \<open>Builds and linters\<close>

definition warning_line :: "string \<Rightarrow> bool" where
  "warning_line l =
     (let t = trim l
      in (contains_str ''warning:'' t \<or> contains_str ''warning['' t) \<and> \<not> contains_str ''generated'' t
         \<and> \<not> contains_str ''warnings emitted'' t)"

record build_scan =
  bc_kept :: "string list"
  bc_in_block :: bool
  bc_blanks :: nat

definition scan_build_line :: "(string \<Rightarrow> bool) \<Rightarrow> (string \<Rightarrow> bool) \<Rightarrow> string \<Rightarrow> build_scan \<Rightarrow> build_scan" where
  "scan_build_line noise error_line line s =
     (let keep = s\<lparr>bc_kept := bc_kept s @ [line]\<rparr> in
      if noise line then s
      else if error_line line \<or> starts_with ''--> '' (trim_start line) then keep\<lparr>bc_in_block := True, bc_blanks := 0\<rparr>
      else if bc_in_block s then
        (if trim line = [] then
           (if bc_blanks s + 1 \<ge> 2 then s\<lparr>bc_blanks := bc_blanks s + 1, bc_in_block := False\<rparr>
            else keep\<lparr>bc_blanks := bc_blanks s + 1\<rparr>)
         else if starts_with '' '' line \<or> starts_with tab line \<or> starts_with ''|'' line then keep\<lparr>bc_blanks := 0\<rparr>
         else s\<lparr>bc_in_block := False\<rparr>)
      else s)"

definition filter_build_output ::
  "(string \<Rightarrow> bool) \<Rightarrow> (string \<Rightarrow> bool) \<Rightarrow> string \<Rightarrow> string \<Rightarrow> int \<Rightarrow> filtered_output" where
  "filter_build_output noise error_line stdout stderr exit_code =
     (let ls = lines (stderr @ stdout) in
      if exit_code = 0 then
        (let count = length (filter warning_line ls)
         in \<lparr>fo_out = (if count > 0 then ''ok ('' @ show_nat count @ '' warnings)'' else ''ok''), fo_err = []\<rparr>)
      else
        (let scan = fold (scan_build_line noise error_line) ls \<lparr>bc_kept = [], bc_in_block = False, bc_blanks = 0\<rparr>;
             kept = (if bc_kept scan = [] then last_lines 15 ls else bc_kept scan);
             out = put_lines (take 50 kept)
               @ (if length kept > 50 then ''... +'' @ show_nat (length kept - 50) @ '' more diagnostic lines'' @ [newline] else [])
         in \<lparr>fo_out = failed_header exit_code @ trim_end out, fo_err = []\<rparr>))"

definition filter_exec_output ::
  "(string \<Rightarrow> string) \<Rightarrow> (string \<Rightarrow> string) \<Rightarrow> (string \<Rightarrow> bool) \<Rightarrow> (string \<Rightarrow> bool) \<Rightarrow> string \<Rightarrow> string \<Rightarrow> string \<Rightarrow> int
    \<Rightarrow> filtered_output option" where
  "filter_exec_output strip_ansi lower noise error_line cmd stdout stderr exit_code =
     (let out = strip_ansi stdout; err = strip_ansi stderr in
      case classify cmd of
        FilterTestRunner \<Rightarrow> Some (filter_test_output out err exit_code)
      | FilterInstall \<Rightarrow> Some (filter_install_output lower out err exit_code)
      | FilterBuild \<Rightarrow> Some (filter_build_output noise error_line out err exit_code)
      | FilterLinter \<Rightarrow> Some (filter_build_output noise error_line out err exit_code)
      | FilterNone \<Rightarrow> None)"

section \<open>Properties\<close>

definition scan_build :: "(string \<Rightarrow> bool) \<Rightarrow> (string \<Rightarrow> bool) \<Rightarrow> string list \<Rightarrow> string list" where
  "scan_build noise error_line ls =
     bc_kept (fold (scan_build_line noise error_line) ls \<lparr>bc_kept = [], bc_in_block = False, bc_blanks = 0\<rparr>)"

lemma scan_build_lines:
  "subseq (scan_build noise error_line ls) ls
   \<and> subseq (filter (\<lambda>l. error_line l \<and> \<not> noise l) ls) (scan_build noise error_line ls)"
proof (induction ls rule: rev_induct)
  case (snoc l ls)
  have "scan_build noise error_line (ls @ [l]) = scan_build noise error_line ls
      \<or> scan_build noise error_line (ls @ [l]) = scan_build noise error_line ls @ [l]"
    and "error_line l \<Longrightarrow> \<not> noise l \<Longrightarrow> scan_build noise error_line (ls @ [l]) = scan_build noise error_line ls @ [l]"
    by (simp_all add: scan_build_def scan_build_line_def Let_def)
  with snoc show ?case by (auto simp: list_emb_append_mono subseq_order.trans [OF _ subseq_rev_drop_many] list_emb_append2)
qed (simp add: scan_build_def)

text \<open>Property C15. A failed build or lint run is always reported as failed and no diagnostic is skipped. The condensed output
  starts with the failure header; behind it come, up to the cap of fifty lines, lines of the output in
  their order which include every line that the error pattern matches and that is not noise; when nothing matches, the last
  fifteen lines stand in.\<close>
theorem failed_build_keeps_diagnostics:
  assumes "classify cmd \<in> {FilterBuild, FilterLinter}" and "exit_code \<noteq> 0"
    and "ls = lines (strip_ansi stderr @ strip_ansi stdout)"
  shows "\<exists>kept more_note. filter_exec_output strip_ansi lower noise error_line cmd stdout stderr exit_code =
      Some \<lparr>fo_out = failed_header exit_code @ trim_end (put_lines (take 50 kept) @ more_note), fo_err = []\<rparr>
    \<and> subseq kept ls \<and> subseq (filter (\<lambda>l. error_line l \<and> \<not> noise l) ls) kept
    \<and> (kept = [] \<longrightarrow> ls = []) \<and> (more_note \<noteq> [] \<longleftrightarrow> length kept > 50)"
proof -
  define kept where "kept = (if scan_build noise error_line ls = [] then last_lines 15 ls else scan_build noise error_line ls)"
  define more_note where "more_note = (if length kept > 50
    then ''... +'' @ show_nat (length kept - 50) @ '' more diagnostic lines'' @ [newline] else [])"
  note sub = scan_build_lines [of noise error_line ls]
  have "filter_exec_output strip_ansi lower noise error_line cmd stdout stderr exit_code =
      Some \<lparr>fo_out = failed_header exit_code @ trim_end (put_lines (take 50 kept) @ more_note), fo_err = []\<rparr>"
    using assms by (auto simp: filter_exec_output_def filter_build_output_def Let_def kept_def scan_build_def more_note_def)
  moreover have "subseq kept ls" using sub by (auto simp: kept_def last_lines_def suffix_imp_subseq [OF suffix_drop])
  moreover have "subseq (filter (\<lambda>l. error_line l \<and> \<not> noise l) ls) kept" using sub by (auto simp: kept_def simp del: list_emb_Nil2 dest!: list_emb_Nil2)
  moreover have "kept = [] \<longrightarrow> ls = []" by (cases ls) (auto simp: kept_def last_lines_def split: if_splits)
  moreover have "more_note \<noteq> [] \<longleftrightarrow> length kept > 50" by (simp add: more_note_def)
  ultimately show ?thesis by blast
qed

theorem failed_build_keeps_diagnostics_witness:
  "classify ''make all'' = FilterBuild \<and>
   (\<exists>kept more_note. filter_exec_output id id (\<lambda>_. False) (starts_with ''error'') ''make all'' ''error: x'' [] 2 =
      Some \<lparr>fo_out = failed_header 2 @ trim_end (put_lines (take 50 kept) @ more_note), fo_err = []\<rparr>
    \<and> subseq [''error: x''] kept)"
proof -
  have c: "classify ''make all'' = FilterBuild" by code_simp
  have "filter (\<lambda>l. starts_with ''error'' l \<and> \<not> False) (lines ''error: x'') = [''error: x'']" by code_simp
  with failed_build_keeps_diagnostics [of "''make all''" 2 _ id "[]" "''error: x''" id "\<lambda>_. False" "starts_with ''error''"] c
  show ?thesis by fastforce
qed

text \<open>Observation. A test run can fail and be shown as passed: when the runner printed a success summary before something else
  failed, such as the compilation of the next test binary, the summary replaces the failure header.\<close>
theorem failed_tests_can_look_passed:
  "filter_exec_output id id (\<lambda>_. False) (\<lambda>_. False) ''cargo test''
     (''test result: ok. 1 passed'' @ [newline]) (''error: could not compile'' @ [newline]) 101 =
   Some \<lparr>fo_out = ''test result: ok. 1 passed'', fo_err = []\<rparr>"
  by code_simp

end
