(* ===== verification/Evidence.thy ===== *)
theory Evidence
  imports Exec_Filter Json_Value
begin

text \<open>
  The ledger of observed evidence of a turn (src/src/evidence.rs): which calls changed the work tree
  and which verifiers passed. The fingerprint of the work tree comes from git and reading the
  tool's JSON result belongs to serde_json; both are arguments where they are used.
\<close>

section \<open>The ledger\<close>

datatype evidence_status = EvUnknown | EvNoMutations | EvVerified | EvUnverified

record evidence_ledger =
  ev_calls :: nat
  ev_last_mutation :: "nat option"
  ev_last_passing :: "nat option"
  ev_unavailable :: bool

definition evidence_default :: evidence_ledger where
  "evidence_default = \<lparr>ev_calls = 0, ev_last_mutation = None, ev_last_passing = None, ev_unavailable = False\<rparr>"

definition record_call :: "bool \<Rightarrow> int option \<Rightarrow> evidence_ledger \<Rightarrow> evidence_ledger" where
  "record_call tree_changed verifier_exit l =
     (let n = ev_calls l + 1
      in l\<lparr>ev_calls := n,
           ev_last_mutation := (if tree_changed then Some n else ev_last_mutation l),
           ev_last_passing := (if verifier_exit = Some 0 then Some n else ev_last_passing l)\<rparr>)"

definition mark_fingerprint_unavailable :: "evidence_ledger \<Rightarrow> evidence_ledger" where
  "mark_fingerprint_unavailable l = l\<lparr>ev_unavailable := True\<rparr>"

definition evidence_status_of :: "evidence_ledger \<Rightarrow> evidence_status" where
  "evidence_status_of l =
     (case (ev_last_mutation l, ev_last_passing l) of
        (Some mutation, Some verifier) \<Rightarrow> if verifier > mutation then EvVerified else EvUnverified
      | (Some _, None) \<Rightarrow> EvUnverified
      | (None, _) \<Rightarrow> if ev_unavailable l then EvUnknown else EvNoMutations)"

section \<open>Verifiers\<close>

definition compound_command :: "string \<Rightarrow> bool" where
  "compound_command command \<longleftrightarrow>
     list_ex (\<lambda>c. c = CHR '';'' \<or> c = newline \<or> c = carriage_return \<or> c = CHR ''|'' \<or> c = CHR ''&'' \<or> c = CHR 0x60) command
     \<or> contains_str ''$('' command"

definition verifier_exit :: "(string \<Rightarrow> jvalue option) \<Rightarrow> string \<Rightarrow> jvalue \<Rightarrow> string \<Rightarrow> int option" where
  "verifier_exit parse tool_name input content =
     (if tool_name \<noteq> ''exec'' then None
      else (case Option.bind (json_get ''command'' input) json_as_str of
         None \<Rightarrow> None
       | Some command \<Rightarrow>
           if compound_command command then None
           else if classify command \<in> {FilterInstall, FilterNone} then None
           else Option.bind (Option.bind (parse content) (json_get ''exit'')) json_as_i64))"

section \<open>What the status says\<close>

datatype evidence_event = EvCall bool "int option" | EvFingerprintLost

fun observe_evidence :: "evidence_event \<Rightarrow> evidence_ledger \<Rightarrow> evidence_ledger" where
  "observe_evidence (EvCall changed exit) l = record_call changed exit l"
| "observe_evidence EvFingerprintLost l = mark_fingerprint_unavailable l"

fun changes_tree :: "evidence_event \<Rightarrow> bool" where
  "changes_tree (EvCall changed _) = changed"
| "changes_tree EvFingerprintLost = False"

fun passes :: "evidence_event \<Rightarrow> bool" where
  "passes (EvCall _ exit) = (exit = Some 0)"
| "passes EvFingerprintLost = False"

abbreviation ledger_of :: "evidence_event list \<Rightarrow> evidence_ledger" where
  "ledger_of evs \<equiv> fold observe_evidence evs evidence_default"

definition verified_since :: "evidence_event list \<Rightarrow> bool" where
  "verified_since evs \<longleftrightarrow>
     (\<exists>pre c post. evs = pre @ c # post \<and> changes_tree c \<and> \<not> list_ex changes_tree post \<and> list_ex passes post)"

lemma verified_since_snoc:
  "verified_since (evs @ [e]) \<longleftrightarrow>
     \<not> changes_tree e \<and> (verified_since evs \<or> passes e \<and> list_ex changes_tree evs)"
proof
  assume "verified_since (evs @ [e])"
  then obtain pre c post where s: "evs @ [e] = pre @ c # post" "changes_tree c" "\<not> list_ex changes_tree post" "list_ex passes post"
    unfolding verified_since_def by blast
  then obtain post' where p: "post = post' @ [e]" "evs = pre @ c # post'"
    by (cases post rule: rev_cases) auto
  then have "\<not> changes_tree e" using s(3) by simp
  moreover have "verified_since evs" if "list_ex passes post'" using that s p unfolding verified_since_def by auto
  ultimately show "\<not> changes_tree e \<and> (verified_since evs \<or> passes e \<and> list_ex changes_tree evs)" using s(2,4) p by auto
next
  assume e: "\<not> changes_tree e \<and> (verified_since evs \<or> passes e \<and> list_ex changes_tree evs)"
  show "verified_since (evs @ [e])"
  proof (cases "verified_since evs")
    case True
    then obtain pre c post where "evs = pre @ c # post" "changes_tree c" "\<not> list_ex changes_tree post" "list_ex passes post"
      unfolding verified_since_def by blast
    with e show ?thesis unfolding verified_since_def by (intro exI [of _ pre] exI [of _ c] exI [of _ "post @ [e]"]) simp
  next
    case False
    with e have "passes e" "\<exists>x \<in> set evs. changes_tree x" by (auto simp: list_ex_iff)
    from split_list_last_prop [OF this(2)] obtain pre c post where
      "evs = pre @ c # post" "changes_tree c" "\<forall>x \<in> set post. \<not> changes_tree x" by blast
    with e \<open>passes e\<close> show ?thesis
      unfolding verified_since_def by (intro exI [of _ pre] exI [of _ c] exI [of _ "post @ [e]"]) (simp add: list_ex_iff)
  qed
qed

lemma ledger_invariant:
  "(ev_last_mutation (ledger_of evs) = None \<longleftrightarrow> \<not> list_ex changes_tree evs)
   \<and> (\<forall>k. ev_last_mutation (ledger_of evs) = Some k \<longrightarrow> k \<le> ev_calls (ledger_of evs))
   \<and> (\<forall>v. ev_last_passing (ledger_of evs) = Some v \<longrightarrow> v \<le> ev_calls (ledger_of evs))
   \<and> ((\<exists>k v. ev_last_mutation (ledger_of evs) = Some k \<and> ev_last_passing (ledger_of evs) = Some v \<and> k < v) \<longleftrightarrow> verified_since evs)
   \<and> (ev_unavailable (ledger_of evs) \<longleftrightarrow> EvFingerprintLost \<in> set evs)"
proof (induction evs rule: rev_induct)
  case (snoc e evs)
  define l where "l = ledger_of evs"
  show ?case
  proof (cases e)
    case (EvCall changed exit)
    have l': "ledger_of (evs @ [e]) = record_call changed exit l" by (simp add: EvCall l_def)
    show ?thesis
      using snoc [folded l_def] unfolding l' verified_since_snoc unfolding EvCall record_call_def Let_def
      by (cases changed; cases "exit = Some 0"; cases "ev_last_mutation l") (auto simp: less_Suc_eq_le)
  next
    case EvFingerprintLost
    then show ?thesis using snoc by (simp add: verified_since_snoc mark_fingerprint_unavailable_def)
  qed
qed (simp add: evidence_default_def verified_since_def)

text \<open>Property C14. The evidence status means what it says. It is verified exactly when some call changed the work tree and
  after the last such call a verifier passed; unverified exactly when the tree changed and no verifier passed since; and
  without an observed change it claims the absence of changes only if the tree could be observed all along.\<close>
theorem evidence_status_exact:
  "evidence_status_of (ledger_of evs) =
     (if verified_since evs then EvVerified
      else if list_ex changes_tree evs then EvUnverified
      else if EvFingerprintLost \<in> set evs then EvUnknown
      else EvNoMutations)"
proof -
  note inv = ledger_invariant [of evs]
  show ?thesis
    using inv unfolding evidence_status_of_def
    by (cases "ev_last_mutation (ledger_of evs)"; cases "ev_last_passing (ledger_of evs)") auto
qed

end
