(* ===== verification/Agent_Loop.thy ===== *)
theory Agent_Loop
  imports Agent_Session Loop_Detector Microcompact Evidence
begin

text \<open>
  The tool loop of a turn (run_inner in src/src/agent.rs and its helpers): pruning, the provider
  call with its retries, recovery from truncation and transient errors, tool dispatch and the
  circuit breaker. The state \<open>loop_state\<close> holds the local variables of the loop; the journal is the
  list of the writes made to it. The provider, the hooks, the tools and git are the operations of
  \<open>loop_env\<close> on a world, which includes the disk of \<open>Tool_Output\<close>. Spans, token logs and
  analytics rows are left out.
\<close>

section \<open>Plans\<close>

datatype plan_priority = PlanHigh | PlanMedium | PlanLow

datatype plan_status = PlanPending | PlanInProgress | PlanCompleted

record plan_entry =
  pe_content :: string
  pe_priority :: plan_priority
  pe_status :: plan_status

fun normalize_plan :: "nat \<Rightarrow> plan_entry list \<Rightarrow> string + plan_entry list" where
  "normalize_plan i [] = Inr []"
| "normalize_plan i (e # es) =
     (if trim (pe_content e) = []
      then Inl (''invalid update_plan input: entries['' @ show_nat i @ ''].content must not be empty'')
      else (case normalize_plan (i + 1) es of
              Inl err \<Rightarrow> Inl err
            | Inr es' \<Rightarrow> Inr (e\<lparr>pe_content := trim (pe_content e)\<rparr> # es')))"

text \<open>The derived decoder of \<open>PlanInput\<close> is the argument \<open>decode\<close>.\<close>

definition parse_plan_entries :: "(json \<Rightarrow> string + plan_entry list) \<Rightarrow> json \<Rightarrow> string + plan_entry list" where
  "parse_plan_entries decode input =
     (case decode input of
        Inl err \<Rightarrow> Inl (''invalid update_plan input: '' @ err)
      | Inr es \<Rightarrow> normalize_plan 0 es)"

section \<open>Configuration and environment\<close>

record agent_config =
  ac_system :: "string option"
  ac_tools :: "(string \<times> string) list"
  ac_model :: string
  ac_thinking :: thinking_level
  ac_auto_budget :: "nat option"
  ac_auto_env :: "string option"
  ac_resume_budget :: "nat option"
  ac_resume_env :: "string option"
  ac_max_attempts :: nat
  ac_base_delay :: nat
  ac_failover :: "string list"
  ac_summary_model :: "string option"
  ac_output :: tool_output_config
  ac_detector :: "(detector_config \<times> string) option"
  ac_checkpoints :: bool

definition budget_from_env :: "string option \<Rightarrow> nat option" where
  "budget_from_env raw =
     (case raw of
        None \<Rightarrow> None
      | Some r \<Rightarrow> (case parse_u64 (trim r) of
                      Some n \<Rightarrow> if n \<le> 4294967295 then Some n else None
                    | None \<Rightarrow> None))"

definition auto_continue_budget :: "agent_config \<Rightarrow> nat" where
  "auto_continue_budget cfg =
     (case ac_auto_budget cfg of
        Some n \<Rightarrow> n
      | None \<Rightarrow> (case budget_from_env (ac_auto_env cfg) of Some n \<Rightarrow> n | None \<Rightarrow> 0))"

definition error_resume_budget :: "agent_config \<Rightarrow> nat" where
  "error_resume_budget cfg =
     (case ac_resume_budget cfg of
        Some n \<Rightarrow> n
      | None \<Rightarrow> (case budget_from_env (ac_resume_env cfg) of Some n \<Rightarrow> n | None \<Rightarrow> 2))"

type_synonym 'w world = "'w \<times> disk"

type_synonym tool_call_info = "string \<times> string \<times> json"

record remote_tool_result =
  rt_content :: string
  rt_error :: bool
  rt_transient :: bool

record 'w loop_env =
  en_parse :: "string \<Rightarrow> jvalue option"
  en_render :: "jvalue \<Rightarrow> string"
  en_hash :: "nat list \<Rightarrow> nat"
  en_call_fp :: "string \<Rightarrow> json \<Rightarrow> nat"
  en_result_fp :: "bool \<Rightarrow> string \<Rightarrow> nat"
  en_stream :: "message list \<Rightarrow> string option \<Rightarrow> string \<Rightarrow> thinking_level \<Rightarrow> 'w world \<Rightarrow> llm_response \<times> nat \<times> 'w world"
  en_sleep :: "nat \<Rightarrow> 'w world \<Rightarrow> 'w world"
  en_provider_notice :: "string \<Rightarrow> 'w world \<Rightarrow> 'w world"
  en_notice :: "'w world \<Rightarrow> (string \<times> int) option \<times> 'w world"
  en_acknowledge :: "int \<Rightarrow> 'w world \<Rightarrow> 'w world"
  en_evict :: "microcompact_stats \<Rightarrow> 'w world \<Rightarrow> 'w world"
  en_fingerprint :: "'w world \<Rightarrow> string option \<times> 'w world"
  en_before :: "tool_call_info \<Rightarrow> 'w world \<Rightarrow> string option \<times> 'w world"
  en_after :: "tool_call_info \<Rightarrow> string \<Rightarrow> bool \<Rightarrow> 'w world \<Rightarrow> bool \<times> 'w world"
  en_script :: "json \<Rightarrow> 'w world \<Rightarrow> usage \<times> (string + jvalue \<times> string list) \<times> 'w world"
  en_plan_decode :: "json \<Rightarrow> string + plan_entry list"
  en_plan :: "plan_entry list \<Rightarrow> 'w world \<Rightarrow> 'w world"
  en_facade :: "tool_call_info \<Rightarrow> 'w world \<Rightarrow> (string \<times> bool) option \<times> 'w world"
  en_exposed :: "string \<Rightarrow> bool option"
  en_local :: "string \<Rightarrow> json \<Rightarrow> 'w world \<Rightarrow> (string \<times> bool) option \<times> 'w world"
  en_remote :: "string \<Rightarrow> json \<Rightarrow> 'w world \<Rightarrow> remote_tool_result option \<times> 'w world"
  en_ask :: "(string \<Rightarrow> tool_call_info \<Rightarrow> 'w world \<Rightarrow> string \<Rightarrow> llm_response) option"
  en_forget_read :: "json \<Rightarrow> 'w world \<Rightarrow> 'w world"
  en_checkpoint :: "string \<Rightarrow> 'w world \<Rightarrow> 'w world"

record 'w loop_state =
  lp_messages :: "message list"
  lp_usage :: usage
  lp_auto_used :: nat
  lp_resumes_used :: nat
  lp_detector :: "loop_detector option"
  lp_steer :: "string option"
  lp_force_off :: bool
  lp_failover :: "string option"
  lp_evidence :: evidence_ledger
  lp_fingerprint :: "string option"
  lp_degraded :: bool
  lp_journal :: "journal_event list"
  lp_world :: "'w world"

datatype 'w loop_outcome = Continue "'w loop_state" | Return agent_result "'w loop_state"

definition journal :: "journal_event \<Rightarrow> 'w loop_state \<Rightarrow> 'w loop_state" where
  "journal ev st = st\<lparr>lp_journal := lp_journal st @ [ev]\<rparr>"

definition set_messages :: "message list \<Rightarrow> 'w loop_state \<Rightarrow> 'w loop_state" where
  "set_messages ms st = journal (Checkpoint ms) (st\<lparr>lp_messages := ms\<rparr>)"

section \<open>One generation\<close>

definition prune_history :: "'w loop_env \<Rightarrow> agent_config \<Rightarrow> 'w loop_state \<Rightarrow> 'w loop_state" where
  "prune_history env cfg st =
     (let (stats, ms, d) = microcompact_history (en_parse env) (en_render env) (ac_output cfg) (lp_messages st) (snd (lp_world st));
          pruned = \<not> (mc_results_pruned stats = 0 \<and> mc_arguments_pruned stats = 0);
          w = (fst (lp_world st), d)
      in set_messages ms
           (st\<lparr>lp_detector := (if pruned then map_option on_context_pruned (lp_detector st) else lp_detector st),
               lp_world := (if pruned then en_evict env stats w else w)\<rparr>))"

definition request_system :: "string option \<Rightarrow> string option \<Rightarrow> string option \<Rightarrow> string option" where
  "request_system system notice steer =
     (let parts = List.map_filter (\<lambda>x. x) [system, notice, steer]
      in if parts = [] then None else Some (join [newline, newline] parts))"

definition active_model :: "agent_config \<Rightarrow> 'w loop_state \<Rightarrow> string" where
  "active_model cfg st = (case lp_failover st of Some m \<Rightarrow> m | None \<Rightarrow> ac_model cfg)"

definition pause :: "'w loop_env \<Rightarrow> nat \<Rightarrow> 'w world \<Rightarrow> 'w world" where
  "pause env delay w = (if delay = 0 then w else en_sleep env delay w)"

text \<open>The retries of one generation; \<open>left\<close> counts the attempts that remain after this one.\<close>

fun attempt_generation ::
  "('w world \<Rightarrow> llm_response \<times> nat \<times> 'w world) \<Rightarrow> (nat \<Rightarrow> 'w world \<Rightarrow> 'w world) \<Rightarrow> nat \<Rightarrow> nat \<Rightarrow> nat \<Rightarrow> nat \<Rightarrow> 'w world
    \<Rightarrow> llm_response \<times> nat \<times> 'w world" where
  "attempt_generation stream wait base left retries bytes w =
     (let (resp, b, w1) = stream w; bytes1 = saturating_add bytes b
      in if \<not> lr_retryable resp \<or> left = 0 then (resp, bytes1, w1)
         else attempt_generation stream wait base (left - 1) (retries + 1) bytes1
                (wait (retry_backoff base (retries + 1)) w1))"

declare attempt_generation.simps [simp del]

definition generate :: "'w loop_env \<Rightarrow> agent_config \<Rightarrow> 'w loop_state \<Rightarrow> llm_response \<times> bool \<times> 'w loop_state" where
  "generate env cfg st =
     (let (notice, w1) = en_notice env (lp_world st);
          system = request_system (ac_system cfg) (map_option fst notice) (lp_steer st);
          thinking = (if lp_force_off st then TOff else ac_thinking cfg);
          (raw, bytes, w2) = attempt_generation (en_stream env (lp_messages st) system (active_model cfg st) thinking)
                               (pause env) (ac_base_delay cfg) (ac_max_attempts cfg) 0 0 w1;
          checked = validate_response_shape raw;
          resp = checked\<lparr>lr_usage := (lr_usage checked)\<lparr>us_thinking_bytes := bytes\<rparr>\<rparr>;
          w3 = (case notice of
                  Some (_, newest) \<Rightarrow> if lr_stop_reason resp \<in> {StopError, Aborted} then w2 else en_acknowledge env newest w2
                | None \<Rightarrow> w2);
          total_usage = accumulate_usage (lp_usage st) (lr_usage resp)
      in (resp, tool_use_missing_structured_call raw,
          journal (RecordUsage total_usage (lr_usage resp))
            (st\<lparr>lp_steer := None, lp_force_off := False, lp_usage := total_usage, lp_world := w3\<rparr>)))"

definition push_assistant :: "llm_response \<Rightarrow> 'w loop_state \<Rightarrow> 'w loop_state" where
  "push_assistant resp st = set_messages (lp_messages st @ [\<lparr>msg_role = RoleAssistant, msg_content = lr_content resp\<rparr>]) st"

section \<open>Recovery\<close>

definition auto_continue_nudge :: string where
  "auto_continue_nudge =
     ''Continue exactly where the previous message was cut off. Do not repeat earlier output; '' @
     ''if the remaining work is large, continue in smaller steps.''"

definition error_resume_nudge :: string where
  "error_resume_nudge =
     ''The previous response was interrupted by a transient provider error. '' @
     ''Continue exactly where you left off; do not repeat earlier output.''"

definition auto_continue :: "'w loop_state \<Rightarrow> 'w loop_state" where
  "auto_continue st =
     (let text_only = \<not> has_orphan_tool_calls (lp_messages st);
          closed = close_orphan_tool_calls (lp_messages st)
      in set_messages (closed @ (if text_only then [message_user auto_continue_nudge] else []))
           (st\<lparr>lp_auto_used := lp_auto_used st + 1, lp_force_off := True\<rparr>))"

definition em_dash :: string where "em_dash = [CHR 0xE2, CHR 0x80, CHR 0x94]"

definition error_text :: "llm_response \<Rightarrow> string" where
  "error_text resp = (case lr_error_message resp of Some m \<Rightarrow> m | None \<Rightarrow> ''unknown'')"

definition fail_over :: "'w loop_env \<Rightarrow> string \<Rightarrow> llm_response \<Rightarrow> 'w loop_state \<Rightarrow> 'w loop_state" where
  "fail_over env to resp st =
     st\<lparr>lp_failover := Some to,
        lp_world := en_provider_notice env
          (''transient provider error '' @ em_dash @ '' failing over to '' @ to @ '': '' @ error_text resp) (lp_world st)\<rparr>"

definition drop_husk :: "message list \<Rightarrow> message list" where
  "drop_husk ms =
     (if ms \<noteq> [] \<and> msg_role (last ms) = RoleAssistant \<and> msg_content (last ms) = [] then butlast ms else ms)"

definition resume_turn :: "'w loop_env \<Rightarrow> agent_config \<Rightarrow> llm_response \<Rightarrow> 'w loop_state \<Rightarrow> 'w loop_state" where
  "resume_turn env cfg resp st =
     (let used = lp_resumes_used st + 1;
          delay = retry_backoff (min (ac_base_delay cfg * 4) duration_max) used;
          w1 = en_provider_notice env
                 (''transient provider error '' @ em_dash @ '' resuming ('' @ show_nat used @ ''/'' @
                  show_nat (error_resume_budget cfg) @ ''): '' @ error_text resp) (lp_world st);
          kept = drop_husk (lp_messages st);
          text_only = \<not> has_orphan_tool_calls kept;
          closed = close_orphan_tool_calls kept
      in set_messages
           (closed @ (if text_only \<and> closed \<noteq> [] \<and> msg_role (last closed) = RoleAssistant
                      then [message_user error_resume_nudge] else []))
           (st\<lparr>lp_resumes_used := used, lp_world := pause env delay w1\<rparr>))"

definition finish_turn :: "llm_response \<Rightarrow> 'w loop_state \<Rightarrow> 'w loop_outcome" where
  "finish_turn resp st =
     Return \<lparr>ar_messages = close_orphan_tool_calls (lp_messages st), ar_usage = lp_usage st,
             ar_stop_reason = lr_stop_reason resp, ar_error_message = lr_error_message resp,
             ar_last_usage = lr_usage resp, ar_overflow = lr_context_overflow resp\<rparr> st"

section \<open>Tools\<close>

definition catalog_name :: "jvalue \<Rightarrow> string option" where
  "catalog_name entry = Option.bind (json_get ''name'' entry) json_as_str"

fun push_remote :: "(string \<times> string) list \<Rightarrow> string list \<Rightarrow> jvalue list \<Rightarrow> jvalue list" where
  "push_remote [] names entries = entries"
| "push_remote ((name, description) # tools) names entries =
     (if name \<in> set names then push_remote tools names entries
      else push_remote tools (name # names)
             (entries @ [JObject [(''name'', JString name), (''description'', JString description)]]))"

text \<open>The registry of local tools gives for each of its names whether it is exposed to the agent: \<open>en_exposed\<close>.\<close>

definition append_remote_tools_to_catalog :: "'w loop_env \<Rightarrow> string \<Rightarrow> (string \<times> string) list \<Rightarrow> string" where
  "append_remote_tools_to_catalog env content tools =
     (case en_parse env content of
        Some (JArray listed) \<Rightarrow>
          (let entries = filter (\<lambda>e. case catalog_name e of
                                       None \<Rightarrow> True
                                     | Some name \<Rightarrow> (case en_exposed env name of Some b \<Rightarrow> b | None \<Rightarrow> True)) listed
           in en_render env (JArray (push_remote (filter (\<lambda>t. starts_with ''mcp__'' (fst t)) tools)
                                       (List.map_filter catalog_name entries) entries)))
      | _ \<Rightarrow> content)"

record 'w dispatched =
  ds_content :: string
  ds_error :: bool
  ds_transient :: bool
  ds_spend :: "usage option"
  ds_world :: "'w world"

definition script_content :: "'w loop_env \<Rightarrow> string + jvalue \<times> string list \<Rightarrow> string \<times> bool" where
  "script_content env result =
     (case result of
        Inr (v, logs) \<Rightarrow>
          (en_render env (JObject ([(''result'', v)] @ (if logs = [] then [] else [(''logs'', JArray (map JString logs))]))), False)
      | Inl err \<Rightarrow> (err, True))"

definition catalog_content :: "'w loop_env \<Rightarrow> agent_config \<Rightarrow> string \<Rightarrow> string \<Rightarrow> string" where
  "catalog_content env cfg name content =
     (if name = ''list_all_tools'' then append_remote_tools_to_catalog env content (ac_tools cfg) else content)"

definition dispatch_served :: "'w loop_env \<Rightarrow> agent_config \<Rightarrow> tool_call_info \<Rightarrow> 'w world \<Rightarrow> 'w dispatched" where
  "dispatch_served env cfg info w =
     (let (i, name, input) = info; give = (\<lambda>c e t w'. \<lparr>ds_content = c, ds_error = e, ds_transient = t, ds_spend = None, ds_world = w'\<rparr>) in
      case en_facade env info w of
        (Some (content, ok), w1) \<Rightarrow> give (catalog_content env cfg name content) (\<not> ok) False w1
      | (None, w1) \<Rightarrow>
          (case en_local env name input w1 of
             (Some (content, is_error), w2) \<Rightarrow> give (catalog_content env cfg name content) is_error False w2
           | (None, w2) \<Rightarrow>
               (case en_remote env name input w2 of
                  (Some r, w3) \<Rightarrow> give (rt_content r) (rt_error r) (rt_transient r) w3
                | (None, w3) \<Rightarrow>
                    give (''tool '' @ [CHR 0x27] @ name @ [CHR 0x27] @ '' not available in agent mode'') True False w3)))"

definition dispatch_tool :: "'w loop_env \<Rightarrow> agent_config \<Rightarrow> tool_call_info \<Rightarrow> 'w world \<Rightarrow> 'w dispatched" where
  "dispatch_tool env cfg info w =
     (let (i, name, input) = info in
      if name = ''execute_script'' then
        (let (spend, result, w1) = en_script env input w; (content, is_error) = script_content env result
         in \<lparr>ds_content = content, ds_error = is_error, ds_transient = False, ds_spend = Some spend, ds_world = w1\<rparr>)
      else if name = ''update_plan'' then
        (case parse_plan_entries (en_plan_decode env) input of
           Inr entries \<Rightarrow>
             \<lparr>ds_content = en_render env (JObject [(''updated'', JNumber (show_nat (length entries)))]), ds_error = False,
              ds_transient = False, ds_spend = None, ds_world = en_plan env entries w\<rparr>
         | Inl err \<Rightarrow> \<lparr>ds_content = err, ds_error = True, ds_transient = False, ds_spend = None, ds_world = w\<rparr>)
      else dispatch_served env cfg info w)"

section \<open>A round of tool calls\<close>

definition note_baseline :: "'w loop_env \<Rightarrow> 'w loop_state \<Rightarrow> 'w loop_state" where
  "note_baseline env st =
     (if lp_fingerprint st = None \<and> \<not> lp_degraded st then
        (case en_fingerprint env (lp_world st) of
           (Some fp, w) \<Rightarrow> st\<lparr>lp_fingerprint := Some fp, lp_world := w\<rparr>
         | (None, w) \<Rightarrow> st\<lparr>lp_degraded := True, lp_evidence := mark_fingerprint_unavailable (lp_evidence st), lp_world := w\<rparr>)
      else st)"

definition note_evidence :: "'w loop_env \<Rightarrow> int option \<Rightarrow> 'w loop_state \<Rightarrow> 'w loop_state" where
  "note_evidence env verifier st =
     (if \<not> lp_degraded st then
        (case en_fingerprint env (lp_world st) of
           (Some after, w) \<Rightarrow>
             st\<lparr>lp_evidence := record_call (case lp_fingerprint st of Some b \<Rightarrow> b \<noteq> after | None \<Rightarrow> False) verifier (lp_evidence st),
                lp_fingerprint := Some after, lp_world := w\<rparr>
         | (None, w) \<Rightarrow>
             st\<lparr>lp_degraded := True,
                lp_evidence := record_call False verifier (mark_fingerprint_unavailable (lp_evidence st)), lp_world := w\<rparr>)
      else st\<lparr>lp_evidence := record_call False verifier (lp_evidence st)\<rparr>)"

definition call_verifier :: "'w loop_env \<Rightarrow> string \<Rightarrow> json \<Rightarrow> string \<Rightarrow> int option" where
  "call_verifier env name input content =
     (case en_parse env input of Some v \<Rightarrow> verifier_exit (en_parse env) name v content | None \<Rightarrow> None)"

definition reformat_model :: "agent_config \<Rightarrow> string" where
  "reformat_model cfg =
     (case rf_model (oc_reformat (ac_output cfg)) of
        Some m \<Rightarrow> m
      | None \<Rightarrow> (case ac_summary_model cfg of Some m \<Rightarrow> m | None \<Rightarrow> ac_model cfg))"

definition bound_result ::
  "'w loop_env \<Rightarrow> agent_config \<Rightarrow> tool_call_info \<Rightarrow> bool \<Rightarrow> string \<Rightarrow> 'w world \<Rightarrow> string \<times> 'w world" where
  "bound_result env cfg info is_error content w =
     (let (i, name, input) = info; out = ac_output cfg;
          (bounded, d) =
            (case en_ask env of
               Some ask \<Rightarrow>
                 if should_reformat (oc_reformat out) name is_error (length (chars content))
                 then reformat_text (en_parse env) (en_render env) (ask (reformat_model cfg) info w) out name content (snd w)
                 else bound_text (en_parse env) (en_render env) out name content (snd w)
             | None \<Rightarrow> bound_text (en_parse env) (en_render env) out name content (snd w));
          w1 = (fst w, d)
      in (bt_content bounded,
          if bt_output_path bounded \<noteq> None \<and> name = ''read_file'' then en_forget_read env input w1 else w1))"

definition observation :: "'w loop_env \<Rightarrow> string \<Rightarrow> json \<Rightarrow> bool \<Rightarrow> string \<Rightarrow> bool \<Rightarrow> call_observation" where
  "observation env name input is_error content transient =
     \<lparr>co_name = name, co_call = en_call_fp env name input, co_result = en_result_fp env is_error content,
      co_error = is_error, co_transient = transient\<rparr>"

type_synonym 'w round = "'w loop_state \<times> content_block list \<times> call_observation list \<times> bool"

definition allowed_call ::
  "'w loop_env \<Rightarrow> agent_config \<Rightarrow> usage \<Rightarrow> tool_call_info \<Rightarrow> 'w round \<Rightarrow> 'w round" where
  "allowed_call env cfg last_usage info r =
     (let (st, results, obs, terminate) = r; (i, name, input) = info;
          ds = dispatch_tool env cfg info (lp_world st);
          st1 = st\<lparr>lp_usage := (case ds_spend ds of Some u \<Rightarrow> accumulate_usage (lp_usage st) u | None \<Rightarrow> lp_usage st),
                   lp_world := ds_world ds\<rparr>;
          st2 = note_evidence env (call_verifier env name input (ds_content ds)) st1;
          (stop, w1) = en_after env info (ds_content ds) (ds_error ds) (lp_world st2);
          (content, w2) = bound_result env cfg info (ds_error ds) (ds_content ds) w1;
          results1 = results @ [ToolResult i content (ds_error ds)]
      in (journal (RecordUsage (lp_usage st2) last_usage)
            (journal (CheckpointToolResults (lp_messages st2) results1) (st2\<lparr>lp_world := w2\<rparr>)),
          results1,
          (if lp_detector st \<noteq> None then obs @ [observation env name input (ds_error ds) content (ds_transient ds)] else obs),
          terminate \<or> stop))"

definition run_call :: "'w loop_env \<Rightarrow> agent_config \<Rightarrow> usage \<Rightarrow> tool_call_info \<Rightarrow> 'w round \<Rightarrow> 'w round" where
  "run_call env cfg last_usage info r =
     (let (st, results, obs, terminate) = r in
      case en_before env info (lp_world st) of
        (Some reason, w) \<Rightarrow>
          (let results1 = results @ [ToolResult (fst info) (''blocked: '' @ reason) True]
           in (journal (CheckpointToolResults (lp_messages st) results1) (st\<lparr>lp_world := w\<rparr>), results1, obs, terminate))
      | (None, w) \<Rightarrow> allowed_call env cfg last_usage info (st\<lparr>lp_world := w\<rparr>, results, obs, terminate))"

fun call_of_block :: "content_block \<Rightarrow> tool_call_info option" where
  "call_of_block (ToolCall i name input) = Some (i, name, input)"
| "call_of_block _ = None"

definition response_calls :: "llm_response \<Rightarrow> tool_call_info list" where
  "response_calls resp = List.map_filter call_of_block (lr_content resp)"

definition tool_names_for_checkpoint :: "content_block list \<Rightarrow> string" where
  "tool_names_for_checkpoint content =
     (let names = remdups_adj (List.map_filter (\<lambda>b. map_option (\<lambda>c. fst (snd c)) (call_of_block b)) content)
      in if names = [] then ''turn'' else join '', '' names)"

definition abort_turn :: "string \<Rightarrow> llm_response \<Rightarrow> 'w loop_state \<Rightarrow> 'w loop_outcome" where
  "abort_turn msg resp st =
     Return \<lparr>ar_messages = lp_messages st, ar_usage = lp_usage st, ar_stop_reason = Aborted,
             ar_error_message = Some msg, ar_last_usage = lr_usage resp, ar_overflow = False\<rparr> st"

definition observe_tools :: "'w loop_env \<Rightarrow> llm_response \<Rightarrow> call_observation list \<Rightarrow> 'w loop_state \<Rightarrow> 'w loop_outcome" where
  "observe_tools env resp obs st =
     (case lp_detector st of
        None \<Rightarrow> Continue st
      | Some det \<Rightarrow>
          (case observe_round (en_hash env) obs det of
             (Proceed, det1) \<Rightarrow> Continue (st\<lparr>lp_detector := Some det1\<rparr>)
           | (Steer text, det1) \<Rightarrow> Continue (st\<lparr>lp_detector := Some det1, lp_steer := Some text\<rparr>)
           | (Break msg, det1) \<Rightarrow> abort_turn msg resp (st\<lparr>lp_detector := Some det1\<rparr>)))"

definition tool_round :: "'w loop_env \<Rightarrow> agent_config \<Rightarrow> llm_response \<Rightarrow> 'w loop_state \<Rightarrow> 'w loop_outcome" where
  "tool_round env cfg resp st =
     (let (st1, results, obs, terminate) =
            fold (run_call env cfg (lr_usage resp)) (response_calls resp) (note_baseline env st, [], [], False);
          st2 = (if results \<noteq> [] then set_messages (lp_messages st1 @ [\<lparr>msg_role = RoleUser, msg_content = results\<rparr>]) st1 else st1);
          st3 = (if ac_checkpoints cfg
                 then st2\<lparr>lp_world := en_checkpoint env (tool_names_for_checkpoint (lr_content resp)) (lp_world st2)\<rparr> else st2)
      in if terminate then abort_turn ''terminated by after_tool_call hook'' resp st3
         else observe_tools env resp obs st3)"

section \<open>The loop\<close>

definition handle_response :: "'w loop_env \<Rightarrow> agent_config \<Rightarrow> llm_response \<Rightarrow> 'w loop_state \<Rightarrow> 'w loop_outcome" where
  "handle_response env cfg resp st =
     (case lr_stop_reason resp of
        ToolUse \<Rightarrow> tool_round env cfg resp st
      | MaxTokens \<Rightarrow>
          if auto_continue_budget cfg > 0 \<and> lp_auto_used st < auto_continue_budget cfg then Continue (auto_continue st)
          else finish_turn resp st
      | StopError \<Rightarrow>
          if lr_retryable resp then
            (case next_failover_model (ac_failover cfg) (active_model cfg st) of
               Some to \<Rightarrow> Continue (fail_over env to resp st)
             | None \<Rightarrow>
                 if lp_resumes_used st < error_resume_budget cfg then Continue (resume_turn env cfg resp st)
                 else finish_turn resp st)
          else finish_turn resp st
      | _ \<Rightarrow> finish_turn resp st)"

definition agent_step :: "'w loop_env \<Rightarrow> agent_config \<Rightarrow> 'w loop_state \<Rightarrow> 'w loop_outcome" where
  "agent_step env cfg st =
     (let (resp, malformed, st1) = generate env cfg (prune_history env cfg st)
      in handle_response env cfg resp (if malformed then st1 else push_assistant resp st1))"

text \<open>
  The loop with \<open>n\<close> iterations allowed: its result, or the state it is still running in.
\<close>

fun run_loop :: "'w loop_env \<Rightarrow> agent_config \<Rightarrow> nat \<Rightarrow> 'w loop_state \<Rightarrow> (agent_result \<times> 'w loop_state) + 'w loop_state" where
  "run_loop env cfg 0 st = Inr st"
| "run_loop env cfg (Suc n) st =
     (case agent_step env cfg st of
        Return result st1 \<Rightarrow> Inl (result, st1)
      | Continue st1 \<Rightarrow> run_loop env cfg n st1)"

definition initial_state :: "agent_config \<Rightarrow> message list \<Rightarrow> 'w world \<Rightarrow> 'w loop_state" where
  "initial_state cfg ms w =
     \<lparr>lp_messages = ms, lp_usage = usage_default, lp_auto_used = 0, lp_resumes_used = 0,
      lp_detector = map_option (\<lambda>(c, template). detector_new c template) (ac_detector cfg),
      lp_steer = None, lp_force_off = False, lp_failover = None, lp_evidence = evidence_default,
      lp_fingerprint = None, lp_degraded = False, lp_journal = [Checkpoint ms], lp_world = w\<rparr>"

definition run_inner :: "'w loop_env \<Rightarrow> agent_config \<Rightarrow> nat \<Rightarrow> message list \<Rightarrow> 'w world
    \<Rightarrow> (agent_result \<times> 'w loop_state) + 'w loop_state" where
  "run_inner env cfg n ms w = run_loop env cfg n (initial_state cfg ms w)"

section \<open>Frame\<close>

lemma journal_fields [simp]:
  "lp_messages (journal ev st) = lp_messages st" "lp_usage (journal ev st) = lp_usage st"
  "lp_auto_used (journal ev st) = lp_auto_used st" "lp_resumes_used (journal ev st) = lp_resumes_used st"
  "lp_detector (journal ev st) = lp_detector st" "lp_failover (journal ev st) = lp_failover st"
  "lp_evidence (journal ev st) = lp_evidence st" "lp_journal (journal ev st) = lp_journal st @ [ev]"
  "lp_world (journal ev st) = lp_world st"
  by (simp_all add: journal_def)

lemma set_messages_fields [simp]:
  "lp_messages (set_messages ms st) = ms" "lp_auto_used (set_messages ms st) = lp_auto_used st"
  "lp_resumes_used (set_messages ms st) = lp_resumes_used st" "lp_failover (set_messages ms st) = lp_failover st"
  "lp_detector (set_messages ms st) = lp_detector st" "lp_evidence (set_messages ms st) = lp_evidence st"
  "lp_journal (set_messages ms st) = lp_journal st @ [Checkpoint ms]" "lp_world (set_messages ms st) = lp_world st"
  by (simp_all add: set_messages_def)

text \<open>What the parts of an iteration leave as it was: the recovery counters and the active model.\<close>

definition same_recovery :: "'w loop_state \<Rightarrow> 'w loop_state \<Rightarrow> bool" where
  "same_recovery st st' \<longleftrightarrow>
     lp_auto_used st' = lp_auto_used st \<and> lp_resumes_used st' = lp_resumes_used st \<and> lp_failover st' = lp_failover st"

lemma same_recovery_refl [simp]: "same_recovery st st"
  by (simp add: same_recovery_def)

lemma same_recovery_trans: "same_recovery a b \<Longrightarrow> same_recovery b c \<Longrightarrow> same_recovery a c"
  by (simp add: same_recovery_def)

lemma prune_history_facts:
  "same_shape (lp_messages st) (lp_messages (prune_history env cfg st))"
  "lp_journal (prune_history env cfg st) = lp_journal st @ [Checkpoint (lp_messages (prune_history env cfg st))]"
  "same_recovery st (prune_history env cfg st)"
  "lp_evidence (prune_history env cfg st) = lp_evidence st"
proof -
  obtain stats ms d where m: "microcompact_history (en_parse env) (en_render env) (ac_output cfg) (lp_messages st) (snd (lp_world st)) = (stats, ms, d)"
    by (metis prod_cases3)
  from microcompact_shape [OF m] show "same_shape (lp_messages st) (lp_messages (prune_history env cfg st))"
    by (simp add: prune_history_def m Let_def)
  show "lp_journal (prune_history env cfg st) = lp_journal st @ [Checkpoint (lp_messages (prune_history env cfg st))]"
    "same_recovery st (prune_history env cfg st)" "lp_evidence (prune_history env cfg st) = lp_evidence st"
    by (simp_all add: prune_history_def m Let_def same_recovery_def)
qed

lemma generate_facts:
  assumes "generate env cfg st = (resp, malformed, st1)"
  shows "lp_messages st1 = lp_messages st" and "lp_journal st1 = lp_journal st @ [RecordUsage (lp_usage st1) (lr_usage resp)]"
    and "same_recovery st st1" and "lp_evidence st1 = lp_evidence st"
    and "malformed \<Longrightarrow> lr_stop_reason resp = StopError \<and> \<not> lr_retryable resp"
    and "lr_stop_reason resp = ToolUse \<Longrightarrow> response_calls resp \<noteq> []"
proof -
  obtain notice w1 where n: "en_notice env (lp_world st) = (notice, w1)" by (rule prod.exhaust)
  obtain raw bytes w2 where g: "attempt_generation (en_stream env (lp_messages st)
      (request_system (ac_system cfg) (map_option fst notice) (lp_steer st)) (active_model cfg st)
      (if lp_force_off st then TOff else ac_thinking cfg)) (pause env) (ac_base_delay cfg) (ac_max_attempts cfg) 0 0 w1 = (raw, bytes, w2)"
    by (metis prod_cases3)
  note gen = assms [unfolded generate_def n, simplified, unfolded g Let_def, simplified]
  from gen show "lp_messages st1 = lp_messages st" "lp_journal st1 = lp_journal st @ [RecordUsage (lp_usage st1) (lr_usage resp)]"
    "same_recovery st st1" "lp_evidence st1 = lp_evidence st"
    by (auto simp: same_recovery_def)
  have resp: "lr_stop_reason resp = lr_stop_reason (validate_response_shape raw)"
    "lr_retryable resp = lr_retryable (validate_response_shape raw)"
    "lr_content resp = lr_content (validate_response_shape raw)"
    and bad: "malformed = tool_use_missing_structured_call raw"
    using gen by auto
  show "lr_stop_reason resp = StopError \<and> \<not> lr_retryable resp" if malformed
    using that bad by (simp add: resp validate_response_shape_def)
  show "response_calls resp \<noteq> []" if tool: "lr_stop_reason resp = ToolUse"
  proof -
    from tool have "list_ex is_tool_call (lr_content resp)"
      unfolding resp by (auto simp: validate_response_shape_def tool_use_missing_structured_call_def split: if_splits)
    then obtain b where b: "b \<in> set (lr_content resp)" "is_tool_call b" by (auto simp: list_ex_iff)
    from b(2) obtain c where "call_of_block b = Some c" by (cases b rule: call_of_block.cases) simp_all
    with b(1) have "c \<in> set (response_calls resp)" by (cases c) (auto simp: response_calls_def List.map_filter_def intro!: image_eqI [of _ _ b])
    then show ?thesis by auto
  qed
qed

lemma note_evidence_fields [simp]:
  "lp_messages (note_evidence env v st) = lp_messages st" "lp_journal (note_evidence env v st) = lp_journal st"
  "lp_usage (note_evidence env v st) = lp_usage st" "same_recovery st (note_evidence env v st)"
  by (auto simp: note_evidence_def same_recovery_def split: prod.splits option.splits)

lemma note_baseline_fields [simp]:
  "lp_messages (note_baseline env st) = lp_messages st" "lp_journal (note_baseline env st) = lp_journal st"
  "same_recovery st (note_baseline env st)"
  by (auto simp: note_baseline_def same_recovery_def split: prod.splits option.splits)

text \<open>A call is answered by one result with its identifier, whatever happens to it.\<close>

definition same_messages :: "'w loop_state \<Rightarrow> 'w loop_state \<Rightarrow> bool" where
  "same_messages st st' \<longleftrightarrow>
     lp_messages st' = lp_messages st \<and> same_recovery st st'
     \<and> (\<exists>evs. lp_journal st' = lp_journal st @ evs
          \<and> (\<forall>ev \<in> set evs. event_messages ev = None \<or> event_messages ev = Some (lp_messages st)))"

lemma same_messages_trans: "same_messages a b \<Longrightarrow> same_messages b c \<Longrightarrow> same_messages a c"
proof -
  assume a: "same_messages a b" and b: "same_messages b c"
  from a obtain evs where "lp_journal b = lp_journal a @ evs" "lp_messages b = lp_messages a" "same_recovery a b"
    "\<forall>ev \<in> set evs. event_messages ev = None \<or> event_messages ev = Some (lp_messages a)"
    unfolding same_messages_def by blast
  moreover from b obtain evs' where "lp_journal c = lp_journal b @ evs'" "lp_messages c = lp_messages b" "same_recovery b c"
    "\<forall>ev \<in> set evs'. event_messages ev = None \<or> event_messages ev = Some (lp_messages b)"
    unfolding same_messages_def by blast
  ultimately show ?thesis unfolding same_messages_def using same_recovery_trans by (auto intro!: exI [of _ "evs @ evs'"])
qed

lemma allowed_call_facts:
  assumes "allowed_call env cfg u info (st, results, obs, t) = (st', results', obs', t')"
  shows "same_messages st st' \<and> (\<exists>c e. results' = results @ [ToolResult (fst info) c e])"
proof -
  obtain i name input where info: "info = (i, name, input)" by (rule prod_cases3)
  define ds where "ds = dispatch_tool env cfg info (lp_world st)"
  define st2 where "st2 = note_evidence env (call_verifier env name input (ds_content ds))
    (st\<lparr>lp_usage := (case ds_spend ds of Some u \<Rightarrow> accumulate_usage (lp_usage st) u | None \<Rightarrow> lp_usage st), lp_world := ds_world ds\<rparr>)"
  obtain stop w1 where a: "en_after env info (ds_content ds) (ds_error ds) (lp_world st2) = (stop, w1)" by (rule prod.exhaust)
  obtain content w2 where b: "bound_result env cfg info (ds_error ds) (ds_content ds) w1 = (content, w2)" by (rule prod.exhaust)
  have st2: "lp_messages st2 = lp_messages st" "lp_journal st2 = lp_journal st" "same_recovery st st2"
    using note_evidence_fields(4) [of "st\<lparr>lp_usage := (case ds_spend ds of Some u \<Rightarrow> accumulate_usage (lp_usage st) u | None \<Rightarrow> lp_usage st), lp_world := ds_world ds\<rparr>"]
    by (simp_all add: st2_def same_recovery_def)
  note eq = assms [unfolded allowed_call_def Let_def info, simplified,
    folded ds_def [unfolded info], folded st2_def, unfolded a [unfolded info], simplified, unfolded b [unfolded info], simplified]
  have results: "results' = results @ [ToolResult i content (ds_error ds)]"
    and st': "st' = journal (RecordUsage (lp_usage st2) u) (journal (CheckpointToolResults (lp_messages st2) results') (st2\<lparr>lp_world := w2\<rparr>))"
    using eq by (auto simp: st2_def)
  have "same_messages st st'"
    unfolding same_messages_def st'
    by (intro conjI exI [of _ "[CheckpointToolResults (lp_messages st2) results', RecordUsage (lp_usage st2) u]"])
      (use st2 in \<open>simp_all add: same_recovery_def\<close>)
  with results info show ?thesis by simp
qed

lemma run_call_facts:
  assumes "run_call env cfg u info (st, results, obs, t) = (st', results', obs', t')"
  shows "same_messages st st' \<and> (\<exists>c e. results' = results @ [ToolResult (fst info) c e])"
proof -
  obtain blocked w where b: "en_before env info (lp_world st) = (blocked, w)" by (rule prod.exhaust)
  show ?thesis
  proof (cases blocked)
    case None
    with b assms have "allowed_call env cfg u info (st\<lparr>lp_world := w\<rparr>, results, obs, t) = (st', results', obs', t')"
      by (simp add: run_call_def Let_def)
    from allowed_call_facts [OF this] show ?thesis by (auto simp: same_messages_def same_recovery_def)
  next
    case (Some reason)
    with b assms have "st' = journal (CheckpointToolResults (lp_messages st) results') (st\<lparr>lp_world := w\<rparr>)"
      "results' = results @ [ToolResult (fst info) (''blocked: '' @ reason) True]"
      by (auto simp: run_call_def Let_def)
    then have "same_messages st st'" "\<exists>c. results' = results @ [ToolResult (fst info) c True]"
      by (simp_all add: same_messages_def same_recovery_def)
    then show ?thesis by blast
  qed
qed

lemma run_calls_facts:
  assumes "fold (run_call env cfg u) calls (st, results, obs, t) = (st', results', obs', t')"
  shows "same_messages st st' \<and> (\<exists>rs. results' = results @ rs \<and> map tool_result_id rs = map (Some \<circ> fst) calls)"
  using assms
proof (induction calls arbitrary: st results obs t)
  case Nil
  then show ?case by (auto simp: same_messages_def)
next
  case (Cons info calls)
  obtain st1 results1 obs1 t1 where one: "run_call env cfg u info (st, results, obs, t) = (st1, results1, obs1, t1)"
    by (rule prod_cases4)
  from run_call_facts [OF one] obtain c e where r1: "same_messages st st1" "results1 = results @ [ToolResult (fst info) c e]" by blast
  from Cons.IH [of st1 results1 obs1 t1] Cons.prems one obtain rs where
    "same_messages st1 st'" "results' = results1 @ rs" "map tool_result_id rs = map (Some \<circ> fst) calls" by auto
  with r1 same_messages_trans show ?case by (auto intro!: exI [of _ "ToolResult (fst info) c e # rs"])
qed

text \<open>The state of an outcome, and what a round of tools does to the history.\<close>

fun outcome_state :: "'w loop_outcome \<Rightarrow> 'w loop_state" where
  "outcome_state (Continue st) = st"
| "outcome_state (Return _ st) = st"

fun returned_messages :: "'w loop_outcome \<Rightarrow> message list option" where
  "returned_messages (Continue st) = None"
| "returned_messages (Return r _) = Some (ar_messages r)"

lemma observe_tools_facts:
  "lp_messages (outcome_state (observe_tools env resp obs st)) = lp_messages st"
  "lp_journal (outcome_state (observe_tools env resp obs st)) = lp_journal st"
  "same_recovery st (outcome_state (observe_tools env resp obs st))"
  "returned_messages (observe_tools env resp obs st) \<in> {None, Some (lp_messages st)}"
  by (auto simp: observe_tools_def abort_turn_def same_recovery_def split: option.splits prod.splits round_verdict.splits)

lemma tool_round_facts:
  assumes calls: "response_calls resp \<noteq> []"
  shows "\<exists>rs evs. map tool_result_id rs = map (Some \<circ> fst) (response_calls resp)
    \<and> lp_messages (outcome_state (tool_round env cfg resp st)) = lp_messages st @ [\<lparr>msg_role = RoleUser, msg_content = rs\<rparr>]
    \<and> lp_journal (outcome_state (tool_round env cfg resp st)) =
        lp_journal st @ evs @ [Checkpoint (lp_messages st @ [\<lparr>msg_role = RoleUser, msg_content = rs\<rparr>])]
    \<and> (\<forall>ev \<in> set evs. event_messages ev = None \<or> event_messages ev = Some (lp_messages st))
    \<and> same_recovery st (outcome_state (tool_round env cfg resp st))
    \<and> returned_messages (tool_round env cfg resp st) \<in> {None, Some (lp_messages (outcome_state (tool_round env cfg resp st)))}"
proof -
  obtain st1 rs obs t where f: "fold (run_call env cfg (lr_usage resp)) (response_calls resp) (note_baseline env st, [], [], False) = (st1, rs, obs, t)"
    by (rule prod_cases4)
  from run_calls_facts [OF f] have same: "same_messages (note_baseline env st) st1"
    and ids: "map tool_result_id rs = map (Some \<circ> fst) (response_calls resp)" by auto
  from ids calls have "rs \<noteq> []" by auto
  define st3 where "st3 = (let st2 = set_messages (lp_messages st1 @ [\<lparr>msg_role = RoleUser, msg_content = rs\<rparr>]) st1 in
    if ac_checkpoints cfg then st2\<lparr>lp_world := en_checkpoint env (tool_names_for_checkpoint (lr_content resp)) (lp_world st2)\<rparr> else st2)"
  from \<open>rs \<noteq> []\<close> have eq: "tool_round env cfg resp st =
      (if t then abort_turn ''terminated by after_tool_call hook'' resp st3 else observe_tools env resp obs st3)"
    by (simp add: tool_round_def f Let_def st3_def)
  have st3: "lp_messages st3 = lp_messages st1 @ [\<lparr>msg_role = RoleUser, msg_content = rs\<rparr>]"
    "lp_journal st3 = lp_journal st1 @ [Checkpoint (lp_messages st1 @ [\<lparr>msg_role = RoleUser, msg_content = rs\<rparr>])]"
    "same_recovery st1 st3"
    by (simp_all add: st3_def Let_def same_recovery_def)
  from same obtain evs where st1: "lp_messages st1 = lp_messages st" "same_recovery st st1" "lp_journal st1 = lp_journal st @ evs"
    "\<forall>ev \<in> set evs. event_messages ev = None \<or> event_messages ev = Some (lp_messages st)"
    using same_recovery_trans [OF note_baseline_fields(3)] by (auto simp: same_messages_def)
  have out: "lp_messages (outcome_state (tool_round env cfg resp st)) = lp_messages st3"
    "lp_journal (outcome_state (tool_round env cfg resp st)) = lp_journal st3"
    "same_recovery st3 (outcome_state (tool_round env cfg resp st))"
    "returned_messages (tool_round env cfg resp st) \<in> {None, Some (lp_messages st3)}"
    using observe_tools_facts [where env = env and resp = resp and obs = obs and st = st3] by (auto simp: eq abort_turn_def)
  have "same_recovery st (outcome_state (tool_round env cfg resp st))"
    using same_recovery_trans [OF same_recovery_trans [OF st1(2) st3(3)] out(3)] .
  with out st3 st1 ids show ?thesis by (intro exI [of _ rs] exI [of _ evs]) simp
qed

section \<open>Properties of the history that every part of the loop keeps\<close>

text \<open>
  What the loop relies on when it edits the history: a property that survives appending a message,
  pruning, closing calls and dropping an empty last assistant message holds of everything that is
  checkpointed and returned.
\<close>

fun event_ok :: "(message list \<Rightarrow> bool) \<Rightarrow> journal_event \<Rightarrow> bool" where
  "event_ok Q ev = (case event_messages ev of Some ms \<Rightarrow> Q ms | None \<Rightarrow> True)"

definition history_ok :: "(message list \<Rightarrow> bool) \<Rightarrow> 'w loop_state \<Rightarrow> bool" where
  "history_ok Q st \<longleftrightarrow> Q (lp_messages st) \<and> list_all (event_ok Q) (lp_journal st)"

locale history_invariant =
  fixes Q :: "message list \<Rightarrow> bool"
  assumes appended: "Q ms \<Longrightarrow> Q (ms @ ms')"
    and pruned: "Q ms \<Longrightarrow> same_shape ms ms' \<Longrightarrow> Q ms'"
    and closed: "Q ms \<Longrightarrow> Q (close_orphan_tool_calls ms)"
    and husk_dropped: "Q ms \<Longrightarrow> Q (drop_husk ms)"
begin

lemma set_messages_ok: "history_ok Q st \<Longrightarrow> Q ms \<Longrightarrow> history_ok Q (set_messages ms st')" if "lp_journal st' = lp_journal st"
  using that by (simp add: history_ok_def)

lemma prune_ok: "history_ok Q st \<Longrightarrow> history_ok Q (prune_history env cfg st)"
  using prune_history_facts(1,2) [where st = st and env = env and cfg = cfg] pruned by (auto simp: history_ok_def)

lemma generate_ok: "history_ok Q st \<Longrightarrow> generate env cfg st = (resp, malformed, st1) \<Longrightarrow> history_ok Q st1"
  using generate_facts(1,2) [of env cfg st resp malformed st1] by (simp add: history_ok_def)

lemma tool_round_ok:
  assumes ok: "history_ok Q st" and calls: "response_calls resp \<noteq> []"
  shows "history_ok Q (outcome_state (tool_round env cfg resp st)) \<and> pred_option Q (returned_messages (tool_round env cfg resp st))"
proof -
  from tool_round_facts [OF calls, of env cfg st] obtain rs evs where
    ms: "lp_messages (outcome_state (tool_round env cfg resp st)) = lp_messages st @ [\<lparr>msg_role = RoleUser, msg_content = rs\<rparr>]"
    and js: "lp_journal (outcome_state (tool_round env cfg resp st)) =
        lp_journal st @ evs @ [Checkpoint (lp_messages st @ [\<lparr>msg_role = RoleUser, msg_content = rs\<rparr>])]"
    and evs: "\<forall>ev \<in> set evs. event_messages ev = None \<or> event_messages ev = Some (lp_messages st)"
    and ret: "returned_messages (tool_round env cfg resp st) \<in> {None, Some (lp_messages (outcome_state (tool_round env cfg resp st)))}"
    by blast
  have q: "Q (lp_messages st)" "list_all (event_ok Q) (lp_journal st)" using ok by (simp_all add: history_ok_def)
  have "event_ok Q ev" if "ev \<in> set evs" for ev using evs that q(1) by (cases "event_messages ev") auto
  with q ms js appended ret show ?thesis by (auto simp: history_ok_def list_all_iff)
qed

lemma response_ok:
  assumes ok: "history_ok Q st" and calls: "lr_stop_reason resp = ToolUse \<Longrightarrow> response_calls resp \<noteq> []"
  shows "history_ok Q (outcome_state (handle_response env cfg resp st)) \<and> pred_option Q (returned_messages (handle_response env cfg resp st))"
proof -
  have q: "Q (lp_messages st)" using ok by (simp add: history_ok_def)
  have finish: "history_ok Q (outcome_state (finish_turn resp st)) \<and> pred_option Q (returned_messages (finish_turn resp st))"
    using ok closed [OF q] by (simp add: finish_turn_def)
  have continue: "history_ok Q (auto_continue st)"
    unfolding auto_continue_def Let_def by (rule set_messages_ok [OF _ ok appended [OF closed [OF q]]]) simp
  have resume: "history_ok Q (resume_turn env cfg resp st)"
    unfolding resume_turn_def Let_def by (rule set_messages_ok [OF _ ok appended [OF closed [OF husk_dropped [OF q]]]]) simp
  have over: "history_ok Q (fail_over env to resp st)" for to
    using ok by (simp add: history_ok_def fail_over_def)
  show ?thesis
    using finish continue resume over tool_round_ok [OF ok calls]
    by (auto simp: handle_response_def split: stop_reason.splits option.splits)
qed

lemma step_ok:
  assumes "history_ok Q st"
  shows "history_ok Q (outcome_state (agent_step env cfg st)) \<and> pred_option Q (returned_messages (agent_step env cfg st))"
proof -
  obtain resp malformed st1 where g: "generate env cfg (prune_history env cfg st) = (resp, malformed, st1)" by (rule prod_cases3)
  have "history_ok Q st1" using generate_ok [OF prune_ok [OF assms] g] .
  then have "history_ok Q (if malformed then st1 else push_assistant resp st1)"
    by (simp add: push_assistant_def history_ok_def appended)
  from response_ok [OF this generate_facts(6) [OF g]] show ?thesis by (simp add: agent_step_def g)
qed

lemma run_ok:
  "history_ok Q st \<Longrightarrow>
    (case run_loop env cfg n st of Inl (r, st') \<Rightarrow> Q (ar_messages r) \<and> history_ok Q st' | Inr st' \<Rightarrow> history_ok Q st')"
proof (induction n arbitrary: st)
  case (Suc n)
  from step_ok [OF Suc.prems, of env cfg] Suc.IH show ?case by (cases "agent_step env cfg st") auto
qed simp

end

section \<open>The request stays in place\<close>

definition keeps_request :: "message list \<Rightarrow> message \<Rightarrow> message list \<Rightarrow> bool" where
  "keeps_request history user ms \<longleftrightarrow>
     calls_answered history \<and> msg_role user = RoleUser \<and> \<not> list_ex is_tool_block (msg_content user)
     \<and> (\<exists>past rest. ms = past @ user # rest \<and> same_shape history past)"

lemma same_shape_append: "same_shape (xs @ ys) zs \<Longrightarrow> \<exists>us vs. zs = us @ vs \<and> same_shape xs us \<and> same_shape ys vs"
  unfolding same_shape_def by (auto simp: list_all2_append1)

lemma same_shape_user:
  assumes "same_shape (user # rest) zs" and "\<not> list_ex is_tool_block (msg_content user)"
  shows "\<exists>rest'. zs = user # rest'"
proof -
  have "zs ! 0 = user" using same_shape_plain [OF assms(1), of 0] assms(2) by simp
  moreover have "length zs = Suc (length rest)" using same_shape_length [OF assms(1)] by simp
  ultimately show ?thesis by (cases zs) auto
qed

lemma repair_prefix:
  assumes "calls_answered past"
  shows "\<exists>rest'. close_orphan_tool_calls (past @ rest) = past @ rest'"
proof -
  have idle: "orphans_of (result_ids (past @ rest)) m = []" if "m \<in> set past" for m
    using assms that by (fastforce simp: orphans_of_def filter_empty_conv)
  have "concat (map (repair_one (result_ids (past @ rest))) xs) = xs" if "set xs \<subseteq> set past" for xs
    using that idle by (induction xs) (simp_all add: repair_one_def)
  then show ?thesis by (simp add: close_orphans_concat)
qed

lemma same_shape_answered: "same_shape ms ms' \<Longrightarrow> calls_answered ms \<Longrightarrow> calls_answered ms'"
  using same_shape_ids(1,2) [of ms ms'] by simp

interpretation request: history_invariant "keeps_request history user" for history user
proof
  fix ms ms' assume "keeps_request history user ms"
  then obtain past rest where user: "calls_answered history" "msg_role user = RoleUser" "\<not> list_ex is_tool_block (msg_content user)"
    and ms: "ms = past @ user # rest" "same_shape history past"
    unfolding keeps_request_def by blast
  from ms user show "keeps_request history user (ms @ ms')" by (auto simp: keeps_request_def)
  show "keeps_request history user ms'" if same: "same_shape ms ms'"
  proof -
    from same_shape_append [of past "user # rest" ms'] same ms obtain us vs where
      "ms' = us @ vs" "same_shape past us" "same_shape (user # rest) vs" by auto
    with same_shape_user user same_shape_trans [OF ms(2)] show ?thesis unfolding keeps_request_def by blast
  qed
  show "keeps_request history user (close_orphan_tool_calls ms)"
  proof -
    have "call_ids user = []" using user(2) by simp
    then have "calls_answered (past @ [user])" using same_shape_answered [OF ms(2) user(1)] by auto
    from repair_prefix [OF this, of rest] ms user show ?thesis by (auto simp: keeps_request_def)
  qed
  show "keeps_request history user (drop_husk ms)"
  proof (cases rest rule: rev_cases)
    case Nil
    with ms user show ?thesis by (auto simp: drop_husk_def keeps_request_def)
  next
    case (snoc rest' m)
    then have "drop_husk ms = past @ user # rest' \<or> drop_husk ms = ms" by (auto simp: ms drop_husk_def butlast_append)
    with ms user show ?thesis by (auto simp: keeps_request_def)
  qed
qed

lemma initial_state_ok: "Q ms \<Longrightarrow> history_ok Q (initial_state cfg ms w)"
  by (simp add: history_ok_def initial_state_def)

fun final_state :: "(agent_result \<times> 'w loop_state) + 'w loop_state \<Rightarrow> 'w loop_state" where
  "final_state (Inl (r, st)) = st"
| "final_state (Inr st) = st"

lemma run_inner_request:
  assumes "calls_answered history" and "msg_role user = RoleUser" and "\<not> list_ex is_tool_block (msg_content user)"
  shows "history_ok (keeps_request history user) (final_state (run_inner env cfg n (history @ [user]) w))"
    and "run_inner env cfg n (history @ [user]) w = Inl (r, st) \<Longrightarrow> keeps_request history user (ar_messages r)"
proof -
  have "keeps_request history user (history @ [user])" 
    unfolding keeps_request_def using assms by (intro conjI exI [of _ history] exI [of _ "[]"]) simp_all
  then have "history_ok (keeps_request history user) (initial_state cfg (history @ [user]) w)" by (rule initial_state_ok)
  from request.run_ok [OF this, of env cfg n]
  show "history_ok (keeps_request history user) (final_state (run_inner env cfg n (history @ [user]) w))"
    "run_inner env cfg n (history @ [user]) w = Inl (r, st) \<Longrightarrow> keeps_request history user (ar_messages r)"
    unfolding run_inner_def by (auto split: sum.splits)
qed

section \<open>Requests that a provider accepts\<close>

definition request_ready :: "message list \<Rightarrow> bool" where
  "request_ready ms \<longleftrightarrow>
     ms \<noteq> [] \<and> msg_role (last ms) = RoleUser \<and> calls_answered ms \<and> assistant_calls ms \<and> successively (\<noteq>) (map msg_role ms)"

lemma ready_pruned:
  assumes "request_ready ms" and "same_shape ms ms'"
  shows "request_ready ms'"
proof -
  have roles: "map msg_role ms' = map msg_role ms"
    using assms(2) unfolding same_shape_def by (induction ms ms' rule: list_all2_induct) auto
  have calls: "map (\<lambda>m. list_ex is_tool_call (msg_content m)) ms' = map (\<lambda>m. list_ex is_tool_call (msg_content m)) ms"
  proof -
    have "list_ex is_tool_call bs' = list_ex is_tool_call bs" if "list_all2 same_block bs bs'" for bs bs'
      using that same_block_ids(3) by (induction bs bs' rule: list_all2_induct) auto
    note blocks = this
    show ?thesis
      using assms(2) unfolding same_shape_def by (induction ms ms' rule: list_all2_induct) (simp_all add: blocks)
  qed
  have ac: "assistant_calls xs \<longleftrightarrow> list_all (\<lambda>(r, c). r = RoleUser \<longrightarrow> \<not> c) (zip (map msg_role xs) (map (\<lambda>m. list_ex is_tool_call (msg_content m)) xs))" for xs
    by (induction xs) (auto simp: assistant_calls_def)
  have ne: "ms' \<noteq> []" using roles assms(1) by (auto simp: request_ready_def)
  have "msg_role (last ms') = last (map msg_role ms')" using ne by (simp add: last_map)
  also have "\<dots> = RoleUser" using assms(1) by (simp only: roles) (simp add: request_ready_def last_map)
  finally show ?thesis
    using assms same_shape_answered [OF assms(2)] ne roles calls by (simp add: request_ready_def ac)
qed

lemma ready_answered:
  assumes "request_ready ms" and "msg_role m = RoleAssistant" and "msg_role n = RoleUser" and "\<not> list_ex is_tool_call (msg_content n)"
    and "set (call_ids m) \<subseteq> set (result_ids (ms @ [m, n]))"
  shows "request_ready (ms @ [m, n])"
  using assms by (auto simp: request_ready_def assistant_calls_def successively_append_iff last_map result_ids_Cons)

lemma close_last:
  assumes "calls_answered ms"
  shows "close_orphan_tool_calls (ms @ [m]) =
    (let ids = orphans_of (result_ids (ms @ [m])) m in if ids = [] then ms @ [m] else ms @ [m, interrupted_results ids])"
proof -
  have idle: "orphans_of (result_ids (ms @ [m])) x = []" if "x \<in> set ms" for x
    using assms that by (fastforce simp: orphans_of_def filter_empty_conv)
  have "concat (map (repair_one (result_ids (ms @ [m]))) xs) = xs" if "set xs \<subseteq> set ms" for xs
    using that idle by (induction xs) (simp_all add: repair_one_def)
  then show ?thesis by (simp add: close_orphans_concat repair_one_def Let_def)
qed

lemma interrupted_plain [simp]:
  "msg_role (interrupted_results ids) = RoleUser" "\<not> list_ex is_tool_call (msg_content (interrupted_results ids))"
  by (auto simp: interrupted_results_def list_ex_iff)

lemma message_user_plain [simp]:
  "msg_role (message_user t) = RoleUser" "\<not> list_ex is_tool_call (msg_content (message_user t))"
  by (simp_all add: message_user_def)

lemma ready_recovered:
  assumes ready: "request_ready ms" and m: "msg_role m = RoleAssistant"
  shows "request_ready (close_orphan_tool_calls (ms @ [m]) @ (if has_orphan_tool_calls (ms @ [m]) then [] else [message_user t]))"
    and "\<not> has_orphan_tool_calls (ms @ [m]) \<Longrightarrow> close_orphan_tool_calls (ms @ [m]) = ms @ [m]"
proof -
  have ms: "calls_answered ms" "assistant_calls (ms @ [m])"
    using ready m by (auto simp: request_ready_def assistant_calls_def)
  define ids where "ids = orphans_of (result_ids (ms @ [m])) m"
  have orphan: "has_orphan_tool_calls (ms @ [m]) \<longleftrightarrow> ids \<noteq> []"
    unfolding has_orphan_iff [OF ms(2)] ids_def using ms(1) by (auto simp: orphans_of_def filter_empty_conv)
  have close: "close_orphan_tool_calls (ms @ [m]) = (if ids = [] then ms @ [m] else ms @ [m, interrupted_results ids])"
    using close_last [OF ms(1)] by (simp add: Let_def ids_def)
  then show "\<not> has_orphan_tool_calls (ms @ [m]) \<Longrightarrow> close_orphan_tool_calls (ms @ [m]) = ms @ [m]" by (simp add: orphan)
  have "set (call_ids m) \<subseteq> set (result_ids (ms @ [m, interrupted_results ids]))"
    by (auto simp: result_ids_Cons ids_def orphans_of_def)
  moreover have "set (call_ids m) \<subseteq> set (result_ids (ms @ [m, message_user t]))" if "ids = []"
    using that by (auto simp: result_ids_Cons ids_def orphans_of_def filter_empty_conv)
  ultimately show "request_ready (close_orphan_tool_calls (ms @ [m]) @ (if has_orphan_tool_calls (ms @ [m]) then [] else [message_user t]))"
    using ready_answered [OF ready m] by (simp add: orphan close)
qed

lemma response_call_ids:
  "call_ids \<lparr>msg_role = RoleAssistant, msg_content = lr_content resp\<rparr> = map fst (response_calls resp)"
proof -
  have "tool_call_id b = map_option fst (call_of_block b)" for b by (cases b) simp_all
  then have "List.map_filter tool_call_id bs = map fst (List.map_filter call_of_block bs)" for bs
    by (induction bs) (auto simp: map_filter_simps split: option.splits)
  then show ?thesis by (simp add: call_ids_def response_calls_def)
qed

lemma ready_tools:
  assumes ready: "request_ready ms" and ids: "map tool_result_id rs = map (Some \<circ> fst) (response_calls resp)"
  shows "request_ready ((ms @ [\<lparr>msg_role = RoleAssistant, msg_content = lr_content resp\<rparr>]) @ [\<lparr>msg_role = RoleUser, msg_content = rs\<rparr>])"
proof -
  have "tool_result_id b \<noteq> None" if "b \<in> set rs" for b
    using arg_cong [OF ids, of set] that by force
  then have plain: "\<not> list_ex is_tool_call rs" by (fastforce simp: list_ex_iff elim: is_tool_call.elims)
  have "set (map fst (response_calls resp)) \<subseteq> set (List.map_filter tool_result_id rs)"
  proof
    fix i assume "i \<in> set (map fst (response_calls resp))"
    then have "Some i \<in> set (map tool_result_id rs)" unfolding ids by auto
    then obtain b where "b \<in> set rs" "tool_result_id b = Some i" by auto
    then show "i \<in> set (List.map_filter tool_result_id rs)" by (force simp: List.map_filter_def)
  qed
  then have "set (call_ids \<lparr>msg_role = RoleAssistant, msg_content = lr_content resp\<rparr>) \<subseteq>
      set (result_ids (ms @ [\<lparr>msg_role = RoleAssistant, msg_content = lr_content resp\<rparr>, \<lparr>msg_role = RoleUser, msg_content = rs\<rparr>]))"
    unfolding response_call_ids by (auto simp: result_ids_Cons)
  from ready_answered [OF ready _ _ _ this] plain show ?thesis by simp
qed

lemma drop_husk_snoc: "drop_husk (ms @ [m]) = (if msg_role m = RoleAssistant \<and> msg_content m = [] then ms else ms @ [m])"
  by (simp add: drop_husk_def)

lemma ready_idle: "request_ready ms \<Longrightarrow> close_orphan_tool_calls ms = ms \<and> \<not> has_orphan_tool_calls ms"
  by (simp add: request_ready_def repair_idle has_orphan_iff)

lemma resume_ready:
  assumes ready: "request_ready ms" and st: "lp_messages st = ms @ [m]" and m: "msg_role m = RoleAssistant"
  shows "request_ready (lp_messages (resume_turn env cfg resp st))"
proof (cases "msg_content m = []")
  case True
  then have "drop_husk (lp_messages st) = ms" using m by (simp add: st drop_husk_snoc)
  moreover have "msg_role (last ms) = RoleUser" using ready by (simp add: request_ready_def)
  ultimately show ?thesis using ready ready_idle [OF ready] by (simp add: resume_turn_def Let_def)
next
  case False
  then have husk: "drop_husk (lp_messages st) = ms @ [m]" by (simp add: st drop_husk_snoc)
  show ?thesis
  proof (cases "has_orphan_tool_calls (ms @ [m])")
    case True
    then show ?thesis using ready_recovered(1) [OF ready m, of error_resume_nudge] by (simp add: resume_turn_def Let_def husk)
  next
    case False
    from ready_recovered(2) [OF ready m this] ready_recovered(1) [OF ready m, of error_resume_nudge] False m
    show ?thesis by (simp add: resume_turn_def Let_def husk)
  qed
qed

lemmas repair_answers_set = repair_answers [simplified]

lemma step_ready:
  assumes ready: "request_ready (lp_messages st)" and over: "lp_failover st = None"
    and none: "next_failover_model (ac_failover cfg) (ac_model cfg) = None"
  shows "case agent_step env cfg st of
      Continue st' \<Rightarrow> request_ready (lp_messages st') \<and> lp_failover st' = None
    | Return r st' \<Rightarrow> calls_answered (ar_messages r)"
proof -
  obtain resp malformed st1 where g: "generate env cfg (prune_history env cfg st) = (resp, malformed, st1)" by (rule prod_cases3)
  define ms where "ms = lp_messages (prune_history env cfg st)"
  have ms: "request_ready ms" unfolding ms_def using ready_pruned [OF ready prune_history_facts(1)] .
  have over1: "lp_failover st1 = None"
    using generate_facts(3) [OF g] prune_history_facts(3) [of st env cfg] over by (simp add: same_recovery_def)
  show ?thesis
  proof (cases malformed)
    case True
    with generate_facts(5) [OF g] show ?thesis
      by (simp add: agent_step_def g handle_response_def finish_turn_def repair_answers_set)
  next
    case False
    define m where "m = \<lparr>msg_role = RoleAssistant, msg_content = lr_content resp\<rparr>"
    define st2 where "st2 = push_assistant resp st1"
    have st2: "lp_messages st2 = ms @ [m]" "lp_failover st2 = None" and m: "msg_role m = RoleAssistant"
      using generate_facts(1) [OF g] over1 by (simp_all add: st2_def push_assistant_def ms_def m_def)
    have step: "agent_step env cfg st = handle_response env cfg resp st2" using False by (simp add: agent_step_def g st2_def)
    have active: "active_model cfg st2 = ac_model cfg" by (simp add: active_model_def st2(2))
    have continue: "request_ready (lp_messages (auto_continue st2)) \<and> lp_failover (auto_continue st2) = None"
      using ready_recovered(1) [OF ms m, of auto_continue_nudge] st2 by (simp add: auto_continue_def Let_def split: if_splits)
    have resume: "request_ready (lp_messages (resume_turn env cfg resp st2)) \<and> lp_failover (resume_turn env cfg resp st2) = None"
      using resume_ready [OF ms st2(1) m] st2(2) by (simp add: resume_turn_def Let_def)
    have tools: "case tool_round env cfg resp st2 of
        Continue st' \<Rightarrow> request_ready (lp_messages st') \<and> lp_failover st' = None | Return r st' \<Rightarrow> calls_answered (ar_messages r)"
      if "lr_stop_reason resp = ToolUse"
    proof -
      from tool_round_facts [OF generate_facts(6) [OF g that], of env cfg st2] obtain rs where
        ids: "map tool_result_id rs = map (Some \<circ> fst) (response_calls resp)"
        and out: "lp_messages (outcome_state (tool_round env cfg resp st2)) = lp_messages st2 @ [\<lparr>msg_role = RoleUser, msg_content = rs\<rparr>]"
          "same_recovery st2 (outcome_state (tool_round env cfg resp st2))"
          "returned_messages (tool_round env cfg resp st2) \<in> {None, Some (lp_messages (outcome_state (tool_round env cfg resp st2)))}"
        by blast
      have ready2: "request_ready (lp_messages (outcome_state (tool_round env cfg resp st2)))"
        unfolding out(1) st2(1) m_def using ready_tools [OF ms ids] .
      show ?thesis
        using ready2 out(2,3) st2(2)
        by (cases "tool_round env cfg resp st2") (auto simp: same_recovery_def request_ready_def)
    qed
    show ?thesis
      unfolding step
      by (cases "lr_stop_reason resp") (use tools continue resume none active in
          \<open>simp_all add: handle_response_def finish_turn_def repair_answers_set\<close>)
  qed
qed

section \<open>Recovery is bounded\<close>

definition models_left :: "string list \<Rightarrow> string \<Rightarrow> nat" where
  "models_left chain m = length (tl (dropWhile (\<lambda>x. x \<noteq> m) chain))"

lemma models_left_decreases:
  assumes "distinct chain" and "next_failover_model chain m = Some to"
  shows "models_left chain to < models_left chain m"
proof -
  have "\<exists>pre post. chain = pre @ m # to # post \<and> m \<notin> set pre"
    using assms(2)
  proof (induction chain)
    case (Cons x xs)
    show ?case
    proof (cases "x = m")
      case True
      with Cons.prems obtain post where "xs = to # post" by (auto split: list.splits)
      with True show ?thesis by (intro exI [of _ "[]"] exI [of _ post]) simp
    next
      case False
      with Cons obtain pre post where "xs = pre @ m # to # post" "m \<notin> set pre" by auto
      with False show ?thesis by (intro exI [of _ "x # pre"] exI [of _ post]) auto
    qed
  qed simp
  then obtain pre post where c: "chain = pre @ m # to # post" "m \<notin> set pre" by blast
  with assms(1) have to: "to \<notin> set pre" "to \<noteq> m" by auto
  have "dropWhile (\<lambda>x. x \<noteq> m) chain = m # to # post" using c by (auto simp: dropWhile_append)
  moreover have "dropWhile (\<lambda>x. x \<noteq> to) chain = to # post" using c to by (auto simp: dropWhile_append)
  ultimately show ?thesis by (simp add: models_left_def)
qed

definition recovery_left :: "agent_config \<Rightarrow> 'w loop_state \<Rightarrow> nat" where
  "recovery_left cfg st =
     (auto_continue_budget cfg - lp_auto_used st) + (error_resume_budget cfg - lp_resumes_used st)
     + models_left (ac_failover cfg) (active_model cfg st)"

definition tool_generation :: "'w loop_env \<Rightarrow> agent_config \<Rightarrow> 'w loop_state \<Rightarrow> bool" where
  "tool_generation env cfg st \<longleftrightarrow> lr_stop_reason (fst (generate env cfg (prune_history env cfg st))) = ToolUse"

fun tool_rounds :: "'w loop_env \<Rightarrow> agent_config \<Rightarrow> nat \<Rightarrow> 'w loop_state \<Rightarrow> nat" where
  "tool_rounds env cfg 0 st = 0"
| "tool_rounds env cfg (Suc n) st =
     (if tool_generation env cfg st then 1 else 0) +
     (case agent_step env cfg st of Continue st1 \<Rightarrow> tool_rounds env cfg n st1 | Return _ _ \<Rightarrow> 0)"

lemma same_recovery_left: "same_recovery st st' \<Longrightarrow> recovery_left cfg st' = recovery_left cfg st"
  by (simp add: same_recovery_def recovery_left_def active_model_def)

lemma handle_response_recovery:
  assumes "distinct (ac_failover cfg)" and "handle_response env cfg resp st = Continue st'"
    and "lr_stop_reason resp = ToolUse \<Longrightarrow> response_calls resp \<noteq> []"
  shows "recovery_left cfg st' + (if lr_stop_reason resp = ToolUse then 0 else 1) \<le> recovery_left cfg st"
proof (cases "lr_stop_reason resp")
  case ToolUse
  from tool_round_facts [OF assms(3) [OF ToolUse], of env cfg st] assms(2) ToolUse
  have "same_recovery st st'" by (auto simp: handle_response_def)
  with ToolUse show ?thesis by (simp add: same_recovery_left)
next
  case MaxTokens
  with assms(2) show ?thesis
    by (auto simp: handle_response_def auto_continue_def Let_def recovery_left_def active_model_def finish_turn_def split: if_splits)
next
  case StopError
  show ?thesis
  proof (cases "next_failover_model (ac_failover cfg) (active_model cfg st)")
    case None
    with StopError assms(2) show ?thesis
      by (auto simp: handle_response_def resume_turn_def Let_def recovery_left_def active_model_def finish_turn_def split: if_splits)
  next
    case (Some to)
    with StopError assms(2) have "st' = fail_over env to resp st"
      by (auto simp: handle_response_def finish_turn_def split: if_splits)
    with models_left_decreases [OF assms(1) Some] StopError show ?thesis
      by (simp add: recovery_left_def fail_over_def active_model_def)
  qed
qed (use assms(2) in \<open>auto simp: handle_response_def finish_turn_def\<close>)

lemma step_recovery:
  assumes "distinct (ac_failover cfg)" and "agent_step env cfg st = Continue st'"
  shows "recovery_left cfg st' + (if tool_generation env cfg st then 0 else 1) \<le> recovery_left cfg st"
proof -
  obtain resp malformed st1 where g: "generate env cfg (prune_history env cfg st) = (resp, malformed, st1)" by (rule prod_cases3)
  define st2 where "st2 = (if malformed then st1 else push_assistant resp st1)"
  have "same_recovery st st2"
    using same_recovery_trans [OF prune_history_facts(3) generate_facts(3) [OF g]]
    by (simp add: st2_def push_assistant_def same_recovery_def)
  moreover have "handle_response env cfg resp st2 = Continue st'" using assms(2) by (simp add: agent_step_def g st2_def)
  ultimately show ?thesis
    using handle_response_recovery [OF assms(1) _ generate_facts(6) [OF g], where st = st2] same_recovery_left [of st st2 cfg]
    by (simp add: tool_generation_def g)
qed

lemma run_loop_bound:
  assumes "distinct (ac_failover cfg)" and "run_loop env cfg n st = Inr st'"
  shows "n \<le> tool_rounds env cfg n st + recovery_left cfg st"
  using assms(2)
proof (induction n arbitrary: st)
  case (Suc n)
  then obtain st1 where st1: "agent_step env cfg st = Continue st1" "run_loop env cfg n st1 = Inr st'"
    by (auto split: loop_outcome.splits)
  from Suc.IH [OF st1(2)] step_recovery [OF assms(1) st1(1)] show ?case by (auto simp: st1(1))
qed simp

section \<open>A sample environment\<close>

text \<open>An environment that answers with a list of responses and runs every tool successfully.\<close>

definition scripted_env :: "llm_response list loop_env" where
  "scripted_env =
     \<lparr>en_parse = (\<lambda>_. None), en_render = (\<lambda>_. []), en_hash = sum_list, en_call_fp = (\<lambda>name input. length name),
      en_result_fp = (\<lambda>e c. length c),
      en_stream = (\<lambda>ms system model thinking w. case w of
          ([], d) \<Rightarrow> (response_error ''no more responses'', 0, w) | (r # rs, d) \<Rightarrow> (r, 1, (rs, d))),
      en_sleep = (\<lambda>_ w. w), en_provider_notice = (\<lambda>_ w. w), en_notice = (\<lambda>w. (None, w)), en_acknowledge = (\<lambda>_ w. w),
      en_evict = (\<lambda>_ w. w), en_fingerprint = (\<lambda>w. (Some ''tree'', w)), en_before = (\<lambda>_ w. (None, w)),
      en_after = (\<lambda>_ _ _ w. (False, w)), en_script = (\<lambda>_ w. (usage_default, Inl ''disabled'', w)),
      en_plan_decode = (\<lambda>_. Inl ''not a plan''), en_plan = (\<lambda>_ w. w), en_facade = (\<lambda>_ w. (Some (''ok'', True), w)),
      en_exposed = (\<lambda>_. None), en_local = (\<lambda>_ _ w. (None, w)), en_remote = (\<lambda>_ _ w. (None, w)), en_ask = None,
      en_forget_read = (\<lambda>_ w. w), en_checkpoint = (\<lambda>_ w. w)\<rparr>"

definition sample_config :: agent_config where
  "sample_config =
     \<lparr>ac_system = None, ac_tools = [], ac_model = ''m'', ac_thinking = TOff, ac_auto_budget = Some 1, ac_auto_env = None,
      ac_resume_budget = None, ac_resume_env = Some ''1'', ac_max_attempts = 0, ac_base_delay = 0, ac_failover = [],
      ac_summary_model = None,
      ac_output = \<lparr>oc_directory = ''/out'', oc_max_bytes = 100, oc_max_lines = 10, oc_retention_days = 1, oc_budget_tokens = 1000,
        oc_keep_recent = 2, oc_old_argument_max = 100,
        oc_reformat = \<lparr>rf_enabled = False, rf_tools = [], rf_min_chars = 0, rf_model = None, rf_max_input_chars = 0\<rparr>\<rparr>,
      ac_detector = None, ac_checkpoints = False\<rparr>"

definition loop_disk :: disk where
  "loop_disk = \<lparr>dk_files = [], dk_now = 0, dk_ids = (\<lambda>_. []), dk_faults = (\<lambda>_. NoFault), dk_next = 0\<rparr>"

definition sample_responses :: "llm_response list" where
  "sample_responses =
     [retryable_error ''503'',
      \<lparr>lr_content = [Text ''done''], lr_stop_reason = EndTurn, lr_error_message = None, lr_context_overflow = False,
       lr_retryable = False, lr_usage = usage_default\<rparr>]"

lemma sample_run:
  "\<exists>r st. run_inner scripted_env sample_config 2 [message_user ''hi''] (sample_responses, loop_disk) = Inl (r, st)"
proof -
  have "(case run_inner scripted_env sample_config 2 [message_user ''hi''] (sample_responses, loop_disk) of
      Inl (r, st) \<Rightarrow> map msg_role (ar_messages r) = [RoleUser, RoleAssistant] | Inr _ \<Rightarrow> False)"
    by code_simp
  then show ?thesis by (cases "run_inner scripted_env sample_config 2 [message_user ''hi''] (sample_responses, loop_disk)") auto
qed

section \<open>Properties\<close>

text \<open>Property C11. The agent loop keeps the request it was given, wherever it is cut off. If every call of the history is
  answered and the user message holds no tool blocks, then in everything the loop has written to the journal after any
  number of iterations, and in what it returns, the messages of the history keep their places, roles, blocks
  and identifiers, the user's message follows them unchanged, and only what follows it is the turn's own.\<close>
theorem agent_loop_keeps_request:
  assumes "calls_answered history" and "msg_role user = RoleUser" and "\<not> list_ex is_tool_block (msg_content user)"
    and "run_inner env cfg n (history @ [user]) w = outcome"
  shows "(\<forall>ev ms. ev \<in> set (lp_journal (final_state outcome)) \<and> event_messages ev = Some ms
            \<longrightarrow> (\<exists>past rest. ms = past @ user # rest \<and> same_shape history past))
    \<and> (\<forall>r st. outcome = Inl (r, st) \<longrightarrow> (\<exists>past rest. ar_messages r = past @ user # rest \<and> same_shape history past))"
proof -
  note kept = run_inner_request [OF assms(1-3), of env cfg n w, unfolded assms(4)]
  from kept(1) have journalled: "list_all (event_ok (keeps_request history user)) (lp_journal (final_state outcome))"
    by (simp add: history_ok_def)
  have returned: "keeps_request history user (ar_messages r)" if "outcome = Inl (r, st)" for r st
    using kept(2) that .
  have "keeps_request history user ms" if "ev \<in> set (lp_journal (final_state outcome))" "event_messages ev = Some ms" for ev ms
    using journalled that by (fastforce simp: list_all_iff)
  with returned show ?thesis unfolding keeps_request_def by blast
qed

theorem agent_loop_keeps_request_witness:
  "\<exists>r st past rest. run_inner scripted_env sample_config 2 [message_user ''hi''] (sample_responses, loop_disk) = Inl (r, st)
     \<and> ar_messages r = past @ message_user ''hi'' # rest \<and> same_shape [] past"
proof -
  have "\<exists>r st. run_inner scripted_env sample_config 2 ([] @ [message_user ''hi'']) (sample_responses, loop_disk) = Inl (r, st)"
    using sample_run by simp
  then obtain r st where run: "run_inner scripted_env sample_config 2 ([] @ [message_user ''hi'']) (sample_responses, loop_disk) = Inl (r, st)"
    by blast
  from agent_loop_keeps_request [OF _ _ _ run] show ?thesis using run by (simp add: message_user_def is_tool_block_def)
qed

text \<open>Property C8. A turn that is cancelled while the agent loop runs leaves a usable session: whatever part of its
  journal writes has reached the session by then, finalising the turn appends to the unchanged history the user's message
  and what came of the turn, in which every tool call is answered at once.\<close>
theorem cancelled_loop_keeps_prompt:
  assumes "paired (se_messages s)" and "se_inflight s = None"
    and "msg_role user = RoleUser" and "\<not> list_ex is_tool_block (msg_content user)"
    and "run_inner env cfg n (se_messages s @ [user]) w = outcome"
    and "s1 = fold (journal_write (length (se_messages s))) (take k (lp_journal (final_state outcome)))
                (begin_turn_journal JournalAppend user s)"
    and "finalize_cancelled_turn applied s1 = (kind, s2)"
  shows "kind = Some CancelledNew \<and> se_inflight s2 = None
    \<and> (\<exists>rest. se_messages s2 = se_messages s @ user # rest \<and> answered_adjacently (user # rest))"
proof -
  have answered: "calls_answered (se_messages s)"
    using paired_repair [OF assms(1)] repair_answers [of "se_messages s"] by simp
  define evs where "evs = take k (lp_journal (final_state outcome))"
  have ok: "extends_request user (MoveWrite ev) (length (se_messages s), t)" if "ev \<in> set evs" for ev t
  proof -
    have "event_ok (keeps_request (se_messages s) user) ev"
      using run_inner_request(1) [OF answered assms(3,4), of env cfg n w] that assms(5)
      by (auto simp: history_ok_def list_all_iff evs_def dest: in_set_takeD)
    then show ?thesis
      by (auto simp: keeps_request_def nth_append dest!: same_shape_length split: option.splits)
  qed
  have "journal_inv user s (begin_turn_journal JournalAppend user s)"
    using assms(1,2) by (auto simp: journal_inv_def begin_turn_journal_def Let_def user_turns_def intro: exI [of _ 0])
  then have "journal_inv user s (fold (journal_write (length (se_messages s))) evs (begin_turn_journal JournalAppend user s))"
    using ok
  proof (induction evs rule: rev_induct)
    case (snoc ev evs)
    then show ?case using journal_inv_write by simp
  qed simp
  then obtain j xs where j: "se_inflight s1 = Some j" "jn_mode j = JournalAppend" "jn_suffix j = user # xs"
    unfolding journal_inv_def assms(6) evs_def by blast
  have "se_messages (fold (journal_write b) es t) = se_messages t" for b es t
    by (induction es arbitrary: t) (simp_all add: journal_write_def)
  then have past: "se_messages s1 = se_messages s"
    using assms(2,6) by (simp add: begin_turn_journal_def Let_def)
  obtain rest where rest: "materialize_cancelled_suffix (user # xs) (se_note s1) = user # rest"
    using materialize_head [OF assms(3)] by blast
  have "answered_adjacently (user # rest)"
    unfolding rest [symmetric]
    by (simp add: materialize_cancelled_suffix_def append_note_answered materialize_from_answered del: materialize_from.simps)
  moreover have "se_messages s2 = se_messages s @ user # rest" "kind = Some CancelledNew" "se_inflight s2 = None"
    using assms(7) j rest past by (auto simp: finalize_cancelled_turn_def Let_def)
  ultimately show ?thesis by blast
qed

theorem cancelled_loop_keeps_prompt_witness:
  "\<exists>(s2 :: agent_session) rest. se_messages s2 = [] @ message_user ''hi'' # rest \<and> answered_adjacently (message_user ''hi'' # rest)"
proof -
  define s :: agent_session where "s = \<lparr>se_messages = [], se_total_usage = usage_default, se_last_prompt = 0,
     se_inflight = None, se_compaction = None, se_system = None, se_model = ''m'', se_note = ''cancelled''\<rparr>"
  have s: "paired (se_messages s)" "se_inflight s = None" by (simp_all add: s_def paired_def)
  have user: "msg_role (message_user ''hi'') = RoleUser" "\<not> list_ex is_tool_block (msg_content (message_user ''hi''))"
    by (simp_all add: message_user_def is_tool_block_def)
  obtain kind s2 where "finalize_cancelled_turn False (fold (journal_write (length (se_messages s)))
      (take 3 (lp_journal (final_state (run_inner scripted_env sample_config 2 (se_messages s @ [message_user ''hi'']) (sample_responses, loop_disk)))))
      (begin_turn_journal JournalAppend (message_user ''hi'') s)) = (kind, s2)" by fastforce
  from cancelled_loop_keeps_prompt [OF s user refl refl this] show ?thesis by (auto simp: s_def)
qed

text \<open>Property C9. Every request of the loop is one that a provider accepts, as long as no other model can take over: if the
  first request ends with a user message, alternates between the roles and has all calls answered, then so
  has every later request of the turn, through truncations, transient errors, blocked and failing tools; and the history that the
  turn returns has all its calls answered.\<close>
theorem agent_requests_acceptable:
  assumes "request_ready ms" and "next_failover_model (ac_failover cfg) (ac_model cfg) = None"
  shows "case run_inner env cfg n ms w of
      Inr st \<Rightarrow> request_ready (lp_messages st)
    | Inl (r, st) \<Rightarrow> calls_answered (ar_messages r)"
proof -
  have "case run_loop env cfg n st of Inr st' \<Rightarrow> request_ready (lp_messages st') | Inl (r, st') \<Rightarrow> calls_answered (ar_messages r)"
    if "request_ready (lp_messages st)" "lp_failover st = None" for st
    using that
  proof (induction n arbitrary: st)
    case (Suc n)
    from step_ready [OF Suc.prems assms(2), of env] Suc.IH show ?case by (cases "agent_step env cfg st") auto
  qed simp
  from this [of "initial_state cfg ms w"] assms(1) show ?thesis by (simp add: run_inner_def initial_state_def)
qed

theorem agent_requests_acceptable_witness:
  "request_ready [message_user ''hi'']
   \<and> (case run_inner scripted_env sample_config 1 [message_user ''hi''] (sample_responses, loop_disk) of
        Inr st \<Rightarrow> request_ready (lp_messages st) | Inl (r, st) \<Rightarrow> calls_answered (ar_messages r))"
proof -
  have ready: "request_ready [message_user ''hi'']"
    by (simp add: request_ready_def assistant_calls_def message_user_def)
  have "next_failover_model (ac_failover sample_config) (ac_model sample_config) = None" by (simp add: sample_config_def)
  from agent_requests_acceptable [OF ready this] ready show ?thesis by blast
qed

text \<open>Property C10. The loop cannot spin on recovery: beyond the rounds in which the model calls tools, it makes at most as
  many generations as the budgets for continuing and resuming and the other models of the failover chain allow, and one
  more. Given so many iterations it returns, whatever the provider, the hooks and the tools do.\<close>
theorem agent_loop_terminates:
  assumes "distinct (ac_failover cfg)"
    and "tool_rounds env cfg n (initial_state cfg ms w) + auto_continue_budget cfg + error_resume_budget cfg + length (ac_failover cfg) < n"
  shows "\<exists>r st. run_inner env cfg n ms w = Inl (r, st)"
proof (rule ccontr)
  assume "\<nexists>r st. run_inner env cfg n ms w = Inl (r, st)"
  then obtain st where "run_loop env cfg n (initial_state cfg ms w) = Inr st"
    unfolding run_inner_def by (cases "run_loop env cfg n (initial_state cfg ms w)") auto
  from run_loop_bound [OF assms(1) this] have "n \<le> tool_rounds env cfg n (initial_state cfg ms w) + recovery_left cfg (initial_state cfg ms w)" .
  moreover have "models_left (ac_failover cfg) (ac_model cfg) \<le> length (ac_failover cfg)"
    using length_dropWhile_le [of "\<lambda>x. x \<noteq> ac_model cfg" "ac_failover cfg"] unfolding models_left_def by simp
  ultimately show False
    using assms(2) by (simp add: recovery_left_def initial_state_def active_model_def)
qed

theorem agent_loop_terminates_witness:
  "\<exists>r st. run_inner scripted_env sample_config 3 [message_user ''hi''] (sample_responses, loop_disk) = Inl (r, st)"
proof (rule agent_loop_terminates)
  show "distinct (ac_failover sample_config)" by (simp add: sample_config_def)
  have "tool_rounds scripted_env sample_config 3 (initial_state sample_config [message_user ''hi''] (sample_responses, loop_disk)) = 0"
    "auto_continue_budget sample_config + error_resume_budget sample_config + length (ac_failover sample_config) = 2"
    by code_simp+
  then show "tool_rounds scripted_env sample_config 3 (initial_state sample_config [message_user ''hi''] (sample_responses, loop_disk))
      + auto_continue_budget sample_config + error_resume_budget sample_config + length (ac_failover sample_config) < 3"
    by simp
qed

text \<open>Observation. When another model takes over after a transient error, the failed answer stays in the history: the
  next request then ends with the assistant message of the failed attempt, with its unanswered calls or with no content at
  all, unlike after a resumed error, where an empty answer is dropped and calls are closed.\<close>
theorem failover_leaves_husk:
  assumes "generate env cfg (prune_history env cfg st) = (resp, False, st1)" and "lr_stop_reason resp = StopError" and "lr_retryable resp"
    and "next_failover_model (ac_failover cfg) (active_model cfg st) = Some to"
  shows "\<exists>st'. agent_step env cfg st = Continue st' \<and> lp_failover st' = Some to
    \<and> lp_messages st' = lp_messages (prune_history env cfg st) @ [\<lparr>msg_role = RoleAssistant, msg_content = lr_content resp\<rparr>]"
proof -
  have "active_model cfg (push_assistant resp st1) = active_model cfg st"
    using generate_facts(3) [OF assms(1)] prune_history_facts(3) [of st env cfg]
    by (simp add: same_recovery_def active_model_def push_assistant_def)
  with assms generate_facts(1) [OF assms(1)] show ?thesis
    by (simp add: agent_step_def handle_response_def fail_over_def push_assistant_def)
qed

end
