(* ===== verification/Coord_Store.thy ===== *)
theory Coord_Store
  imports Text_More "HOL-Library.Product_Lexorder"
begin

text \<open>
  The coordination store shared by the agents of a workspace (src/src/coordination/store.rs and
  src/src/coordination/names.rs): identities, directed messages with delivery state, and advisory file reservations. The four
  tables are lists of rows in insertion order; a new row gets the rowid that SQLite assigns, one
  above the largest. Faults of SQLite are left to the callers, timestamps are RFC 3339 texts that are
  compared as text, and \<open>glob p x\<close> is the result of matching \<open>x\<close> against the compiled pattern \<open>p\<close>, or None when it does not compile.
\<close>

section \<open>Rows\<close>

datatype importance = ImpLow | ImpNormal | ImpHigh | ImpUrgent

definition importance_parse :: "string \<Rightarrow> importance" where
  "importance_parse s =
     (let t = to_ascii_lowercase (trim s) in
      if t = ''low'' then ImpLow else if t = ''high'' then ImpHigh else if t = ''urgent'' then ImpUrgent else ImpNormal)"

fun importance_str :: "importance \<Rightarrow> string" where
  "importance_str ImpLow = ''low''"
| "importance_str ImpNormal = ''normal''"
| "importance_str ImpHigh = ''high''"
| "importance_str ImpUrgent = ''urgent''"

fun importance_rank :: "importance \<Rightarrow> int" where
  "importance_rank ImpLow = 0"
| "importance_rank ImpNormal = 1"
| "importance_rank ImpHigh = 2"
| "importance_rank ImpUrgent = 3"

definition importance_rank_sql :: "string \<Rightarrow> int" where
  "importance_rank_sql col =
     (if col = ''low'' then 0 else if col = ''normal'' then 1 else if col = ''high'' then 2 else if col = ''urgent'' then 3 else 1)"

record agent_record =
  ag_name :: string
  ag_session :: "string option"
  ag_program :: "string option"
  ag_model :: "string option"
  ag_task :: "string option"
  ag_inception :: string
  ag_last_seen :: string

record message_record =
  mr_id :: int
  mr_thread :: int
  mr_reply_to :: "int option"
  mr_sender :: string
  mr_subject :: string
  mr_body :: string
  mr_importance :: string
  mr_ack_required :: bool
  mr_created :: string

record recipient_row =
  rc_message :: int
  rc_agent :: string
  rc_kind :: string
  rc_read :: "string option"
  rc_ack :: "string option"

record reservation_record =
  rv_id :: int
  rv_agent :: string
  rv_pattern :: string
  rv_exclusive :: bool
  rv_reason :: "string option"
  rv_created :: string
  rv_expires :: string
  rv_released :: "string option"

record coord_store =
  cs_agents :: "agent_record list"
  cs_messages :: "message_record list"
  cs_recipients :: "recipient_row list"
  cs_reservations :: "reservation_record list"

record send_receipt =
  sr_message :: int
  sr_thread :: int
  sr_recipients :: "string list"

record inbox_entry =
  ie_message :: message_record
  ie_kind :: string
  ie_read :: "string option"
  ie_ack :: "string option"

record inbox_filter =
  if_unread_only :: bool
  if_min_importance :: "importance option"
  if_since :: "string option"

record unread_summary =
  un_count :: nat
  un_highest :: string
  un_newest :: int

record reservation_conflict =
  cf_pattern :: string
  cf_held_by :: string
  cf_conflicting :: string
  cf_reservation :: int

section \<open>Queries\<close>

text \<open>\<open>ORDER BY f DESC\<close> on rows whose order is kept for equal keys, and \<open>LIMIT n\<close>.\<close>

definition sort_desc :: "('a \<Rightarrow> 'k :: linorder) \<Rightarrow> 'a list \<Rightarrow> 'a list" where
  "sort_desc f xs = rev (sort_key f (rev xs))"

definition limit_rows :: "int \<Rightarrow> 'a list \<Rightarrow> 'a list" where
  "limit_rows n xs = take (nat (max n 1)) xs"

definition next_rowid :: "int list \<Rightarrow> int" where
  "next_rowid ids = foldr max ids 0 + 1"

definition coalesce :: "'a option \<Rightarrow> 'a option \<Rightarrow> 'a option" where
  "coalesce x y = (case x of Some _ \<Rightarrow> x | None \<Rightarrow> y)"

section \<open>Identities\<close>

definition clear_session :: "string \<Rightarrow> string \<Rightarrow> coord_store \<Rightarrow> coord_store" where
  "clear_session sid name s =
     s\<lparr>cs_agents := map (\<lambda>a. if ag_session a = Some sid \<and> ag_name a \<noteq> name then a\<lparr>ag_session := None\<rparr> else a) (cs_agents s)\<rparr>"

definition upsert_agent ::
  "string \<Rightarrow> string option \<Rightarrow> string option \<Rightarrow> string option \<Rightarrow> string option \<Rightarrow> string \<Rightarrow> coord_store \<Rightarrow> coord_store" where
  "upsert_agent name sid program model task now s =
     (if list_ex (\<lambda>a. ag_name a = name) (cs_agents s)
      then s\<lparr>cs_agents := map (\<lambda>a. if ag_name a = name
                 then a\<lparr>ag_session := coalesce sid (ag_session a), ag_program := coalesce program (ag_program a),
                        ag_model := coalesce model (ag_model a), ag_task := coalesce task (ag_task a), ag_last_seen := now\<rparr>
                 else a) (cs_agents s)\<rparr>
      else s\<lparr>cs_agents := cs_agents s @ [\<lparr>ag_name = name, ag_session = sid, ag_program = program, ag_model = model,
                 ag_task = task, ag_inception = now, ag_last_seen = now\<rparr>]\<rparr>)"

definition agent_row :: "string \<Rightarrow> coord_store \<Rightarrow> agent_record option" where
  "agent_row name s = List.find (\<lambda>a. ag_name a = name) (cs_agents s)"

definition register_agent ::
  "string \<Rightarrow> string option \<Rightarrow> string option \<Rightarrow> string option \<Rightarrow> string option \<Rightarrow> string \<Rightarrow> coord_store
    \<Rightarrow> agent_record option \<times> coord_store" where
  "register_agent name sid program model task now s =
     (let s1 = (case sid of Some i \<Rightarrow> clear_session i name s | None \<Rightarrow> s);
          s2 = upsert_agent name sid program model task now s1
      in (agent_row name s2, s2))"

definition agent_name_for_session :: "string \<Rightarrow> coord_store \<Rightarrow> string option" where
  "agent_name_for_session sid s =
     (case sort_desc ag_last_seen (filter (\<lambda>a. ag_session a = Some sid) (cs_agents s)) of
        a # _ \<Rightarrow> Some (ag_name a)
      | [] \<Rightarrow> None)"

definition list_agents :: "int \<Rightarrow> coord_store \<Rightarrow> agent_record list" where
  "list_agents n s = limit_rows n (sort_desc ag_last_seen (sort_key ag_name (cs_agents s)))"

section \<open>Messages\<close>

fun add_recipients :: "string \<Rightarrow> string \<Rightarrow> string list \<Rightarrow> (string \<times> string) list \<Rightarrow> (string \<times> string) list" where
  "add_recipients kind sender [] acc = acc"
| "add_recipients kind sender (n # ns) acc =
     add_recipients kind sender ns (if n \<noteq> sender \<and> n \<notin> fst ` set acc then acc @ [(n, kind)] else acc)"

definition message_recipients :: "string \<Rightarrow> string list \<Rightarrow> string list \<Rightarrow> (string \<times> string) list" where
  "message_recipients sender to cc = add_recipients ''cc'' sender cc (add_recipients ''to'' sender to [])"

definition find_message :: "int \<Rightarrow> coord_store \<Rightarrow> message_record option" where
  "find_message i s = List.find (\<lambda>m. mr_id m = i) (cs_messages s)"

definition thread_id_of :: "int \<Rightarrow> coord_store \<Rightarrow> int option" where
  "thread_id_of i s = map_option mr_thread (find_message i s)"

definition send_message ::
  "string \<Rightarrow> string list \<Rightarrow> string list \<Rightarrow> string \<Rightarrow> string \<Rightarrow> importance \<Rightarrow> bool \<Rightarrow> int option \<Rightarrow> string \<Rightarrow> coord_store
    \<Rightarrow> (string + send_receipt) \<times> coord_store" where
  "send_message sender to cc subject body imp ack reply_to now s =
     (let recipients = message_recipients sender to cc in
      if recipients = [] then (Inl ''send_message requires at least one recipient (no broadcast)'', s)
      else
        (let inherited = (case reply_to of Some pid \<Rightarrow> Some (case thread_id_of pid s of Some t \<Rightarrow> t | None \<Rightarrow> pid) | None \<Rightarrow> None);
             mid = next_rowid (map mr_id (cs_messages s));
             thread = (case inherited of Some t \<Rightarrow> t | None \<Rightarrow> mid)
         in (Inr \<lparr>sr_message = mid, sr_thread = thread, sr_recipients = map fst recipients\<rparr>,
             s\<lparr>cs_messages := cs_messages s @ [\<lparr>mr_id = mid, mr_thread = thread, mr_reply_to = reply_to, mr_sender = sender,
                   mr_subject = subject, mr_body = body, mr_importance = importance_str imp, mr_ack_required = ack,
                   mr_created = now\<rparr>],
               cs_recipients := cs_recipients s @ map (\<lambda>(n, kind). \<lparr>rc_message = mid, rc_agent = n, rc_kind = kind,
                   rc_read = None, rc_ack = None\<rparr>) recipients\<rparr>)))"

definition inbox_rows :: "string \<Rightarrow> coord_store \<Rightarrow> inbox_entry list" where
  "inbox_rows agent s =
     List.map_filter (\<lambda>r. if rc_agent r = agent
        then map_option (\<lambda>m. \<lparr>ie_message = m, ie_kind = rc_kind r, ie_read = rc_read r, ie_ack = rc_ack r\<rparr>) (find_message (rc_message r) s)
        else None) (cs_recipients s)"

definition inbox_matches :: "inbox_filter \<Rightarrow> inbox_entry \<Rightarrow> bool" where
  "inbox_matches f e \<longleftrightarrow>
     (if_unread_only f \<longrightarrow> ie_read e = None)
     \<and> (case if_since f of Some t \<Rightarrow> t < mr_created (ie_message e) | None \<Rightarrow> True)
     \<and> (case if_min_importance f of
          Some m \<Rightarrow> importance_rank_sql (mr_importance (ie_message e)) \<ge> importance_rank m
        | None \<Rightarrow> True)"

definition fetch_inbox :: "string \<Rightarrow> inbox_filter \<Rightarrow> int \<Rightarrow> coord_store \<Rightarrow> inbox_entry list" where
  "fetch_inbox agent f n s =
     limit_rows n (sort_desc (\<lambda>e. (mr_created (ie_message e), mr_id (ie_message e))) (filter (inbox_matches f) (inbox_rows agent s)))"

definition rank_name :: "int \<Rightarrow> string" where
  "rank_name rank = (if rank = 3 then ''urgent'' else if rank = 2 then ''high'' else if rank = 1 then ''normal''
                     else if rank = 0 then ''low'' else ''normal'')"

definition unread_summary_of :: "string \<Rightarrow> int \<Rightarrow> coord_store \<Rightarrow> unread_summary option" where
  "unread_summary_of agent watermark s =
     (let rows = filter (\<lambda>e. ie_read e = None \<and> mr_id (ie_message e) > watermark) (inbox_rows agent s);
          newest = (case map (mr_id \<circ> ie_message) rows of [] \<Rightarrow> 0 | i # is \<Rightarrow> foldr max is i);
          rank = (case map (importance_rank_sql \<circ> mr_importance \<circ> ie_message) rows of [] \<Rightarrow> 0 | i # is \<Rightarrow> foldr max is i)
      in if length rows > 0
         then Some \<lparr>un_count = length rows, un_highest = rank_name rank, un_newest = newest\<rparr> else None)"

definition recipient_row_of :: "string \<Rightarrow> int \<Rightarrow> coord_store \<Rightarrow> recipient_row option" where
  "recipient_row_of agent i s = List.find (\<lambda>r. rc_message r = i \<and> rc_agent r = agent) (cs_recipients s)"

definition mark_read :: "string \<Rightarrow> int \<Rightarrow> string \<Rightarrow> coord_store \<Rightarrow> string option \<times> coord_store" where
  "mark_read agent i now s =
     (let s1 = s\<lparr>cs_recipients := map (\<lambda>r. if rc_message r = i \<and> rc_agent r = agent \<and> rc_read r = None
                   then r\<lparr>rc_read := Some now\<rparr> else r) (cs_recipients s)\<rparr>
      in (Option.bind (recipient_row_of agent i s1) rc_read, s1))"

definition acknowledge :: "string \<Rightarrow> int \<Rightarrow> string \<Rightarrow> coord_store \<Rightarrow> (string option \<times> string option) option \<times> coord_store" where
  "acknowledge agent i now s =
     (let s1 = s\<lparr>cs_recipients := map (\<lambda>r. if rc_message r = i \<and> rc_agent r = agent
                   then r\<lparr>rc_read := coalesce (rc_read r) (Some now), rc_ack := coalesce (rc_ack r) (Some now)\<rparr> else r) (cs_recipients s)\<rparr>
      in (map_option (\<lambda>r. (rc_read r, rc_ack r)) (recipient_row_of agent i s1), s1))"

definition thread_messages :: "int \<Rightarrow> int \<Rightarrow> coord_store \<Rightarrow> message_record list" where
  "thread_messages t cap s = limit_rows cap (sort_key (\<lambda>m. (mr_created m, mr_id m)) (filter (\<lambda>m. mr_thread m = t) (cs_messages s)))"

section \<open>Reservations\<close>

definition active_at :: "string \<Rightarrow> reservation_record \<Rightarrow> bool" where
  "active_at now r \<longleftrightarrow> rv_released r = None \<and> now < rv_expires r"

definition active_reservations_excluding :: "string \<Rightarrow> string \<Rightarrow> int \<Rightarrow> coord_store \<Rightarrow> reservation_record list \<times> bool" where
  "active_reservations_excluding agent now scan_cap s =
     (let cap = max scan_cap 1;
          out = take (nat (min (cap + 1) 9223372036854775807))
                  (sort_desc rv_id (filter (\<lambda>r. rv_agent r \<noteq> agent \<and> active_at now r) (cs_reservations s)));
          truncated = int (length out) > cap
      in (if truncated then take (nat cap) out else out, truncated))"

definition patterns_overlap :: "(string \<Rightarrow> string \<Rightarrow> bool option) \<Rightarrow> string \<Rightarrow> string \<Rightarrow> bool" where
  "patterns_overlap glob a b \<longleftrightarrow> a = b \<or> glob a b = Some True \<or> glob b a = Some True"

definition conflicts_with ::
  "(string \<Rightarrow> string \<Rightarrow> bool option) \<Rightarrow> string list \<Rightarrow> reservation_record list \<Rightarrow> reservation_conflict list" where
  "conflicts_with glob patterns existing =
     concat (map (\<lambda>pat. List.map_filter (\<lambda>other. if rv_exclusive other \<and> patterns_overlap glob pat (rv_pattern other)
         then Some \<lparr>cf_pattern = pat, cf_held_by = rv_agent other, cf_conflicting = rv_pattern other, cf_reservation = rv_id other\<rparr>
         else None) existing) patterns)"

fun insert_reservations ::
  "string \<Rightarrow> bool \<Rightarrow> string option \<Rightarrow> string \<Rightarrow> string \<Rightarrow> string list \<Rightarrow> coord_store \<Rightarrow> reservation_record list \<times> coord_store" where
  "insert_reservations agent exclusive reason created expires [] s = ([], s)"
| "insert_reservations agent exclusive reason created expires (pat # pats) s =
     (let r = \<lparr>rv_id = next_rowid (map rv_id (cs_reservations s)), rv_agent = agent, rv_pattern = pat, rv_exclusive = exclusive,
               rv_reason = reason, rv_created = created, rv_expires = expires, rv_released = None\<rparr>;
          (granted, s1) = insert_reservations agent exclusive reason created expires pats (s\<lparr>cs_reservations := cs_reservations s @ [r]\<rparr>)
      in (r # granted, s1))"

definition reserve_paths ::
  "(string \<Rightarrow> string \<Rightarrow> bool option) \<Rightarrow> string \<Rightarrow> string list \<Rightarrow> bool \<Rightarrow> string option \<Rightarrow> string \<Rightarrow> string \<Rightarrow> int \<Rightarrow> coord_store
    \<Rightarrow> (reservation_record list \<times> reservation_conflict list \<times> bool) \<times> coord_store" where
  "reserve_paths glob agent patterns exclusive reason created expires scan_cap s =
     (let (existing, truncated) = active_reservations_excluding agent created scan_cap s;
          conflicts = conflicts_with glob patterns existing;
          (granted, s1) = insert_reservations agent exclusive reason created expires patterns s
      in ((granted, conflicts, truncated), s1))"

definition check_conflicts ::
  "(string \<Rightarrow> string \<Rightarrow> bool option) \<Rightarrow> string \<Rightarrow> string list \<Rightarrow> string \<Rightarrow> int \<Rightarrow> coord_store \<Rightarrow> reservation_conflict list \<times> bool" where
  "check_conflicts glob agent patterns now scan_cap s =
     (let (existing, truncated) = active_reservations_excluding agent now scan_cap s
      in (conflicts_with glob patterns existing, truncated))"

definition list_reservations :: "string \<Rightarrow> string \<Rightarrow> int \<Rightarrow> coord_store \<Rightarrow> reservation_record list" where
  "list_reservations agent now n s =
     limit_rows n (sort_desc (\<lambda>r. (rv_created r, rv_id r)) (filter (\<lambda>r. rv_agent r = agent \<and> active_at now r) (cs_reservations s)))"

definition update_reservations ::
  "(reservation_record \<Rightarrow> bool) \<Rightarrow> (reservation_record \<Rightarrow> reservation_record) \<Rightarrow> coord_store \<Rightarrow> nat \<times> coord_store" where
  "update_reservations p f s =
     (length (filter p (cs_reservations s)), s\<lparr>cs_reservations := map (\<lambda>r. if p r then f r else r) (cs_reservations s)\<rparr>)"

definition renew_reservations :: "string \<Rightarrow> string \<Rightarrow> string \<Rightarrow> coord_store \<Rightarrow> nat \<times> coord_store" where
  "renew_reservations agent now expires = update_reservations (\<lambda>r. rv_agent r = agent \<and> active_at now r) (\<lambda>r. r\<lparr>rv_expires := expires\<rparr>)"

fun release_patterns :: "string \<Rightarrow> string list \<Rightarrow> string \<Rightarrow> coord_store \<Rightarrow> nat \<times> coord_store" where
  "release_patterns agent [] now s = (0, s)"
| "release_patterns agent (pat # pats) now s =
     (let (n, s1) = update_reservations (\<lambda>r. rv_agent r = agent \<and> rv_pattern r = pat \<and> rv_released r = None) (\<lambda>r. r\<lparr>rv_released := Some now\<rparr>) s;
          (m, s2) = release_patterns agent pats now s1
      in (n + m, s2))"

definition release_reservations :: "string \<Rightarrow> string list \<Rightarrow> string \<Rightarrow> coord_store \<Rightarrow> nat \<times> coord_store" where
  "release_reservations agent patterns now s =
     (if patterns = []
      then update_reservations (\<lambda>r. rv_agent r = agent \<and> rv_released r = None) (\<lambda>r. r\<lparr>rv_released := Some now\<rparr>) s
      else release_patterns agent patterns now s)"

definition prune_expired_reservations :: "string \<Rightarrow> coord_store \<Rightarrow> nat \<times> coord_store" where
  "prune_expired_reservations cutoff s =
     (length (filter (\<lambda>r. rv_expires r \<le> cutoff) (cs_reservations s)),
      s\<lparr>cs_reservations := filter (\<lambda>r. \<not> rv_expires r \<le> cutoff) (cs_reservations s)\<rparr>)"

section \<open>Lemmas on queries\<close>

lemma set_sort_desc [simp]: "set (sort_desc f xs) = set xs"
  by (simp add: sort_desc_def)

lemma length_sort_desc [simp]: "length (sort_desc f xs) = length xs"
  by (simp add: sort_desc_def)

lemma sort_desc_sorted: "sorted_wrt (\<lambda>a b. f b \<le> f a) (sort_desc f xs)"
  using sorted_sort_key [of f "rev xs"] by (simp add: sort_desc_def sorted_wrt_rev sorted_wrt_map)

lemma next_rowid_above: "i \<in> set ids \<Longrightarrow> i < next_rowid ids"
  by (induction ids) (auto simp: next_rowid_def)

lemma next_rowid_pos: "0 < next_rowid ids"
  by (induction ids) (auto simp: next_rowid_def)

lemma find_unique:
  assumes "distinct (map f xs)" and "x \<in> set xs"
  shows "List.find (\<lambda>y. f y = f x) xs = Some x"
  using assms by (induction xs) auto

lemma find_NoneI: "(\<And>x. x \<in> set xs \<Longrightarrow> \<not> P x) \<Longrightarrow> List.find P xs = None"
  by (induction xs) auto

lemma map_filter_set: "set (List.map_filter f xs) = {y. \<exists>x \<in> set xs. f x = Some y}"
  by (force simp: List.map_filter_def)

lemma map_filter_append [simp]: "List.map_filter f (xs @ ys) = List.map_filter f xs @ List.map_filter f ys"
  by (simp add: List.map_filter_def)

lemma map_filter_cong: "(\<And>x. x \<in> set xs \<Longrightarrow> f x = g x) \<Longrightarrow> List.map_filter f xs = List.map_filter g xs"
  by (induction xs) (auto simp: map_filter_simps split: option.splits)

lemma add_recipients_facts:
  assumes "distinct (map fst acc)" and "sender \<notin> fst ` set acc"
  shows "distinct (map fst (add_recipients kind sender ns acc)) \<and> sender \<notin> fst ` set (add_recipients kind sender ns acc)
    \<and> fst ` set (add_recipients kind sender ns acc) = fst ` set acc \<union> (set ns - {sender})"
  using assms
proof (induction ns arbitrary: acc)
  case (Cons n ns)
  define acc' where "acc' = (if n \<noteq> sender \<and> n \<notin> fst ` set acc then acc @ [(n, kind)] else acc)"
  have "distinct (map fst acc')" "sender \<notin> fst ` set acc'" "fst ` set acc' = fst ` set acc \<union> ({n} - {sender})"
    using Cons.prems by (auto simp: acc'_def)
  from Cons.IH [OF this(1,2)] this(3) show ?case by (auto simp: acc'_def [symmetric])
qed simp

lemma message_recipients_facts:
  "distinct (map fst (message_recipients sender to cc))" "sender \<notin> fst ` set (message_recipients sender to cc)"
  "fst ` set (message_recipients sender to cc) = (set to \<union> set cc) - {sender}"
proof -
  define ts where "ts = add_recipients ''to'' sender to []"
  have t: "distinct (map fst ts)" "sender \<notin> fst ` set ts" "fst ` set ts = set to - {sender}"
    using add_recipients_facts [of "[]" sender "''to''" to] by (simp_all add: ts_def)
  from add_recipients_facts [OF t(1,2), of "''cc''" cc]
  have "distinct (map fst (message_recipients sender to cc)) \<and> sender \<notin> fst ` set (message_recipients sender to cc)
      \<and> fst ` set (message_recipients sender to cc) = (set to - {sender}) \<union> (set cc - {sender})"
    unfolding message_recipients_def ts_def [symmetric] t(3) .
  then show "distinct (map fst (message_recipients sender to cc))" "sender \<notin> fst ` set (message_recipients sender to cc)"
    "fst ` set (message_recipients sender to cc) = (set to \<union> set cc) - {sender}"
    by auto
qed

section \<open>The tables\<close>

text \<open>
  The keys and references of the tables: names, session bindings and rowids are unique, every
  delivery belongs to a message and not to its sender, every message has a delivery, and what is
  acknowledged is read.
\<close>

definition agents_wf :: "agent_record list \<Rightarrow> bool" where
  "agents_wf as \<longleftrightarrow> distinct (map ag_name as)
     \<and> (\<forall>a \<in> set as. \<forall>b \<in> set as. \<forall>i. ag_session a = Some i \<and> ag_session b = Some i \<longrightarrow> ag_name a = ag_name b)"

definition mail_wf :: "message_record list \<Rightarrow> recipient_row list \<Rightarrow> bool" where
  "mail_wf ms rs \<longleftrightarrow>
     sorted_wrt (<) (map mr_id ms) \<and> (\<forall>m \<in> set ms. 0 < mr_id m)
     \<and> distinct (map (\<lambda>r. (rc_message r, rc_agent r)) rs)
     \<and> (\<forall>r \<in> set rs. \<exists>m \<in> set ms. mr_id m = rc_message r \<and> mr_sender m \<noteq> rc_agent r)
     \<and> (\<forall>m \<in> set ms. \<exists>r \<in> set rs. rc_message r = mr_id m)
     \<and> (\<forall>r \<in> set rs. rc_ack r \<noteq> None \<longrightarrow> rc_read r \<noteq> None)"

definition reservations_wf :: "reservation_record list \<Rightarrow> bool" where
  "reservations_wf rs \<longleftrightarrow> sorted_wrt (<) (map rv_id rs) \<and> (\<forall>r \<in> set rs. 0 < rv_id r)"

definition store_wf :: "coord_store \<Rightarrow> bool" where
  "store_wf s \<longleftrightarrow> agents_wf (cs_agents s) \<and> mail_wf (cs_messages s) (cs_recipients s) \<and> reservations_wf (cs_reservations s)"

datatype coord_op =
    OpRegister string "string option" "string option" "string option" "string option" string
  | OpSend string "string list" "string list" string string importance bool "int option" string
  | OpRead string int string
  | OpAcknowledge string int string
  | OpReserve string "string list" bool "string option" string string
  | OpRenew string string string
  | OpRelease string "string list" string
  | OpPrune string

fun coord_step :: "coord_op \<Rightarrow> coord_store \<Rightarrow> coord_store" where
  "coord_step (OpRegister name sid program model task now) s = snd (register_agent name sid program model task now s)"
| "coord_step (OpSend sender to cc subject body imp ack reply_to now) s = snd (send_message sender to cc subject body imp ack reply_to now s)"
| "coord_step (OpRead agent i now) s = snd (mark_read agent i now s)"
| "coord_step (OpAcknowledge agent i now) s = snd (acknowledge agent i now s)"
| "coord_step (OpReserve agent patterns exclusive reason created expires) s =
     snd (insert_reservations agent exclusive reason created expires patterns s)"
| "coord_step (OpRenew agent now expires) s = snd (renew_reservations agent now expires s)"
| "coord_step (OpRelease agent patterns now) s = snd (release_reservations agent patterns now s)"
| "coord_step (OpPrune cutoff) s = snd (prune_expired_reservations cutoff s)"

definition empty_coord :: coord_store where
  "empty_coord = \<lparr>cs_agents = [], cs_messages = [], cs_recipients = [], cs_reservations = []\<rparr>"

lemma agents_wfI:
  assumes "distinct (map ag_name as)"
    and "\<And>a b i. a \<in> set as \<Longrightarrow> b \<in> set as \<Longrightarrow> ag_session a = Some i \<Longrightarrow> ag_session b = Some i \<Longrightarrow> ag_name a = ag_name b"
  shows "agents_wf as"
  using assms unfolding agents_wf_def by blast

lemma agents_wfD:
  "agents_wf as \<Longrightarrow> a \<in> set as \<Longrightarrow> b \<in> set as \<Longrightarrow> ag_session a = Some i \<Longrightarrow> ag_session b = Some i \<Longrightarrow> ag_name a = ag_name b"
  unfolding agents_wf_def by blast

lemma clear_session_kept:
  assumes "a \<in> set (cs_agents (clear_session sid name s))"
  obtains b where "b \<in> set (cs_agents s)" "ag_name b = ag_name a" "\<And>i. ag_session a = Some i \<Longrightarrow> ag_session b = Some i"
    "ag_session a = Some sid \<Longrightarrow> ag_name a = name"
  using assms unfolding clear_session_def by (auto split: if_splits)

lemma clear_session_wf:
  assumes "agents_wf (cs_agents s)"
  shows "agents_wf (cs_agents (clear_session sid name s))"
proof (rule agents_wfI)
  have "map ag_name (cs_agents (clear_session sid name s)) = map ag_name (cs_agents s)" by (simp add: clear_session_def)
  with assms show "distinct (map ag_name (cs_agents (clear_session sid name s)))" by (simp add: agents_wf_def)
  fix a b i
  assume ab: "a \<in> set (cs_agents (clear_session sid name s))" "b \<in> set (cs_agents (clear_session sid name s))"
    "ag_session a = Some i" "ag_session b = Some i"
  obtain a' where a': "a' \<in> set (cs_agents s)" "ag_name a' = ag_name a" "ag_session a' = Some i"
    using clear_session_kept [OF ab(1)] ab(3) by metis
  obtain b' where b': "b' \<in> set (cs_agents s)" "ag_name b' = ag_name b" "ag_session b' = Some i"
    using clear_session_kept [OF ab(2)] ab(4) by metis
  from agents_wfD [OF assms a'(1) b'(1) a'(3) b'(3)] a'(2) b'(2) show "ag_name a = ag_name b" by simp
qed

lemma upsert_wf:
  assumes wf: "agents_wf (cs_agents s)"
    and free: "\<And>a i. sid = Some i \<Longrightarrow> a \<in> set (cs_agents s) \<Longrightarrow> ag_session a = Some i \<Longrightarrow> ag_name a = name"
  shows "agents_wf (cs_agents (upsert_agent name sid program model task now s))"
proof (cases "list_ex (\<lambda>a. ag_name a = name) (cs_agents s)")
  case True
  define f where "f = (\<lambda>a :: agent_record. if ag_name a = name
     then a\<lparr>ag_session := coalesce sid (ag_session a), ag_program := coalesce program (ag_program a),
            ag_model := coalesce model (ag_model a), ag_task := coalesce task (ag_task a), ag_last_seen := now\<rparr> else a)"
  have f: "ag_name (f a) = ag_name a" for a by (simp add: f_def)
  have g: "ag_session a = Some i \<or> ag_name a = name \<and> sid = Some i" if "ag_session (f a) = Some i" for a i
    using that by (auto simp: f_def coalesce_def split: if_splits option.splits)
  have eq: "cs_agents (upsert_agent name sid program model task now s) = map f (cs_agents s)"
    using True by (simp add: upsert_agent_def f_def)
  show ?thesis
    unfolding eq
  proof (rule agents_wfI)
    have "map ag_name (map f (cs_agents s)) = map ag_name (cs_agents s)" by (simp add: f)
    with wf show "distinct (map ag_name (map f (cs_agents s)))" by (simp only: agents_wf_def)
    fix a' b' i
    assume "a' \<in> set (map f (cs_agents s))" "b' \<in> set (map f (cs_agents s))" "ag_session a' = Some i" "ag_session b' = Some i"
    then obtain a b where ab: "a \<in> set (cs_agents s)" "b \<in> set (cs_agents s)" "a' = f a" "b' = f b"
      "ag_session (f a) = Some i" "ag_session (f b) = Some i" by auto
    then show "ag_name a' = ag_name b'"
      using g [OF ab(5)] g [OF ab(6)] free agents_wfD [OF wf ab(1,2)] f by metis
  qed
next
  case False
  then have new: "name \<notin> ag_name ` set (cs_agents s)" by (auto simp: list_ex_iff)
  define a where "a = \<lparr>ag_name = name, ag_session = sid, ag_program = program, ag_model = model,
                 ag_task = task, ag_inception = now, ag_last_seen = now\<rparr>"
  have eq: "cs_agents (upsert_agent name sid program model task now s) = cs_agents s @ [a]"
    using False by (simp add: upsert_agent_def a_def)
  have a: "ag_name a = name" "ag_session a = sid" by (simp_all add: a_def)
  have alone: "ag_session b \<noteq> Some i" if "b \<in> set (cs_agents s)" "sid = Some i" for b i
    using free [OF that(2,1)] new that(1) by auto
  show ?thesis
    unfolding eq
  proof (rule agents_wfI)
    show "distinct (map ag_name (cs_agents s @ [a]))" using wf new a by (simp add: agents_wf_def)
    fix x y i assume "x \<in> set (cs_agents s @ [a])" "y \<in> set (cs_agents s @ [a])" "ag_session x = Some i" "ag_session y = Some i"
    then show "ag_name x = ag_name y" using agents_wfD [OF wf] alone a by (auto dest: sym)
  qed
qed

lemma register_wf:
  assumes "agents_wf (cs_agents s)"
  shows "agents_wf (cs_agents (snd (register_agent name sid program model task now s)))"
proof (cases sid)
  case None
  with upsert_wf [OF assms, of None] show ?thesis by (simp add: register_agent_def Let_def)
next
  case (Some i)
  have "agents_wf (cs_agents (upsert_agent name (Some i) program model task now (clear_session i name s)))"
  proof (rule upsert_wf [OF clear_session_wf [OF assms]])
    fix a j assume "Some i = Some j" "a \<in> set (cs_agents (clear_session i name s))" "ag_session a = Some j"
    then show "ag_name a = name" using clear_session_kept by blast
  qed
  with Some show ?thesis by (simp add: register_agent_def Let_def)
qed

lemma register_other [simp]:
  "cs_messages (snd (register_agent name sid program model task now s)) = cs_messages s"
  "cs_recipients (snd (register_agent name sid program model task now s)) = cs_recipients s"
  "cs_reservations (snd (register_agent name sid program model task now s)) = cs_reservations s"
  by (simp_all add: register_agent_def upsert_agent_def clear_session_def Let_def split: option.split)

lemma send_cases:
  obtains (refused) err where "send_message sender to cc subject body imp ack reply_to now s = (Inl err, s)"
      "message_recipients sender to cc = []"
  | (sent) mid thread where "mid = next_rowid (map mr_id (cs_messages s))"
      "thread = (case reply_to of Some pid \<Rightarrow> (case thread_id_of pid s of Some t \<Rightarrow> t | None \<Rightarrow> pid) | None \<Rightarrow> mid)"
      "message_recipients sender to cc \<noteq> []"
      "send_message sender to cc subject body imp ack reply_to now s =
        (Inr \<lparr>sr_message = mid, sr_thread = thread, sr_recipients = map fst (message_recipients sender to cc)\<rparr>,
         s\<lparr>cs_messages := cs_messages s @ [\<lparr>mr_id = mid, mr_thread = thread, mr_reply_to = reply_to, mr_sender = sender,
              mr_subject = subject, mr_body = body, mr_importance = importance_str imp, mr_ack_required = ack, mr_created = now\<rparr>],
           cs_recipients := cs_recipients s @ map (\<lambda>(n, kind). \<lparr>rc_message = mid, rc_agent = n, rc_kind = kind, rc_read = None, rc_ack = None\<rparr>)
              (message_recipients sender to cc)\<rparr>)"
proof (cases "message_recipients sender to cc = []")
  case True
  then show ?thesis using refused by (simp add: send_message_def)
next
  case False
  then show ?thesis using sent by (simp add: send_message_def Let_def split: option.splits)
qed

lemma mail_wf_send:
  assumes wf: "mail_wf ms rs" and mid: "mid = next_rowid (map mr_id ms)" and m: "mr_id m = mid" "mr_sender m = sender"
    and recipients: "recipients \<noteq> []" "distinct (map fst recipients)" "sender \<notin> fst ` set recipients"
  shows "mail_wf (ms @ [m]) (rs @ map (\<lambda>(n, kind). \<lparr>rc_message = mid, rc_agent = n, rc_kind = kind, rc_read = None, rc_ack = None\<rparr>) recipients)"
    (is "mail_wf _ (rs @ ?new)")
proof -
  note wf' = wf [unfolded mail_wf_def]
  have above: "mr_id x < mid" if "x \<in> set ms" for x using next_rowid_above [of "mr_id x" "map mr_id ms"] that mid by simp
  have fresh: "rc_message r \<noteq> mid" if r: "r \<in> set rs" for r
  proof -
    from wf' r obtain x where "x \<in> set ms" "mr_id x = rc_message r" by blast
    with above show ?thesis by fastforce
  qed
  have keys: "map (\<lambda>r. (rc_message r, rc_agent r)) ?new = map (Pair mid) (map fst recipients)"
    by (induction recipients) auto
  have "distinct (map (Pair mid) (map fst recipients))"
    by (subst distinct_map) (simp add: recipients(2) inj_on_def)
  moreover have "set (map (\<lambda>r. (rc_message r, rc_agent r)) rs) \<inter> set (map (Pair mid) (map fst recipients)) = {}"
    using fresh by auto
  ultimately have "distinct (map (\<lambda>r. (rc_message r, rc_agent r)) rs @ map (Pair mid) (map fst recipients))"
    using wf' by (simp only: distinct_append)
  then have 1: "distinct (map (\<lambda>r. (rc_message r, rc_agent r)) (rs @ ?new))" by (simp only: map_append keys)
  have 2: "sorted_wrt (<) (map mr_id (ms @ [m]))" "\<forall>x \<in> set (ms @ [m]). 0 < mr_id x"
    using wf' above m mid next_rowid_pos [of "map mr_id ms"] by (simp_all add: sorted_wrt_append)
  have new: "rc_message r = mid \<and> rc_agent r \<in> fst ` set recipients \<and> rc_ack r = None" if "r \<in> set ?new" for r
    using that by force
  have 3: "\<exists>x \<in> set (ms @ [m]). mr_id x = rc_message r \<and> mr_sender x \<noteq> rc_agent r" if r: "r \<in> set (rs @ ?new)" for r
  proof (cases "r \<in> set rs")
    case True
    with wf' obtain x where "x \<in> set ms" "mr_id x = rc_message r" "mr_sender x \<noteq> rc_agent r" by blast
    then show ?thesis by (intro bexI [of _ x]) simp_all
  next
    case False
    with r have "r \<in> set ?new" by simp
    from new [OF this] have "rc_message r = mid" "rc_agent r \<noteq> sender" using recipients(3) by blast+
    with m show ?thesis by (intro bexI [of _ m]) simp_all
  qed
  have 4: "\<exists>r \<in> set (rs @ ?new). rc_message r = mr_id x" if x: "x \<in> set (ms @ [m])" for x
  proof (cases "x \<in> set ms")
    case True
    with wf' obtain r where "r \<in> set rs" "rc_message r = mr_id x" by blast
    then show ?thesis by (intro bexI [of _ r]) simp_all
  next
    case False
    with x have "x = m" by simp
    obtain n kind rest where "recipients = (n, kind) # rest" using recipients(1) by (metis list.exhaust surj_pair)
    with m \<open>x = m\<close> show ?thesis by simp
  qed
  have 5: "\<forall>r \<in> set (rs @ ?new). rc_ack r \<noteq> None \<longrightarrow> rc_read r \<noteq> None"
  proof
    fix r assume "r \<in> set (rs @ ?new)"
    then show "rc_ack r \<noteq> None \<longrightarrow> rc_read r \<noteq> None"
    proof (cases "r \<in> set rs")
      case True
      with wf' show ?thesis by blast
    next
      case False
      with \<open>r \<in> set (rs @ ?new)\<close> have "r \<in> set ?new" by simp
      from new [OF this] show ?thesis by simp
    qed
  qed
  from 1 2 3 4 5 show ?thesis unfolding mail_wf_def by blast
qed

lemma mail_wf_update:
  assumes "mail_wf ms rs" and "\<And>r. rc_message (f r) = rc_message r \<and> rc_agent (f r) = rc_agent r \<and> (rc_ack (f r) \<noteq> None \<longrightarrow> rc_ack r \<noteq> None \<and> rc_read r = rc_read (f r) \<or> rc_read (f r) \<noteq> None)"
  shows "mail_wf ms (map f rs)"
proof -
  have "map (\<lambda>r. (rc_message r, rc_agent r)) (map f rs) = map (\<lambda>r. (rc_message r, rc_agent r)) rs" using assms(2) by simp
  moreover have "rc_ack (f r) \<noteq> None \<longrightarrow> rc_read (f r) \<noteq> None" if "r \<in> set rs" for r
    using assms that unfolding mail_wf_def by metis
  ultimately show ?thesis using assms unfolding mail_wf_def by (simp only: list.set_map ball_simps bex_simps) blast
qed

lemma reservations_wf_insert:
  "reservations_wf (cs_reservations s) \<Longrightarrow> reservations_wf (cs_reservations (snd (insert_reservations agent ex reason created expires pats s)))
    \<and> cs_agents (snd (insert_reservations agent ex reason created expires pats s)) = cs_agents s
    \<and> cs_messages (snd (insert_reservations agent ex reason created expires pats s)) = cs_messages s
    \<and> cs_recipients (snd (insert_reservations agent ex reason created expires pats s)) = cs_recipients s"
proof (induction agent ex reason created expires pats s rule: insert_reservations.induct)
  case (2 agent ex reason created expires pat pats s)
  define r where "r = \<lparr>rv_id = next_rowid (map rv_id (cs_reservations s)), rv_agent = agent, rv_pattern = pat, rv_exclusive = ex,
               rv_reason = reason, rv_created = created, rv_expires = expires, rv_released = None\<rparr>"
  have "reservations_wf (cs_reservations s @ [r])"
    using 2(2) next_rowid_above [of _ "map rv_id (cs_reservations s)"] next_rowid_pos
    by (auto simp: reservations_wf_def sorted_wrt_append r_def)
  with 2(1) [OF r_def] show ?case by (auto simp: r_def [symmetric] Let_def split: prod.splits)
qed simp

lemma update_reservations_other:
  assumes "\<And>r. rv_id (f r) = rv_id r"
  shows "map rv_id (cs_reservations (snd (update_reservations p f s))) = map rv_id (cs_reservations s)"
    "cs_agents (snd (update_reservations p f s)) = cs_agents s" "cs_messages (snd (update_reservations p f s)) = cs_messages s"
    "cs_recipients (snd (update_reservations p f s)) = cs_recipients s"
  using assms by (auto simp: update_reservations_def)

lemma release_patterns_other:
  "map rv_id (cs_reservations (snd (release_patterns agent pats now s))) = map rv_id (cs_reservations s)
   \<and> cs_agents (snd (release_patterns agent pats now s)) = cs_agents s
   \<and> cs_messages (snd (release_patterns agent pats now s)) = cs_messages s
   \<and> cs_recipients (snd (release_patterns agent pats now s)) = cs_recipients s"
proof (induction agent pats now s rule: release_patterns.induct)
  case (2 agent pat pats now s)
  let ?p = "\<lambda>r. rv_agent r = agent \<and> rv_pattern r = pat \<and> rv_released r = None"
  obtain n s1 where u: "update_reservations ?p (\<lambda>r. r\<lparr>rv_released := Some now\<rparr>) s = (n, s1)" by (rule prod.exhaust)
  obtain m s2 where m: "release_patterns agent pats now s1 = (m, s2)" by (rule prod.exhaust)
  from update_reservations_other [of "\<lambda>r. r\<lparr>rv_released := Some now\<rparr>" ?p s] u 2 [OF u [symmetric] refl] m
  show ?case by simp
qed simp

lemma reservations_wf_ids: "map rv_id rs' = map rv_id rs \<Longrightarrow> reservations_wf rs \<Longrightarrow> reservations_wf rs'"
proof -
  assume ids: "map rv_id rs' = map rv_id rs" and wf: "reservations_wf rs"
  have "rv_id ` set rs' = rv_id ` set rs" using arg_cong [OF ids, of set] by simp
  with wf ids show "reservations_wf rs'" unfolding reservations_wf_def by (metis imageE image_eqI)
qed

lemma coord_step_wf: "store_wf s \<Longrightarrow> store_wf (coord_step op s)"
proof (cases op)
  case (OpSend sender to cc subject body imp ack reply_to now)
  assume wf: "store_wf s"
  show ?thesis
  proof (cases rule: send_cases [of sender to cc subject body imp ack reply_to now s])
    case (refused err)
    with wf show ?thesis by (simp add: OpSend)
  next
    case (sent mid thread)
    have "mail_wf (cs_messages s) (cs_recipients s)" using wf by (simp add: store_wf_def)
    from mail_wf_send [OF this sent(1), of "\<lparr>mr_id = mid, mr_thread = thread, mr_reply_to = reply_to, mr_sender = sender,
          mr_subject = subject, mr_body = body, mr_importance = importance_str imp, mr_ack_required = ack, mr_created = now\<rparr>" sender
        "message_recipients sender to cc"] sent message_recipients_facts wf
    show ?thesis by (simp add: OpSend store_wf_def)
  qed
next
  case (OpRegister name sid program model task now)
  assume "store_wf s"
  with register_wf OpRegister show ?thesis by (simp add: store_wf_def)
next
  case (OpRead agent i now)
  assume "store_wf s"
  with mail_wf_update [of "cs_messages s" "cs_recipients s" "\<lambda>r. if rc_message r = i \<and> rc_agent r = agent \<and> rc_read r = None
                   then r\<lparr>rc_read := Some now\<rparr> else r"] OpRead
  show ?thesis by (simp add: store_wf_def mark_read_def Let_def split: if_splits)
next
  case (OpAcknowledge agent i now)
  assume "store_wf s"
  with mail_wf_update [of "cs_messages s" "cs_recipients s" "\<lambda>r. if rc_message r = i \<and> rc_agent r = agent
                   then r\<lparr>rc_read := coalesce (rc_read r) (Some now), rc_ack := coalesce (rc_ack r) (Some now)\<rparr> else r"] OpAcknowledge
  show ?thesis by (simp add: store_wf_def acknowledge_def Let_def coalesce_def split: if_splits option.splits)
next
  case (OpReserve agent patterns exclusive reason created expires)
  assume "store_wf s"
  with reservations_wf_insert OpReserve show ?thesis by (simp add: store_wf_def)
next
  case (OpRenew agent now expires)
  assume wf: "store_wf s"
  note u = update_reservations_other [of "\<lambda>r. r\<lparr>rv_expires := expires\<rparr>" "\<lambda>r. rv_agent r = agent \<and> active_at now r" s]
  from wf u reservations_wf_ids [OF u(1)] OpRenew show ?thesis by (simp add: store_wf_def renew_reservations_def)
next
  case (OpRelease agent patterns now)
  assume wf: "store_wf s"
  note u = update_reservations_other [of "\<lambda>r. r\<lparr>rv_released := Some now\<rparr>" "\<lambda>r. rv_agent r = agent \<and> rv_released r = None" s]
  note v = release_patterns_other [of agent patterns now s]
  have "map rv_id (cs_reservations (coord_step op s)) = map rv_id (cs_reservations s)" "cs_agents (coord_step op s) = cs_agents s"
    "cs_messages (coord_step op s) = cs_messages s" "cs_recipients (coord_step op s) = cs_recipients s"
    using u v by (simp_all add: OpRelease release_reservations_def)
  with wf reservations_wf_ids show ?thesis by (simp add: store_wf_def)
next
  case (OpPrune cutoff)
  assume "store_wf s"
  with OpPrune show ?thesis
    by (auto simp: store_wf_def prune_expired_reservations_def reservations_wf_def sorted_wrt_map intro: sorted_wrt_filter)
qed

lemma empty_coord_wf: "store_wf empty_coord"
  by (simp add: store_wf_def agents_wf_def mail_wf_def reservations_wf_def empty_coord_def)

lemma coord_run_wf: "store_wf s \<Longrightarrow> store_wf (fold coord_step ops s)"
  by (induction ops arbitrary: s) (auto intro: coord_step_wf)

section \<open>Mail\<close>

lemma find_message_append:
  assumes "mail_wf (cs_messages s) rs" and "mr_id m = next_rowid (map mr_id (cs_messages s))"
  shows "find_message i (s\<lparr>cs_messages := cs_messages s @ [m], cs_recipients := rs'\<rparr>) = (if i = mr_id m then Some m else find_message i s)"
proof -
  have "List.find (\<lambda>x. mr_id x = mr_id m) (cs_messages s) = None"
    using next_rowid_above [of _ "map mr_id (cs_messages s)"] assms(2) by (intro find_NoneI) fastforce
  moreover have "List.find P (xs @ [x]) = (case List.find P xs of Some y \<Rightarrow> Some y | None \<Rightarrow> if P x then Some x else None)" for P xs and x :: message_record
    by (induction xs) auto
  ultimately show ?thesis by (auto simp: find_message_def split: option.splits)
qed

lemma find_message_known:
  assumes "mail_wf (cs_messages s) (cs_recipients s)" and "r \<in> set (cs_recipients s)"
  shows "rc_message r \<noteq> next_rowid (map mr_id (cs_messages s))"
proof -
  from assms obtain x where "x \<in> set (cs_messages s)" "mr_id x = rc_message r" unfolding mail_wf_def by blast
  then have "rc_message r < next_rowid (map mr_id (cs_messages s))" by (intro next_rowid_above) force
  then show ?thesis by simp
qed

lemma map_filter_single:
  assumes "distinct (map fst xs)"
  shows "List.map_filter (\<lambda>(n, k). if n = a then Some (h k) else None) xs = (case map_of xs a of Some k \<Rightarrow> [h k] | None \<Rightarrow> [])"
  using assms
proof (induction xs)
  case (Cons x xs)
  obtain n k where x: "x = (n, k)" by (rule prod.exhaust)
  show ?case
  proof (cases "n = a")
    case True
    with Cons.prems x have "map_of xs a = None" by (simp add: map_of_eq_None_iff)
    with Cons x True show ?thesis by (simp add: map_filter_simps)
  next
    case False
    with Cons x show ?thesis by (simp add: map_filter_simps)
  qed
qed (simp add: map_filter_simps)

lemma inbox_after_send:
  assumes wf: "store_wf s" and send: "send_message sender to cc subject body imp ack reply_to now s = (Inr receipt, s')"
  shows "\<exists>m. find_message (sr_message receipt) s' = Some m \<and> mr_sender m = sender \<and> mr_subject m = subject \<and> mr_body m = body
    \<and> mr_importance m = importance_str imp \<and> mr_thread m = sr_thread receipt \<and> find_message (sr_message receipt) s = None
    \<and> (\<forall>a. inbox_rows a s' = inbox_rows a s @
          (case map_of (message_recipients sender to cc) a of
             Some kind \<Rightarrow> [\<lparr>ie_message = m, ie_kind = kind, ie_read = None, ie_ack = None\<rparr>] | None \<Rightarrow> []))"
proof (cases rule: send_cases [of sender to cc subject body imp ack reply_to now s])
  case (refused err)
  with send show ?thesis by simp
next
  case (sent mid thread)
  define m where "m = \<lparr>mr_id = mid, mr_thread = thread, mr_reply_to = reply_to, mr_sender = sender,
          mr_subject = subject, mr_body = body, mr_importance = importance_str imp, mr_ack_required = ack, mr_created = now\<rparr>"
  define new where "new = map (\<lambda>(n, kind). \<lparr>rc_message = mid, rc_agent = n, rc_kind = kind, rc_read = None, rc_ack = None\<rparr>) (message_recipients sender to cc)"
  have s': "s' = s\<lparr>cs_messages := cs_messages s @ [m], cs_recipients := cs_recipients s @ new\<rparr>"
    and receipt: "sr_message receipt = mid" "sr_thread receipt = thread"
    using send unfolding sent(4) m_def new_def by auto
  have mail: "mail_wf (cs_messages s) (cs_recipients s)" using wf by (simp add: store_wf_def)
  have find: "find_message i s' = (if i = mid then Some m else find_message i s)" for i
    using find_message_append [OF mail, of m i] sent(1) by (simp add: s' m_def)
  have fresh: "find_message mid s = None"
    unfolding find_message_def using next_rowid_above [of _ "map mr_id (cs_messages s)"] sent(1) by (intro find_NoneI) fastforce
  let ?f = "\<lambda>t a r. if rc_agent r = a then map_option (\<lambda>m. \<lparr>ie_message = m, ie_kind = rc_kind r, ie_read = rc_read r, ie_ack = rc_ack r\<rparr>)
       (find_message (rc_message r) t) else None"
  have old: "List.map_filter (?f s' a) (cs_recipients s) = List.map_filter (?f s a) (cs_recipients s)" for a
    using find_message_known [OF mail] sent(1) by (intro map_filter_cong) (simp add: find)
  have "List.map_filter (?f s' a) (map (\<lambda>(n, kind). \<lparr>rc_message = mid, rc_agent = n, rc_kind = kind, rc_read = None, rc_ack = None\<rparr>) xs) =
      List.map_filter (\<lambda>(n, k). if n = a then Some \<lparr>ie_message = m, ie_kind = k, ie_read = None, ie_ack = None\<rparr> else None) xs" for a xs
    by (induction xs) (auto simp: map_filter_simps find split: option.splits if_splits)
  then have added: "List.map_filter (?f s' a) new =
      List.map_filter (\<lambda>(n, k). if n = a then Some \<lparr>ie_message = m, ie_kind = k, ie_read = None, ie_ack = None\<rparr> else None)
        (message_recipients sender to cc)" for a
    by (simp add: new_def)
  have rows: "inbox_rows a s' = inbox_rows a s @ List.map_filter (?f s' a) new" for a
    using old [of a] arg_cong [OF s', of cs_recipients] by (simp add: inbox_rows_def)
  show ?thesis
    by (intro exI [of _ m] conjI allI)
      (simp_all add: receipt find fresh, simp_all add: m_def rows added map_filter_single [OF message_recipients_facts(1)])
qed

lemma fetch_inbox_all:
  "int (length (inbox_rows a s)) \<le> n \<Longrightarrow> set (fetch_inbox a f n s) = {e \<in> set (inbox_rows a s). inbox_matches f e}"
proof -
  assume "int (length (inbox_rows a s)) \<le> n"
  moreover have "length (filter (inbox_matches f) (inbox_rows a s)) \<le> length (inbox_rows a s)" by (rule length_filter_le)
  ultimately have "length (filter (inbox_matches f) (inbox_rows a s)) \<le> nat (max n 1)" by linarith
  then show ?thesis by (simp add: fetch_inbox_def limit_rows_def)
qed

text \<open>What later operations keep of a delivery: it stays, and its marks are written once.\<close>

definition delivery_kept :: "recipient_row \<Rightarrow> recipient_row \<Rightarrow> bool" where
  "delivery_kept r r' \<longleftrightarrow>
     rc_message r' = rc_message r \<and> rc_agent r' = rc_agent r \<and> rc_kind r' = rc_kind r
     \<and> (rc_read r \<noteq> None \<longrightarrow> rc_read r' = rc_read r) \<and> (rc_ack r \<noteq> None \<longrightarrow> rc_ack r' = rc_ack r)"

definition mail_kept :: "coord_store \<Rightarrow> coord_store \<Rightarrow> bool" where
  "mail_kept s s' \<longleftrightarrow>
     (\<exists>ms. cs_messages s' = cs_messages s @ ms)
     \<and> (\<exists>rs rs'. cs_recipients s' = rs @ rs' \<and> list_all2 delivery_kept (cs_recipients s) rs)"

lemma delivery_kept_refl [simp]: "delivery_kept r r"
  by (simp add: delivery_kept_def)

lemma list_all2_kept_refl [simp]: "list_all2 delivery_kept rs rs"
  by (simp add: list_all2_refl)

lemma delivery_kept_trans: "delivery_kept a b \<Longrightarrow> delivery_kept b c \<Longrightarrow> delivery_kept a c"
  by (auto simp: delivery_kept_def)

lemma mail_kept_same: "cs_messages s' = cs_messages s \<Longrightarrow> cs_recipients s' = cs_recipients s \<Longrightarrow> mail_kept s s'"
  unfolding mail_kept_def by (intro conjI exI [of _ "[]"] exI [of _ "cs_recipients s"]) simp_all

lemma mail_kept_update:
  assumes "cs_messages s' = cs_messages s" and "cs_recipients s' = map f (cs_recipients s)" and "\<And>r. delivery_kept r (f r)"
  shows "mail_kept s s'"
proof -
  have "list_all2 delivery_kept rs (map f rs)" for rs using assms(3) by (induction rs) auto
  then show ?thesis unfolding mail_kept_def using assms(1,2) by (metis append_Nil2)
qed

lemma mail_kept_trans:
  assumes "mail_kept a b" and "mail_kept b c"
  shows "mail_kept a c"
proof -
  obtain ms rs rs' where b: "cs_messages b = cs_messages a @ ms" "cs_recipients b = rs @ rs'" "list_all2 delivery_kept (cs_recipients a) rs"
    using assms(1) unfolding mail_kept_def by blast
  obtain ms' ts ts' where c: "cs_messages c = cs_messages b @ ms'" "cs_recipients c = ts @ ts'" "list_all2 delivery_kept (rs @ rs') ts"
    using assms(2) b unfolding mail_kept_def by auto
  obtain us vs where t: "ts = us @ vs" "list_all2 delivery_kept rs us" using c(3) by (auto simp: list_all2_append1)
  have "list_all2 delivery_kept (cs_recipients a) us"
    using list_all2_trans [of delivery_kept delivery_kept delivery_kept, OF delivery_kept_trans b(3) t(2)] .
  with b(1) c(1,2) t(1) show ?thesis unfolding mail_kept_def by auto
qed

lemma coord_step_mail: "mail_kept s (coord_step op s)"
proof (cases op)
  case (OpSend sender to cc subject body imp ack reply_to now)
  show ?thesis
  proof (cases rule: send_cases [of sender to cc subject body imp ack reply_to now s])
    case (refused err)
    then show ?thesis by (intro mail_kept_same) (simp_all add: OpSend)
  next
    case (sent mid thread)
    have "\<exists>rs rs'. cs_recipients s @ new = rs @ rs' \<and> list_all2 delivery_kept (cs_recipients s) rs" for new
      by (intro exI [of _ "cs_recipients s"] exI [of _ new]) simp
    then show ?thesis unfolding mail_kept_def OpSend coord_step.simps sent(4) by simp
  qed
next
  case (OpRead agent i now)
  show ?thesis
    by (rule mail_kept_update [of _ _ "\<lambda>r. if rc_message r = i \<and> rc_agent r = agent \<and> rc_read r = None then r\<lparr>rc_read := Some now\<rparr> else r"])
      (simp_all add: OpRead mark_read_def Let_def delivery_kept_def)
next
  case (OpAcknowledge agent i now)
  show ?thesis
    by (rule mail_kept_update [of _ _ "\<lambda>r. if rc_message r = i \<and> rc_agent r = agent
                   then r\<lparr>rc_read := coalesce (rc_read r) (Some now), rc_ack := coalesce (rc_ack r) (Some now)\<rparr> else r"])
      (simp_all add: OpAcknowledge acknowledge_def Let_def delivery_kept_def coalesce_def split: option.split)
next
  case (OpReserve agent patterns exclusive reason created expires)
  have "cs_messages (snd (insert_reservations a e r c x ps t)) = cs_messages t \<and> cs_recipients (snd (insert_reservations a e r c x ps t)) = cs_recipients t" for a e r c x ps t
    by (induction a e r c x ps t rule: insert_reservations.induct) (auto simp: Let_def split: prod.splits)
  then show ?thesis by (intro mail_kept_same) (simp_all add: OpReserve)
next
  case (OpRelease agent patterns now)
  show ?thesis
    using release_patterns_other [of agent patterns now s]
    by (intro mail_kept_same) (simp_all add: OpRelease release_reservations_def update_reservations_def)
qed (intro mail_kept_same; simp add: renew_reservations_def update_reservations_def prune_expired_reservations_def)+

lemma coord_run_mail: "mail_kept s (fold coord_step ops s)"
proof (induction ops arbitrary: s)
  case Nil
  then show ?case by (simp add: mail_kept_same)
next
  case (Cons op ops)
  show ?case using mail_kept_trans [OF coord_step_mail Cons.IH] by simp
qed

section \<open>Reservations\<close>

lemma conflicts_with_set:
  "set (conflicts_with glob patterns existing) =
     {\<lparr>cf_pattern = p, cf_held_by = rv_agent r, cf_conflicting = rv_pattern r, cf_reservation = rv_id r\<rparr> | p r.
        p \<in> set patterns \<and> r \<in> set existing \<and> rv_exclusive r \<and> patterns_overlap glob p (rv_pattern r)}"
  by (auto simp: conflicts_with_def map_filter_set split: if_splits)

lemma active_scan:
  assumes "active_reservations_excluding agent now cap s = (existing, truncated)" and "cap < 9223372036854775807"
    and "foreign = filter (\<lambda>r. rv_agent r \<noteq> agent \<and> active_at now r) (cs_reservations s)"
  shows "truncated \<longleftrightarrow> max cap 1 < int (length foreign)" and "\<not> truncated \<Longrightarrow> set existing = set foreign"
    and "set existing \<subseteq> set foreign"
proof -
  have k: "nat (min (max cap 1 + 1) 9223372036854775807) = Suc (nat (max cap 1))" using assms(2) by auto
  have "max cap 1 < int (length (take (Suc (nat (max cap 1))) (sort_desc rv_id foreign))) \<longleftrightarrow> max cap 1 < int (length foreign)"
    by auto
  with assms(1) show t: "truncated \<longleftrightarrow> max cap 1 < int (length foreign)"
    by (auto simp: active_reservations_excluding_def Let_def k assms(3) [symmetric] simp del: length_take)
  show "set existing = set foreign" if "\<not> truncated"
  proof -
    have "length foreign \<le> Suc (nat (max cap 1))" using that t by auto
    with assms(1) that show ?thesis
      by (auto simp: active_reservations_excluding_def Let_def k assms(3) [symmetric])
  qed
  show "set existing \<subseteq> set foreign"
    using assms(1) by (auto simp: active_reservations_excluding_def Let_def assms(3) [symmetric] dest: in_set_takeD split: if_splits)
qed

section \<open>Unread mail\<close>

lemma foldr_max_ge: "x \<in> set (i # is) \<Longrightarrow> x \<le> foldr max is (i :: int)"
  by (induction "is") auto

lemma foldr_max_in: "foldr max is i \<in> set (i # is)" for i :: int
  by (induction "is") (auto simp: max_def)

lemma rank_name_sql: "rank_name (importance_rank_sql c) = (if c \<in> {''low'', ''high'', ''urgent''} then c else ''normal'')"
  by (auto simp: rank_name_def importance_rank_sql_def)

section \<open>Properties\<close>

text \<open>Property C23. The coordination tables stay well-formed under every sequence of operations: names and rowids are
  unique, a runtime session is bound to at most one agent, every delivery refers to a stored message that its recipient did not send,
  every message has a recipient, and nothing is acknowledged that is not read.\<close>
theorem coord_tables_well_formed:
  assumes "store_wf s"
  shows "store_wf (fold coord_step ops s)"
  using assms by (rule coord_run_wf)

theorem coord_tables_well_formed_witness:
  "store_wf (fold coord_step [OpRegister ''BlueLake'' (Some ''s1'') None None None ''t1'',
     OpSend ''BlueLake'' [''RedFox'', ''BlueLake''] [''RedFox''] ''hi'' ''body'' ImpHigh True None ''t2'', OpAcknowledge ''RedFox'' 1 ''t3''] empty_coord)"
  by (rule coord_tables_well_formed [OF empty_coord_wf])

text \<open>Property C24. A message is delivered exactly once to everyone it is addressed to and to nobody else. After a successful
  send the receipt names each addressee other than the sender once; the stored message is the one that was sent,
  under an identifier not used before; it is appended, unread, to the inbox of exactly these agents, and an inbox
  query that is wide enough returns it if it passes the filter.\<close>
theorem message_delivered:
  assumes "store_wf s" and "send_message sender to cc subject body imp ack reply_to now s = (Inr receipt, s')"
    and "int (length (inbox_rows a s')) \<le> n"
  shows "distinct (sr_recipients receipt) \<and> set (sr_recipients receipt) = set to \<union> set cc - {sender}
    \<and> (\<exists>m. find_message (sr_message receipt) s = None \<and> find_message (sr_message receipt) s' = Some m
         \<and> mr_sender m = sender \<and> mr_subject m = subject \<and> mr_body m = body \<and> mr_thread m = sr_thread receipt
         \<and> (if a \<in> set (sr_recipients receipt)
            then (\<exists>kind. inbox_rows a s' = inbox_rows a s @ [\<lparr>ie_message = m, ie_kind = kind, ie_read = None, ie_ack = None\<rparr>]
                   \<and> (inbox_matches f \<lparr>ie_message = m, ie_kind = kind, ie_read = None, ie_ack = None\<rparr>
                      \<longrightarrow> \<lparr>ie_message = m, ie_kind = kind, ie_read = None, ie_ack = None\<rparr> \<in> set (fetch_inbox a f n s')))
            else inbox_rows a s' = inbox_rows a s))"
proof -
  obtain m where m: "find_message (sr_message receipt) s' = Some m" "mr_sender m = sender" "mr_subject m = subject" "mr_body m = body"
    "mr_thread m = sr_thread receipt" "find_message (sr_message receipt) s = None"
    and rows: "inbox_rows a s' = inbox_rows a s @
          (case map_of (message_recipients sender to cc) a of
             Some kind \<Rightarrow> [\<lparr>ie_message = m, ie_kind = kind, ie_read = None, ie_ack = None\<rparr>] | None \<Rightarrow> [])"
    using inbox_after_send [OF assms(1,2)] by blast
  have names: "sr_recipients receipt = map fst (message_recipients sender to cc)"
    using assms(2) by (cases rule: send_cases [of sender to cc subject body imp ack reply_to now s]) auto
  have set: "set (sr_recipients receipt) = set to \<union> set cc - {sender}" "distinct (sr_recipients receipt)"
    using message_recipients_facts [of sender to cc] by (simp_all add: names)
  show ?thesis
  proof (cases "a \<in> set (sr_recipients receipt)")
    case True
    then obtain kind where kind: "map_of (message_recipients sender to cc) a = Some kind"
      unfolding names by (metis map_of_eq_None_iff not_None_eq set_map)
    then have "\<lparr>ie_message = m, ie_kind = kind, ie_read = None, ie_ack = None\<rparr> \<in> set (inbox_rows a s')" by (simp add: rows)
    with fetch_inbox_all [OF assms(3), of f] rows kind True set m show ?thesis
      by (intro conjI exI [of _ m]) simp_all
  next
    case False
    then have "map_of (message_recipients sender to cc) a = None" unfolding names by (simp add: map_of_eq_None_iff)
    with rows False set m show ?thesis by (intro conjI exI [of _ m]) simp_all
  qed
qed

theorem message_delivered_witness:
  "\<exists>receipt s' m. send_message ''BlueLake'' [''RedFox''] [] ''hi'' ''body'' ImpNormal False None ''t'' empty_coord = (Inr receipt, s')
     \<and> \<lparr>ie_message = m, ie_kind = ''to'', ie_read = None, ie_ack = None\<rparr>
        \<in> set (fetch_inbox ''RedFox'' \<lparr>if_unread_only = True, if_min_importance = None, if_since = None\<rparr> 5 s')"
proof -
  obtain receipt s' where send: "send_message ''BlueLake'' [''RedFox''] [] ''hi'' ''body'' ImpNormal False None ''t'' empty_coord = (Inr receipt, s')"
    by (simp add: send_message_def message_recipients_def Let_def)
  then have s': "sr_recipients receipt = [''RedFox'']" "map ie_kind (inbox_rows ''RedFox'' s') = [''to'']"
    by (auto simp: send_message_def message_recipients_def Let_def inbox_rows_def empty_coord_def find_message_def map_filter_simps)
  have "int (length (inbox_rows ''RedFox'' s')) \<le> 5" using arg_cong [OF s'(2), of length] by simp
  from message_delivered [OF empty_coord_wf send this, of "\<lparr>if_unread_only = True, if_min_importance = None, if_since = None\<rparr>"] s'
  obtain m kind where "inbox_rows ''RedFox'' s' = inbox_rows ''RedFox'' empty_coord @ [\<lparr>ie_message = m, ie_kind = kind, ie_read = None, ie_ack = None\<rparr>]"
    "\<lparr>ie_message = m, ie_kind = kind, ie_read = None, ie_ack = None\<rparr> \<in> set (fetch_inbox ''RedFox'' \<lparr>if_unread_only = True, if_min_importance = None, if_since = None\<rparr> 5 s')"
    by (auto simp: inbox_matches_def)
  with send s'(2) show ?thesis by auto
qed

text \<open>Observation. Mail is never lost and its marks are written once: whatever operations follow, every stored
  message stays as it was sent, every delivery stays with its recipient and kind, and a time of reading or
  acknowledgement, once set, never changes.\<close>
theorem mail_is_permanent:
  assumes "s' = fold coord_step ops s"
  shows "prefix (cs_messages s) (cs_messages s')
    \<and> (\<forall>j < length (cs_recipients s). j < length (cs_recipients s') \<and>
         (let r = cs_recipients s ! j; r' = cs_recipients s' ! j in
          rc_message r' = rc_message r \<and> rc_agent r' = rc_agent r \<and> rc_kind r' = rc_kind r
          \<and> (rc_read r \<noteq> None \<longrightarrow> rc_read r' = rc_read r) \<and> (rc_ack r \<noteq> None \<longrightarrow> rc_ack r' = rc_ack r)))"
proof -
  from coord_run_mail [of s ops] obtain ms rs rs' where k: "cs_messages s' = cs_messages s @ ms" "cs_recipients s' = rs @ rs'"
    "list_all2 delivery_kept (cs_recipients s) rs"
    unfolding mail_kept_def assms by blast
  have "delivery_kept (cs_recipients s ! j) (cs_recipients s' ! j) \<and> j < length (cs_recipients s')" if "j < length (cs_recipients s)" for j
    using k(2,3) that by (auto simp: list_all2_conv_all_nth nth_append)
  with k(1) show ?thesis by (auto simp: Let_def delivery_kept_def)
qed

theorem mail_is_permanent_witness:
  "\<exists>s'. s' = fold coord_step [OpAcknowledge ''RedFox'' 1 ''t9'']
       (empty_coord\<lparr>cs_recipients := [\<lparr>rc_message = 1, rc_agent = ''RedFox'', rc_kind = ''to'', rc_read = Some ''t3'', rc_ack = None\<rparr>]\<rparr>)
     \<and> rc_read (cs_recipients s' ! 0) = Some ''t3''"
proof -
  define s where "s = empty_coord\<lparr>cs_recipients := [\<lparr>rc_message = 1, rc_agent = ''RedFox'', rc_kind = ''to'', rc_read = Some ''t3'', rc_ack = None\<rparr>]\<rparr>"
  define s' where "s' = fold coord_step [OpAcknowledge ''RedFox'' 1 ''t9''] s"
  from mail_is_permanent [OF s'_def] have "rc_read (cs_recipients s' ! 0) = Some ''t3''" by (simp add: s_def Let_def)
  with s'_def show ?thesis unfolding s_def by blast
qed

text \<open>Property C28. Checking paths for conflicts is exact as long as the scan was not cut off: it reports precisely the pairs of a
  path asked for and an exclusive reservation of another agent that is neither released nor expired and whose pattern
  overlaps it; so an empty answer means that no such reservation exists. The scan is cut off only when more
  active foreign reservations exist than it may look at, and even then every reported conflict is one.\<close>
theorem conflict_check_exact:
  assumes "check_conflicts glob agent patterns now cap s = (conflicts, truncated)" and "cap < 9223372036854775807"
  shows "(truncated \<longleftrightarrow> max cap 1 < int (length (filter (\<lambda>r. rv_agent r \<noteq> agent \<and> active_at now r) (cs_reservations s))))
    \<and> set conflicts \<subseteq> {\<lparr>cf_pattern = p, cf_held_by = rv_agent r, cf_conflicting = rv_pattern r, cf_reservation = rv_id r\<rparr> | p r.
          p \<in> set patterns \<and> r \<in> set (cs_reservations s) \<and> rv_agent r \<noteq> agent \<and> active_at now r \<and> rv_exclusive r
          \<and> patterns_overlap glob p (rv_pattern r)}
    \<and> (\<not> truncated \<longrightarrow> (\<forall>p r. p \<in> set patterns \<and> r \<in> set (cs_reservations s) \<and> rv_agent r \<noteq> agent \<and> active_at now r \<and> rv_exclusive r
          \<and> patterns_overlap glob p (rv_pattern r)
          \<longrightarrow> \<lparr>cf_pattern = p, cf_held_by = rv_agent r, cf_conflicting = rv_pattern r, cf_reservation = rv_id r\<rparr> \<in> set conflicts))"
proof -
  define foreign where "foreign = filter (\<lambda>r. rv_agent r \<noteq> agent \<and> active_at now r) (cs_reservations s)"
  obtain existing where e: "active_reservations_excluding agent now cap s = (existing, truncated)"
    and c: "conflicts = conflicts_with glob patterns existing"
    using assms(1) by (auto simp: check_conflicts_def Let_def split: prod.splits)
  note scan = active_scan [OF e assms(2) foreign_def]
  have "set existing \<subseteq> {r \<in> set (cs_reservations s). rv_agent r \<noteq> agent \<and> active_at now r}" using scan(3) by (auto simp: foreign_def)
  moreover have "\<not> truncated \<Longrightarrow> set existing = {r \<in> set (cs_reservations s). rv_agent r \<noteq> agent \<and> active_at now r}"
    using scan(2) by (auto simp: foreign_def)
  ultimately show ?thesis using scan(1) unfolding c conflicts_with_set foreign_def by blast
qed

theorem conflict_check_exact_witness:
  "\<exists>c. fst (check_conflicts (\<lambda>_ _. None) ''RedFox'' [''src''] ''t1'' 10 (empty_coord\<lparr>cs_reservations :=
      [\<lparr>rv_id = 1, rv_agent = ''BlueLake'', rv_pattern = ''src'', rv_exclusive = True, rv_reason = None, rv_created = ''t0'', rv_expires = ''t2'', rv_released = None\<rparr>]\<rparr>)) = c
     \<and> c \<noteq> []"
proof -
  define r where "r = \<lparr>rv_id = 1, rv_agent = ''BlueLake'', rv_pattern = ''src'', rv_exclusive = True, rv_reason = None, rv_created = ''t0'',
     rv_expires = ''t2'', rv_released = None\<rparr>"
  define s where "s = empty_coord\<lparr>cs_reservations := [r]\<rparr>"
  obtain c t where ct: "check_conflicts (\<lambda>_ _. None) ''RedFox'' [''src''] ''t1'' 10 s = (c, t)" by fastforce
  have r: "rv_agent r \<noteq> ''RedFox''" "active_at ''t1'' r" "rv_exclusive r" "patterns_overlap (\<lambda>_ _. None) ''src'' (rv_pattern r)"
    by (simp_all add: r_def active_at_def patterns_overlap_def)
  from conflict_check_exact [OF ct] r have "c \<noteq> []" by (auto simp: s_def)
  with ct show ?thesis unfolding s_def r_def by (intro exI [of _ c]) simp
qed

text \<open>Observation. The summary of unread mail that is shown to an agent is exact and announces every message: it
  is empty just if no unread message is newer than the watermark, and otherwise counts them, names the highest
  importance among them and reaches up to the newest, so that once the watermark is moved there nothing is announced again
  and nothing unread was passed over.\<close>
theorem unread_summary_exact:
  assumes "rows = filter (\<lambda>e. ie_read e = None \<and> watermark < mr_id (ie_message e)) (inbox_rows a s)"
  shows "case unread_summary_of a watermark s of
      None \<Rightarrow> rows = []
    | Some u \<Rightarrow> un_count u = length rows \<and> rows \<noteq> []
        \<and> (\<exists>e \<in> set rows. mr_id (ie_message e) = un_newest u) \<and> (\<forall>e \<in> set rows. mr_id (ie_message e) \<le> un_newest u)
        \<and> (\<exists>e \<in> set rows. un_highest u = rank_name (importance_rank_sql (mr_importance (ie_message e)))
             \<and> (\<forall>e' \<in> set rows. importance_rank_sql (mr_importance (ie_message e')) \<le> importance_rank_sql (mr_importance (ie_message e))))
        \<and> unread_summary_of a (max watermark (un_newest u)) s = None"
proof (cases rows)
  case Nil
  with assms show ?thesis by (simp add: unread_summary_of_def Let_def)
next
  case (Cons e es)
  let ?id = "\<lambda>e. mr_id (ie_message e)" and ?rank = "\<lambda>e. importance_rank_sql (mr_importance (ie_message e))"
  define newest where "newest = foldr max (map ?id es) (?id e)"
  define rank where "rank = foldr max (map ?rank es) (?rank e)"
  have u: "unread_summary_of a watermark s = Some \<lparr>un_count = length rows, un_highest = rank_name rank, un_newest = newest\<rparr>"
    using Cons by (simp add: unread_summary_of_def Let_def assms [symmetric] newest_def rank_def comp_def)
  have ids: "newest \<in> ?id ` set rows" "\<And>x. x \<in> set rows \<Longrightarrow> ?id x \<le> newest"
    using foldr_max_in [of "map ?id es" "?id e"] foldr_max_ge [of _ "?id e" "map ?id es"] Cons by (auto simp: newest_def)
  have ranks: "rank \<in> ?rank ` set rows" "\<And>x. x \<in> set rows \<Longrightarrow> ?rank x \<le> rank"
    using foldr_max_in [of "map ?rank es" "?rank e"] foldr_max_ge [of _ "?rank e" "map ?rank es"] Cons by (auto simp: rank_def)
  have "filter (\<lambda>e. ie_read e = None \<and> max watermark newest < ?id e) (inbox_rows a s) = []"
    using ids(2) by (fastforce simp: assms filter_empty_conv)
  then have "unread_summary_of a (max watermark newest) s = None" by (simp add: unread_summary_of_def Let_def)
  moreover obtain x y where "x \<in> set rows" "newest = ?id x" "y \<in> set rows" "rank = ?rank y" using ids(1) ranks(1) by blast
  ultimately show ?thesis unfolding u using ids(2) ranks(2) Cons by auto
qed

theorem unread_summary_exact_witness:
  "\<exists>rows. rows = filter (\<lambda>e. ie_read e = None \<and> 0 < mr_id (ie_message e)) (inbox_rows ''RedFox'' empty_coord)
     \<and> (case unread_summary_of ''RedFox'' 0 empty_coord of None \<Rightarrow> rows = [] | Some u \<Rightarrow> un_count u = length rows)"
  using unread_summary_exact [OF refl, of 0 "''RedFox''" empty_coord] by (auto split: option.splits)

text \<open>Observation. Two agents that reserve the same path at the same time can both be told that there is no conflict: each
  reads the active reservations before either has inserted its own.\<close>
theorem concurrent_reservations_miss_conflict:
  "\<exists>s1 s2. fst (check_conflicts glob ''A'' [''src''] ''t0'' 10 empty_coord) = []
     \<and> fst (check_conflicts glob ''B'' [''src''] ''t0'' 10 empty_coord) = []
     \<and> s1 = snd (insert_reservations ''A'' True None ''t0'' ''t9'' [''src''] empty_coord)
     \<and> s2 = snd (insert_reservations ''B'' True None ''t0'' ''t9'' [''src''] s1)
     \<and> fst (check_conflicts glob ''A'' [''src''] ''t1'' 10 s2) \<noteq> []"
  by (simp add: check_conflicts_def active_reservations_excluding_def conflicts_with_def empty_coord_def Let_def next_rowid_def
      active_at_def patterns_overlap_def sort_desc_def map_filter_simps)

end
