(* ===== verification/Coord_Ops.thy ===== *)
theory Coord_Ops
  imports Coord_Store Json_Value
begin

text \<open>
  The coordination requests of an agent (src/src/ops/coord.rs) and the names it is given
  (src/src/coordination/names.rs). A request is the parsed JSON body; an answer is data or an error code with a message. A
  fault of the store is the argument \<open>fault\<close>, the text of the error; the clock and the arithmetic on
  timestamps (chrono) are arguments.
\<close>

section \<open>Names\<close>

definition adjectives :: "string list" where
  "adjectives =
     [''Amber'', ''Azure'', ''Blue'', ''Bold'', ''Brave'', ''Bright'', ''Calm'', ''Clever'', ''Coral'', ''Crimson'',
      ''Dawn'', ''Deep'', ''Eager'', ''Ember'', ''Fair'', ''Fleet'', ''Gold'', ''Green'', ''Grey'', ''Hardy'',
      ''Ivory'', ''Jade'', ''Keen'', ''Lark'', ''Lucky'', ''Mellow'', ''Merry'', ''Noble'', ''Onyx'', ''Pale'',
      ''Quiet'', ''Rapid'', ''Royal'', ''Ruby'', ''Sage'', ''Scarlet'', ''Silent'', ''Silver'', ''Slate'', ''Snowy'',
      ''Solar'', ''Steady'', ''Storm'', ''Swift'', ''Teal'', ''Umber'', ''Vivid'', ''Warm'', ''Wild'', ''Zesty'']"

definition nouns :: "string list" where
  "nouns =
     [''Alder'', ''Anchor'', ''Arbor'', ''Badger'', ''Basin'', ''Beacon'', ''Bear'', ''Birch'', ''Bison'', ''Bluff'',
      ''Brook'', ''Canyon'', ''Castle'', ''Cedar'', ''Cliff'', ''Comet'', ''Crane'', ''Delta'', ''Dune'', ''Eagle'',
      ''Falcon'', ''Fern'', ''Forge'', ''Fox'', ''Grove'', ''Harbor'', ''Hawk'', ''Heron'', ''Lake'', ''Lynx'',
      ''Maple'', ''Meadow'', ''Mesa'', ''Otter'', ''Peak'', ''Pine'', ''Quarry'', ''Raven'', ''Reef'', ''Ridge'',
      ''River'', ''Stone'', ''Summit'', ''Thicket'', ''Vale'', ''Willow'', ''Wolf'', ''Aspen'', ''Cove'', ''Harrier'']"

definition name_space :: nat where
  "name_space = length adjectives * length nouns"

definition mint :: "nat \<Rightarrow> string" where
  "mint seed =
     (let mixed = (seed * 6364136223846793005 + 1442695040888963407) mod 2 ^ 64
      in adjectives ! (mixed mod length adjectives) @ nouns ! ((mixed div length adjectives) mod length nouns))"

definition is_valid_name :: "string \<Rightarrow> bool" where
  "is_valid_name name \<longleftrightarrow> name \<noteq> [] \<and> length name \<le> 64 \<and> list_all ascii_alphanumeric name"

section \<open>Requests and answers\<close>

datatype coord_response = CoordOk jvalue | CoordErr nat string

definition err_disabled :: nat where "err_disabled = 40"
definition err_bad_request :: nat where "err_bad_request = 41"
definition err_store_unavailable :: nat where "err_store_unavailable = 42"

record coordination_config =
  cc_enabled :: bool
  cc_default_ttl :: nat
  cc_max_ttl :: nat
  cc_inbox_default :: int
  cc_inbox_max :: int
  cc_thread_max :: int

record coord_session =
  cn_external :: "string option"
  cn_agent :: "string option"

definition arg_str :: "string \<Rightarrow> jvalue \<Rightarrow> string option" where
  "arg_str key body = Option.bind (json_get key body) json_as_str"

definition arg_int :: "string \<Rightarrow> jvalue \<Rightarrow> int option" where
  "arg_int key body = Option.bind (json_get key body) json_as_i64"

definition arg_bool :: "string \<Rightarrow> bool \<Rightarrow> jvalue \<Rightarrow> bool" where
  "arg_bool key absent body = (case Option.bind (json_get key body) json_as_bool of Some b \<Rightarrow> b | None \<Rightarrow> absent)"

definition str_array :: "string \<Rightarrow> jvalue \<Rightarrow> string list" where
  "str_array key body =
     (case Option.bind (json_get key body) json_as_array of
        Some items \<Rightarrow> List.map_filter json_as_str items
      | None \<Rightarrow> [])"

definition agent_arg :: "jvalue \<Rightarrow> string + string" where
  "agent_arg body =
     (case arg_str ''agent'' body of
        Some a \<Rightarrow> if is_valid_name a then Inr a else Inl ''coord: 'agent' is not a valid name''
      | None \<Rightarrow> Inl ''coord: 'agent' is required'')"

definition read_agent_and_id :: "jvalue \<Rightarrow> string + string \<times> int" where
  "read_agent_and_id body =
     (case agent_arg body of
        Inl msg \<Rightarrow> Inl msg
      | Inr agent \<Rightarrow>
          (case arg_int ''message_id'' body of
             Some i \<Rightarrow> Inr (agent, i)
           | None \<Rightarrow> Inl ''coord: 'message_id' is required''))"

definition json_opt :: "string option \<Rightarrow> jvalue" where
  "json_opt v = (case v of Some t \<Rightarrow> JString t | None \<Rightarrow> JNull)"

definition agent_json :: "agent_record \<Rightarrow> jvalue" where
  "agent_json a = JObject [(''name'', JString (ag_name a)), (''session_id'', json_opt (ag_session a)), (''program'', json_opt (ag_program a)),
     (''model'', json_opt (ag_model a)), (''task'', json_opt (ag_task a)), (''inception_ts'', JString (ag_inception a)),
     (''last_seen_ts'', JString (ag_last_seen a))]"

definition message_members :: "message_record \<Rightarrow> (string \<times> jvalue) list" where
  "message_members m = [(''id'', json_int (mr_id m)), (''thread_id'', json_int (mr_thread m)),
     (''reply_to'', case mr_reply_to m of Some i \<Rightarrow> json_int i | None \<Rightarrow> JNull), (''sender'', JString (mr_sender m)),
     (''subject'', JString (mr_subject m)), (''body'', JString (mr_body m)), (''importance'', JString (mr_importance m)),
     (''ack_required'', JBool (mr_ack_required m)), (''created_ts'', JString (mr_created m))]"

definition message_json :: "message_record \<Rightarrow> jvalue" where
  "message_json m = JObject (message_members m)"

definition inbox_entry_json :: "inbox_entry \<Rightarrow> jvalue" where
  "inbox_entry_json e = JObject (message_members (ie_message e) @
     [(''kind'', JString (ie_kind e)), (''read_ts'', json_opt (ie_read e)), (''ack_ts'', json_opt (ie_ack e))])"

definition reservation_json :: "reservation_record \<Rightarrow> jvalue" where
  "reservation_json r = JObject [(''id'', json_int (rv_id r)), (''agent_name'', JString (rv_agent r)), (''pattern'', JString (rv_pattern r)),
     (''exclusive'', JBool (rv_exclusive r)), (''reason'', json_opt (rv_reason r)), (''created_ts'', JString (rv_created r)),
     (''expires_ts'', JString (rv_expires r)), (''released_ts'', json_opt (rv_released r))]"

definition conflict_json :: "reservation_conflict \<Rightarrow> jvalue" where
  "conflict_json c = JObject [(''pattern'', JString (cf_pattern c)), (''held_by'', JString (cf_held_by c)),
     (''conflicting_pattern'', JString (cf_conflicting c)), (''reservation_id'', json_int (cf_reservation c))]"

definition store_fault :: "string \<Rightarrow> string \<Rightarrow> coord_response" where
  "store_fault what e = CoordErr err_store_unavailable (''coord: '' @ what @ '' failed: '' @ e)"

section \<open>Identity requests\<close>

text \<open>\<open>fails i\<close>: the lookup of the candidate \<open>i\<close> fails, which ends the search.\<close>

fun first_free :: "(nat \<Rightarrow> bool) \<Rightarrow> nat \<Rightarrow> nat \<Rightarrow> nat \<Rightarrow> coord_store \<Rightarrow> string option" where
  "first_free fails base i 0 s = None"
| "first_free fails base i (Suc n) s =
     (let candidate = mint ((base + i) mod 2 ^ 64)
      in if fails i then None
         else if agent_row candidate s = None then Some candidate else first_free fails base (i + 1) n s)"

definition mint_available_name :: "(nat \<Rightarrow> bool) \<Rightarrow> nat \<Rightarrow> coord_store \<Rightarrow> string option" where
  "mint_available_name fails base_seed s = first_free fails base_seed 0 (min name_space 256) s"

text \<open>
  Registering is two statements outside a transaction: \<open>fault1\<close> is a fault of the first, which takes the
  session binding from other agents, and \<open>fault2\<close> one of the second.
\<close>

definition coord_register ::
  "(nat \<Rightarrow> bool) \<Rightarrow> nat \<Rightarrow> string option \<Rightarrow> string option \<Rightarrow> jvalue \<Rightarrow> string \<Rightarrow> coord_session \<times> coord_store \<Rightarrow> coord_response \<times> coord_session \<times> coord_store" where
  "coord_register fails seed fault1 fault2 body now cs =
     (let (n, s) = cs;
          name = (case arg_str ''name'' body of
                    Some x \<Rightarrow> if is_valid_name x then Inr x
                               else Inl (CoordErr err_bad_request ''coord: 'name' must be ASCII alphanumeric, 1..=64 chars'')
                  | None \<Rightarrow> (case mint_available_name fails seed s of
                               Some x \<Rightarrow> Inr x
                             | None \<Rightarrow> Inl (CoordErr err_store_unavailable ''coord: could not mint a free agent name'')));
          sid = (case arg_str ''session_id'' body of Some i \<Rightarrow> Some i | None \<Rightarrow> cn_external n)
      in case name of
           Inl err \<Rightarrow> (err, n, s)
         | Inr name \<Rightarrow>
             (case (fault1, fault2) of
                (Some e, _) \<Rightarrow> (store_fault ''register'' e, n, s)
              | (None, Some e) \<Rightarrow> (store_fault ''register'' e, n, case sid of Some i \<Rightarrow> clear_session i name s | None \<Rightarrow> s)
              | (None, None) \<Rightarrow>
                  (case register_agent name sid (arg_str ''program'' body) (arg_str ''model'' body) (arg_str ''task'' body) now s of
                     (Some a, s1) \<Rightarrow> (CoordOk (JObject [(''agent'', agent_json a)]), n\<lparr>cn_agent := Some (ag_name a)\<rparr>, s1)
                   | (None, s1) \<Rightarrow> (store_fault ''register'' ''agent row missing immediately after register'', n, s1))))"

definition coord_list_agents :: "string option \<Rightarrow> jvalue \<Rightarrow> int \<Rightarrow> coord_store \<Rightarrow> coord_response" where
  "coord_list_agents fault body default_limit s =
     (let n = (case arg_int ''limit'' body of Some l \<Rightarrow> l | None \<Rightarrow> default_limit) in
      case fault of
        Some e \<Rightarrow> store_fault ''list'' e
      | None \<Rightarrow>
          (let arr = map agent_json (list_agents n s)
           in CoordOk (JObject [(''agents'', JArray arr), (''count'', json_int (int (length arr)))])))"

section \<open>Mail requests\<close>

text \<open>The addressees of a reply: the parent has to exist, and its sender is the default.\<close>

definition reply_target ::
  "string option \<Rightarrow> jvalue \<Rightarrow> bool \<Rightarrow> string list \<Rightarrow> string list \<Rightarrow> coord_store \<Rightarrow> coord_response + string list" where
  "reply_target lookup_fault body is_reply to cc s =
     (case (is_reply, arg_int ''reply_to'' body) of
        (True, None) \<Rightarrow> Inl (CoordErr err_bad_request (''coord: reply_message requires '' @ [CHR 0x27] @ ''reply_to'' @ [CHR 0x27]))
      | (True, Some parent_id) \<Rightarrow>
          (case lookup_fault of
             Some e \<Rightarrow> Inl (store_fault ''reply lookup'' e)
           | None \<Rightarrow>
               (case find_message parent_id s of
                  Some parent \<Rightarrow> Inr (if to = [] \<and> cc = [] then [mr_sender parent] else to)
                | None \<Rightarrow> Inl (CoordErr err_bad_request (''coord: reply_to message '' @ show_int parent_id @ '' not found''))))
      | (False, Some _) \<Rightarrow>
          Inl (CoordErr err_bad_request ''coord: use reply_message (not send_message) to reply within a thread'')
      | (False, None) \<Rightarrow> Inr to)"

definition coord_send ::
  "string option \<Rightarrow> string option \<Rightarrow> jvalue \<Rightarrow> string \<Rightarrow> bool \<Rightarrow> coord_store \<Rightarrow> coord_response \<times> coord_store" where
  "coord_send lookup_fault fault body now is_reply s =
     (case arg_str ''sender'' body of
        None \<Rightarrow> (CoordErr err_bad_request ''coord: 'sender' is required'', s)
      | Some sender \<Rightarrow>
          if \<not> is_valid_name sender then (CoordErr err_bad_request ''coord: 'sender' is not a valid name'', s)
          else
            (let subject = (case arg_str ''subject'' body of Some t \<Rightarrow> t | None \<Rightarrow> []);
                 text = (case arg_str ''body'' body of Some t \<Rightarrow> t | None \<Rightarrow> []);
                 imp = importance_parse (case arg_str ''importance'' body of Some t \<Rightarrow> t | None \<Rightarrow> ''normal'');
                 ack = arg_bool ''ack_required'' False body;
                 cc = str_array ''cc'' body
             in case reply_target lookup_fault body is_reply (str_array ''to'' body) cc s of
                  Inl err \<Rightarrow> (err, s)
                | Inr to \<Rightarrow>
                    if to = [] \<and> cc = []
                    then (CoordErr err_bad_request ''coord: at least one recipient required (no broadcast)'', s)
                    else (case fault of
                            Some e \<Rightarrow> (store_fault ''send'' e, s)
                          | None \<Rightarrow>
                              (case send_message sender to cc subject text imp ack (if is_reply then arg_int ''reply_to'' body else None) now s of
                                 (Inr receipt, s1) \<Rightarrow>
                                   (CoordOk (JObject [(''message_id'', json_int (sr_message receipt)), (''thread_id'', json_int (sr_thread receipt)),
                                      (''recipients'', JArray (map JString (sr_recipients receipt)))]), s1)
                               | (Inl e, s1) \<Rightarrow> (store_fault ''send'' e, s1)))))"

definition inbox_filter_of :: "jvalue \<Rightarrow> inbox_filter" where
  "inbox_filter_of body =
     \<lparr>if_unread_only = arg_bool ''unread_only'' False body,
      if_min_importance = map_option importance_parse (arg_str ''min_importance'' body),
      if_since = arg_str ''since'' body\<rparr>"

definition coord_inbox :: "string option \<Rightarrow> jvalue \<Rightarrow> int \<Rightarrow> int \<Rightarrow> coord_store \<Rightarrow> coord_response" where
  "coord_inbox fault body default_limit max_limit s =
     (case agent_arg body of
        Inl msg \<Rightarrow> CoordErr err_bad_request msg
      | Inr agent \<Rightarrow>
          (let n = min (case arg_int ''limit'' body of Some l \<Rightarrow> l | None \<Rightarrow> default_limit) max_limit in
           case fault of
             Some e \<Rightarrow> store_fault ''fetch_inbox'' e
           | None \<Rightarrow>
               (let arr = map inbox_entry_json (fetch_inbox agent (inbox_filter_of body) n s)
                in CoordOk (JObject [(''messages'', JArray arr), (''count'', json_int (int (length arr)))]))))"

definition coord_thread :: "string option \<Rightarrow> jvalue \<Rightarrow> int \<Rightarrow> coord_store \<Rightarrow> coord_response" where
  "coord_thread fault body cap s =
     (case arg_int ''thread_id'' body of
        None \<Rightarrow> CoordErr err_bad_request ''coord: 'thread_id' is required''
      | Some t \<Rightarrow>
          (case fault of
             Some e \<Rightarrow> store_fault ''fetch_thread'' e
           | None \<Rightarrow>
               (let arr = map message_json (thread_messages t cap s)
                in CoordOk (JObject [(''thread_id'', json_int t), (''messages'', JArray arr), (''count'', json_int (int (length arr)))]))))"

definition not_recipient :: "string \<Rightarrow> int \<Rightarrow> coord_response" where
  "not_recipient agent i =
     CoordErr err_bad_request (''coord: '' @ agent @ '' is not a recipient of message '' @ show_int i)"

definition coord_mark_read :: "string option \<Rightarrow> jvalue \<Rightarrow> string \<Rightarrow> coord_store \<Rightarrow> coord_response \<times> coord_store" where
  "coord_mark_read fault body now s =
     (case read_agent_and_id body of
        Inl msg \<Rightarrow> (CoordErr err_bad_request msg, s)
      | Inr (agent, i) \<Rightarrow>
          (case fault of
             Some e \<Rightarrow> (store_fault ''mark_read'' e, s)
           | None \<Rightarrow>
               (case mark_read agent i now s of
                  (Some ts, s1) \<Rightarrow> (CoordOk (JObject [(''message_id'', json_int i), (''read_ts'', JString ts)]), s1)
                | (None, s1) \<Rightarrow> (not_recipient agent i, s1))))"

definition coord_acknowledge :: "string option \<Rightarrow> jvalue \<Rightarrow> string \<Rightarrow> coord_store \<Rightarrow> coord_response \<times> coord_store" where
  "coord_acknowledge fault body now s =
     (case read_agent_and_id body of
        Inl msg \<Rightarrow> (CoordErr err_bad_request msg, s)
      | Inr (agent, i) \<Rightarrow>
          (case fault of
             Some e \<Rightarrow> (store_fault ''acknowledge'' e, s)
           | None \<Rightarrow>
               (case acknowledge agent i now s of
                  (Some (r, a), s1) \<Rightarrow>
                    (CoordOk (JObject [(''message_id'', json_int i), (''read_ts'', json_opt r), (''ack_ts'', json_opt a)]), s1)
                | (None, s1) \<Rightarrow> (not_recipient agent i, s1))))"

section \<open>Reservation requests\<close>

definition reservation_scan_cap :: int where "reservation_scan_cap = 1000"

text \<open>\<open>as i64\<close> on an unsigned 64-bit value.\<close>

definition as_i64 :: "nat \<Rightarrow> int" where
  "as_i64 n = (if n < 2 ^ 63 then int n else int n - 2 ^ 64)"

text \<open>\<open>Ord::clamp\<close>; the configured maximum is a TOML integer and so below \<open>2 ^ 63\<close>.\<close>

definition reservation_ttl :: "jvalue \<Rightarrow> coordination_config \<Rightarrow> int" where
  "reservation_ttl body cfg =
     (let requested = (case arg_int ''ttl_secs'' body of Some t \<Rightarrow> t | None \<Rightarrow> as_i64 (cc_default_ttl cfg));
          top = as_i64 (max (cc_max_ttl cfg) 60)
      in max 60 (min requested top))"

text \<open>\<open>later now t\<close> is the timestamp \<open>t\<close> seconds after \<open>now\<close>.\<close>

definition compute_expiry :: "(string \<Rightarrow> int \<Rightarrow> string) \<Rightarrow> jvalue \<Rightarrow> coordination_config \<Rightarrow> string \<Rightarrow> string" where
  "compute_expiry later body cfg now = later now (reservation_ttl body cfg)"

definition paths_required :: coord_response where
  "paths_required = CoordErr err_bad_request ''coord: 'paths' must be a non-empty array''"

definition coord_reserve ::
  "(string \<Rightarrow> string \<Rightarrow> bool option) \<Rightarrow> (string \<Rightarrow> int \<Rightarrow> string) \<Rightarrow> string option \<Rightarrow> jvalue \<Rightarrow> coordination_config \<Rightarrow> string \<Rightarrow> coord_store
    \<Rightarrow> coord_response \<times> coord_store" where
  "coord_reserve glob later fault body cfg now s =
     (case agent_arg body of
        Inl msg \<Rightarrow> (CoordErr err_bad_request msg, s)
      | Inr agent \<Rightarrow>
          (let patterns = str_array ''paths'' body; expires = compute_expiry later body cfg now in
           if patterns = [] then (paths_required, s)
           else case fault of
                  Some e \<Rightarrow> (store_fault ''reserve'' e, s)
                | None \<Rightarrow>
                    (let ((granted, conflicts, truncated), s1) =
                           reserve_paths glob agent patterns (arg_bool ''exclusive'' True body) (arg_str ''reason'' body) now expires reservation_scan_cap s
                     in (CoordOk (JObject [(''granted'', JArray (map reservation_json granted)), (''conflicts'', JArray (map conflict_json conflicts)),
                           (''scan_truncated'', JBool truncated), (''expires_ts'', JString expires)]), s1))))"

definition coord_renew ::
  "(string \<Rightarrow> int \<Rightarrow> string) \<Rightarrow> string option \<Rightarrow> jvalue \<Rightarrow> coordination_config \<Rightarrow> string \<Rightarrow> coord_store \<Rightarrow> coord_response \<times> coord_store" where
  "coord_renew later fault body cfg now s =
     (case agent_arg body of
        Inl msg \<Rightarrow> (CoordErr err_bad_request msg, s)
      | Inr agent \<Rightarrow>
          (let expires = compute_expiry later body cfg now in
           case fault of
             Some e \<Rightarrow> (store_fault ''renew'' e, s)
           | None \<Rightarrow>
               (let (n, s1) = renew_reservations agent now expires s
                in (CoordOk (JObject [(''renewed'', json_int (int n)), (''expires_ts'', JString expires)]), s1))))"

definition coord_release :: "string option \<Rightarrow> jvalue \<Rightarrow> string \<Rightarrow> coord_store \<Rightarrow> coord_response \<times> coord_store" where
  "coord_release fault body now s =
     (case agent_arg body of
        Inl msg \<Rightarrow> (CoordErr err_bad_request msg, s)
      | Inr agent \<Rightarrow>
          (case fault of
             Some e \<Rightarrow> (store_fault ''release'' e, s)
           | None \<Rightarrow>
               (let (n, s1) = release_reservations agent (str_array ''paths'' body) now s
                in (CoordOk (JObject [(''released'', json_int (int n))]), s1))))"

definition coord_check ::
  "(string \<Rightarrow> string \<Rightarrow> bool option) \<Rightarrow> string option \<Rightarrow> jvalue \<Rightarrow> string \<Rightarrow> coord_store \<Rightarrow> coord_response" where
  "coord_check glob fault body now s =
     (case agent_arg body of
        Inl msg \<Rightarrow> CoordErr err_bad_request msg
      | Inr agent \<Rightarrow>
          (let patterns = str_array ''paths'' body in
           if patterns = [] then paths_required
           else case fault of
                  Some e \<Rightarrow> store_fault ''check_conflicts'' e
                | None \<Rightarrow>
                    (let (conflicts, truncated) = check_conflicts glob agent patterns now reservation_scan_cap s
                     in CoordOk (JObject [(''conflict_free'', JBool (conflicts = [] \<and> \<not> truncated)),
                          (''conflicts'', JArray (map conflict_json conflicts)), (''scan_truncated'', JBool truncated)]))))"

definition coord_list_reservations :: "string option \<Rightarrow> jvalue \<Rightarrow> string \<Rightarrow> coord_store \<Rightarrow> coord_response" where
  "coord_list_reservations fault body now s =
     (case agent_arg body of
        Inl msg \<Rightarrow> CoordErr err_bad_request msg
      | Inr agent \<Rightarrow>
          (let n = (case arg_int ''limit'' body of Some l \<Rightarrow> l | None \<Rightarrow> 100) in
           case fault of
             Some e \<Rightarrow> store_fault ''list_reservations'' e
           | None \<Rightarrow>
               (let rs = list_reservations agent now n s
                in CoordOk (JObject [(''reservations'', JArray (map reservation_json rs)), (''count'', json_int (int (length rs)))]))))"

section \<open>The request handler\<close>

text \<open>
  What one request meets: the parsed body or the parser's error, the state of the store when it is
  opened, the clock, and the faults of the statements it runs.
\<close>

record coord_env =
  ce_glob :: "string \<Rightarrow> string \<Rightarrow> bool option"
  ce_later :: "string \<Rightarrow> int \<Rightarrow> string"
  ce_mint_fails :: "nat \<Rightarrow> bool"
  ce_seed :: nat
  ce_now :: string
  ce_open_fault :: "string option"
  ce_lookup_fault :: "string option"
  ce_first_fault :: "string option"
  ce_fault :: "string option"

definition coord_verb ::
  "coord_env \<Rightarrow> coordination_config \<Rightarrow> string \<Rightarrow> jvalue \<Rightarrow> coord_session \<times> coord_store \<Rightarrow> coord_response \<times> coord_session \<times> coord_store" where
  "coord_verb env cfg verb body cs =
     (let (n, s) = cs; now = ce_now env; fault = ce_fault env;
          inbox_default = max (cc_inbox_default cfg) 1; inbox_max = max (cc_inbox_max cfg) 1;
          query = (\<lambda>r. (r, n, s)); update = (\<lambda>(r, s1). (r, n, s1))
      in if verb = ''register_agent'' then coord_register (ce_mint_fails env) (ce_seed env) (ce_first_fault env) fault body now (n, s)
         else if verb = ''list_agents'' then query (coord_list_agents fault body inbox_default s)
         else if verb = ''send_message'' then update (coord_send (ce_lookup_fault env) fault body now False s)
         else if verb = ''reply_message'' then update (coord_send (ce_lookup_fault env) fault body now True s)
         else if verb = ''fetch_inbox'' then query (coord_inbox fault body inbox_default inbox_max s)
         else if verb = ''fetch_thread'' then query (coord_thread fault body (max (cc_thread_max cfg) 1) s)
         else if verb = ''mark_read'' then update (coord_mark_read fault body now s)
         else if verb = ''acknowledge'' then update (coord_acknowledge fault body now s)
         else if verb = ''reserve_paths'' then update (coord_reserve (ce_glob env) (ce_later env) fault body cfg now s)
         else if verb = ''renew_reservations'' then update (coord_renew (ce_later env) fault body cfg now s)
         else if verb = ''release_reservations'' then update (coord_release fault body now s)
         else if verb = ''check_conflicts'' then query (coord_check (ce_glob env) fault body now s)
         else if verb = ''list_reservations'' then query (coord_list_reservations fault body now s)
         else query (CoordErr err_bad_request (''coord: unknown verb '' @ [CHR 0x27] @ verb @ [CHR 0x27])))"

definition coord ::
  "coord_env \<Rightarrow> coordination_config \<Rightarrow> (string + jvalue) option \<Rightarrow> coord_session \<times> coord_store \<Rightarrow> coord_response \<times> coord_session \<times> coord_store" where
  "coord env cfg request cs =
     (case request of
        None \<Rightarrow> (CoordErr err_bad_request (''coord: missing JSON body in '' @ [CHR 0x27] @ ''s'' @ [CHR 0x27]), cs)
      | Some (Inl e) \<Rightarrow> (CoordErr err_bad_request (''coord: invalid JSON body: '' @ e), cs)
      | Some (Inr body) \<Rightarrow>
          (case arg_str ''verb'' body of
             None \<Rightarrow> (CoordErr err_bad_request (''coord: missing '' @ [CHR 0x27] @ ''verb'' @ [CHR 0x27]), cs)
           | Some verb \<Rightarrow>
               if \<not> cc_enabled cfg then (CoordErr err_disabled ''coordination is disabled ([coordination] enabled=false)'', cs)
               else case ce_open_fault env of
                      Some e \<Rightarrow> (CoordErr err_store_unavailable (''coordination store unavailable: '' @ e), cs)
                    | None \<Rightarrow> coord_verb env cfg verb body cs))"

section \<open>What is reported of a request\<close>

record coordination_outcome =
  co_agent :: "string option"
  co_recipients :: "nat option"
  co_importance :: "string option"
  co_results :: "nat option"
  co_conflicts :: "nat option"

definition array_len :: "string \<Rightarrow> jvalue \<Rightarrow> nat option" where
  "array_len key d = map_option length (Option.bind (json_get key d) json_as_array)"

definition outcome_agent :: "jvalue \<Rightarrow> jvalue option \<Rightarrow> string option" where
  "outcome_agent body d =
     (case Option.bind (Option.bind (Option.bind d (json_get ''agent'')) (json_get ''name'')) json_as_str of
        Some a \<Rightarrow> Some a
      | None \<Rightarrow> Option.bind (case json_get ''sender'' body of Some v \<Rightarrow> Some v | None \<Rightarrow> json_get ''agent'' body) json_as_str)"

definition outcome_of :: "string \<Rightarrow> jvalue \<Rightarrow> coord_response \<Rightarrow> coordination_outcome" where
  "outcome_of verb body response =
     (let d = (case response of CoordOk v \<Rightarrow> Some v | CoordErr _ _ \<Rightarrow> None);
          count_of = (\<lambda>key. Option.bind (Option.bind d (json_get key)) json_as_u64);
          arr_len = (\<lambda>key. Option.bind d (array_len key));
          len_or_0 = (\<lambda>key. case array_len key body of Some n \<Rightarrow> n | None \<Rightarrow> 0);
          addressed = len_or_0 ''to'' + len_or_0 ''cc'';
          outcome = \<lparr>co_agent = outcome_agent body d, co_recipients = None, co_importance = None, co_results = None, co_conflicts = None\<rparr>
      in if verb \<in> {''send_message'', ''reply_message''} then
           outcome\<lparr>co_recipients := (case arr_len ''recipients'' of Some n \<Rightarrow> Some n | None \<Rightarrow> if 0 < addressed then Some addressed else None),
                   co_importance := map_option (importance_str \<circ> importance_parse) (arg_str ''importance'' body)\<rparr>
         else if verb \<in> {''fetch_inbox'', ''fetch_thread'', ''list_agents'', ''list_reservations''} then
           outcome\<lparr>co_results := count_of ''count''\<rparr>
         else if verb = ''reserve_paths'' then
           outcome\<lparr>co_results := arr_len ''granted'', co_conflicts := arr_len ''conflicts''\<rparr>
         else if verb = ''check_conflicts'' then outcome\<lparr>co_conflicts := arr_len ''conflicts''\<rparr>
         else outcome)"

section \<open>Failed requests\<close>

lemmas error_codes = err_disabled_def err_bad_request_def err_store_unavailable_def

fun error_code :: "coord_response \<Rightarrow> nat option" where
  "error_code (CoordErr code _) = Some code"
| "error_code (CoordOk _) = None"

definition known_error :: "coord_response \<Rightarrow> bool" where
  "known_error r \<longleftrightarrow> (case error_code r of Some c \<Rightarrow> c \<in> {err_disabled, err_bad_request, err_store_unavailable} | None \<Rightarrow> True)"

lemma known_error_simps [simp]:
  "known_error (CoordOk d)" "known_error (store_fault what e)" "known_error (CoordErr err_bad_request m)"
  "known_error (CoordErr err_disabled m)" "known_error (CoordErr err_store_unavailable m)"
  "known_error paths_required" "known_error (not_recipient a i)"
  by (simp_all add: known_error_def store_fault_def paths_required_def not_recipient_def)

lemma failing_simps [simp]:
  "error_code (store_fault what e) = Some err_store_unavailable" "error_code (not_recipient a i) = Some err_bad_request"
  "error_code paths_required = Some err_bad_request"
  by (simp_all add: store_fault_def not_recipient_def paths_required_def)

text \<open>What a handler that updates the store promises: its answer is an answer or a known error, and with an error the store is unchanged.\<close>

definition guarded :: "coord_store \<Rightarrow> coord_response \<times> coord_store \<Rightarrow> bool" where
  "guarded s rs \<longleftrightarrow> known_error (fst rs) \<and> (error_code (fst rs) \<noteq> None \<longrightarrow> snd rs = s)"

lemma find_none_map:
  assumes "List.find P xs = None" and "\<And>x. \<not> P x \<Longrightarrow> f x = x"
  shows "map f xs = xs"
  using assms by (induction xs) (auto split: if_splits)

lemma find_holds: "List.find P xs = Some x \<Longrightarrow> P x"
  by (induction xs) (auto split: if_splits)

lemma mark_read_not_recipient: "mark_read agent i now s = (None, s1) \<Longrightarrow> s1 = s"
proof -
  assume m: "mark_read agent i now s = (None, s1)"
  define f where "f = (\<lambda>r :: recipient_row. if rc_message r = i \<and> rc_agent r = agent \<and> rc_read r = None then r\<lparr>rc_read := Some now\<rparr> else r)"
  have s1: "s1 = s\<lparr>cs_recipients := map f (cs_recipients s)\<rparr>" and none: "Option.bind (recipient_row_of agent i s1) rc_read = None"
    using m by (auto simp: mark_read_def Let_def f_def)
  have find: "List.find (\<lambda>r. rc_message r = i \<and> rc_agent r = agent) (map f rs) =
      map_option f (List.find (\<lambda>r. rc_message r = i \<and> rc_agent r = agent) rs)" for rs
    by (induction rs) (auto simp: f_def)
  have "rc_read (f r) \<noteq> None" if "rc_message r = i" "rc_agent r = agent" for r using that by (auto simp: f_def)
  note set_mark = this
  have "List.find (\<lambda>r. rc_message r = i \<and> rc_agent r = agent) (cs_recipients s) = None"
  proof (cases "List.find (\<lambda>r. rc_message r = i \<and> rc_agent r = agent) (cs_recipients s)")
    case (Some r)
    with find_holds [OF Some] set_mark [of r] none find [of "cs_recipients s"] show ?thesis by (simp add: recipient_row_of_def s1)
  qed
  then have "map f (cs_recipients s) = cs_recipients s" by (rule find_none_map) (auto simp: f_def)
  with s1 show "s1 = s" by simp
qed

lemma acknowledge_not_recipient: "acknowledge agent i now s = (None, s1) \<Longrightarrow> s1 = s"
proof -
  assume m: "acknowledge agent i now s = (None, s1)"
  define f where "f = (\<lambda>r :: recipient_row. if rc_message r = i \<and> rc_agent r = agent
     then r\<lparr>rc_read := coalesce (rc_read r) (Some now), rc_ack := coalesce (rc_ack r) (Some now)\<rparr> else r)"
  have s1: "s1 = s\<lparr>cs_recipients := map f (cs_recipients s)\<rparr>" and none: "recipient_row_of agent i s1 = None"
    using m by (auto simp: acknowledge_def Let_def f_def)
  have find: "List.find (\<lambda>r. rc_message r = i \<and> rc_agent r = agent) (map f rs) =
      map_option f (List.find (\<lambda>r. rc_message r = i \<and> rc_agent r = agent) rs)" for rs
    by (induction rs) (auto simp: f_def)
  have "List.find (\<lambda>r. rc_message r = i \<and> rc_agent r = agent) (cs_recipients s) = None"
    using none find [of "cs_recipients s"] by (simp add: recipient_row_of_def s1)
  then have "map f (cs_recipients s) = cs_recipients s" by (rule find_none_map) (auto simp: f_def)
  with s1 show "s1 = s" by simp
qed

lemma send_guarded: "guarded s (coord_send lookup_fault fault body now is_reply s)"
proof -
  have target: "reply_target lookup_fault body is_reply to cc s = Inl r \<Longrightarrow> known_error r \<and> error_code r \<noteq> None" for to cc r
    by (auto simp: reply_target_def split: if_splits option.splits bool.splits)
  have refused: "send_message sender to cc subject content imp ack reply_to now s = (Inl e, s1) \<Longrightarrow> s1 = s"
    for sender to cc subject content imp ack reply_to e s1
    by (cases rule: send_cases [of sender to cc subject content imp ack reply_to now s]) auto
  show ?thesis
  proof (cases "arg_str ''sender'' body")
    case None
    then show ?thesis by (simp add: coord_send_def guarded_def)
  next
    case (Some sender)
    show ?thesis
    proof (cases "reply_target lookup_fault body is_reply (str_array ''to'' body) (str_array ''cc'' body) s")
      case (Inl r)
      with Some target [OF Inl] show ?thesis by (simp add: coord_send_def guarded_def Let_def)
    next
      case (Inr to)
      obtain r s1 where send: "send_message sender to (str_array ''cc'' body) (case arg_str ''subject'' body of Some t \<Rightarrow> t | None \<Rightarrow> [])
          (case arg_str ''body'' body of Some t \<Rightarrow> t | None \<Rightarrow> [])
          (importance_parse (case arg_str ''importance'' body of Some t \<Rightarrow> t | None \<Rightarrow> ''normal''))
          (arg_bool ''ack_required'' False body) (if is_reply then arg_int ''reply_to'' body else None) now s = (r, s1)"
        by (rule prod.exhaust)
      have "s1 = s" if "r = Inl e" for e using refused send that by metis
      with Some Inr send show ?thesis
        by (cases r; cases fault) (simp_all add: coord_send_def guarded_def Let_def)
    qed
  qed
qed

lemma mail_guarded:
  "guarded s (coord_mark_read fault body now s)" "guarded s (coord_acknowledge fault body now s)"
  by (auto simp: coord_mark_read_def coord_acknowledge_def guarded_def split: sum.split option.split prod.split
      dest: mark_read_not_recipient acknowledge_not_recipient)

lemma reservation_guarded:
  "guarded s (coord_reserve glob later fault body cfg now s)" "guarded s (coord_renew later fault body cfg now s)"
  "guarded s (coord_release fault body now s)"
  by (auto simp: coord_reserve_def coord_renew_def coord_release_def guarded_def Let_def split: sum.split option.split prod.split)

lemma query_known:
  "known_error (coord_list_agents fault body l s)" "known_error (coord_inbox fault body l m s)" "known_error (coord_thread fault body c s)"
  "known_error (coord_check glob fault body now s)" "known_error (coord_list_reservations fault body now s)"
  by (auto simp: coord_list_agents_def coord_inbox_def coord_thread_def coord_check_def coord_list_reservations_def Let_def
      split: sum.split option.split prod.split)

lemma registered: "fst (register_agent name sid program model task now s) \<noteq> None"
proof -
  have "\<exists>a \<in> set (cs_agents (upsert_agent name sid program model task now t)). ag_name a = name" for t
  proof (cases "list_ex (\<lambda>a. ag_name a = name) (cs_agents t)")
    case True
    then obtain a where "a \<in> set (cs_agents t)" "ag_name a = name" by (auto simp: list_ex_iff)
    define f where "f = (\<lambda>a :: agent_record. if ag_name a = name
       then a\<lparr>ag_session := coalesce sid (ag_session a), ag_program := coalesce program (ag_program a),
              ag_model := coalesce model (ag_model a), ag_task := coalesce task (ag_task a), ag_last_seen := now\<rparr> else a)"
    have "cs_agents (upsert_agent name sid program model task now t) = map f (cs_agents t)"
      using True by (simp add: upsert_agent_def f_def)
    moreover have "ag_name (f a) = name" using \<open>ag_name a = name\<close> by (simp add: f_def)
    ultimately show ?thesis using \<open>a \<in> set (cs_agents t)\<close> by (intro bexI [of _ "f a"]) simp_all
  qed (simp add: upsert_agent_def)
  then show ?thesis
    unfolding register_agent_def Let_def agent_row_def by (simp add: find_None_iff) blast
qed

lemma register_known:
  "known_error (fst (coord_register fails seed f1 f2 body now (n, s)))
   \<and> (error_code (fst (coord_register fails seed f1 f2 body now (n, s))) \<noteq> None \<longrightarrow> f2 = None \<or> f1 \<noteq> None
        \<longrightarrow> snd (coord_register fails seed f1 f2 body now (n, s)) = (n, s))"
proof -
  have "register_agent name sid program model task now s \<noteq> (None, s1)" for name sid program model task s1
    using registered by (metis fst_conv)
  then show ?thesis
    by (auto simp: coord_register_def Let_def split: option.split sum.split prod.split)
qed

section \<open>Requests are operations on the tables\<close>

text \<open>What a request leaves of the store: itself, the result of one operation, or a cleared session binding.\<close>

definition request_effect :: "coord_store \<Rightarrow> coord_store \<Rightarrow> bool" where
  "request_effect s s' \<longleftrightarrow> s' = s \<or> (\<exists>op. s' = coord_step op s) \<or> (\<exists>i name. s' = clear_session i name s)"

lemma effect_same [simp]: "request_effect s s"
  by (simp add: request_effect_def)

lemma effect_clear [simp]: "request_effect s (clear_session i name s)"
  by (auto simp: request_effect_def)

lemma effect_step: "s' = coord_step op s \<Longrightarrow> request_effect s s'"
  by (auto simp: request_effect_def)

lemma effect_ops:
  "register_agent name sid program model task now s = (a, s1) \<Longrightarrow> request_effect s s1"
  "send_message sender to cc subject content imp ack reply_to now s = (b, s1) \<Longrightarrow> request_effect s s1"
  "mark_read agent i now s = (c, s1) \<Longrightarrow> request_effect s s1"
  "acknowledge agent i now s = (d, s1) \<Longrightarrow> request_effect s s1"
  "reserve_paths glob agent patterns exclusive reason now expires cap s = (e, s1) \<Longrightarrow> request_effect s s1"
  "renew_reservations agent now expires s = (k, s1) \<Longrightarrow> request_effect s s1"
  "release_reservations agent patterns now s = (k, s1) \<Longrightarrow> request_effect s s1"
proof -
  show "register_agent name sid program model task now s = (a, s1) \<Longrightarrow> request_effect s s1"
    by (rule effect_step [of _ "OpRegister name sid program model task now"]) simp
  show "send_message sender to cc subject content imp ack reply_to now s = (b, s1) \<Longrightarrow> request_effect s s1"
    by (rule effect_step [of _ "OpSend sender to cc subject content imp ack reply_to now"]) simp
  show "mark_read agent i now s = (c, s1) \<Longrightarrow> request_effect s s1" by (rule effect_step [of _ "OpRead agent i now"]) simp
  show "acknowledge agent i now s = (d, s1) \<Longrightarrow> request_effect s s1" by (rule effect_step [of _ "OpAcknowledge agent i now"]) simp
  show "reserve_paths glob agent patterns exclusive reason now expires cap s = (e, s1) \<Longrightarrow> request_effect s s1"
    by (rule effect_step [of _ "OpReserve agent patterns exclusive reason now expires"])
      (auto simp: reserve_paths_def Let_def split: prod.splits)
  show "renew_reservations agent now expires s = (k, s1) \<Longrightarrow> request_effect s s1" by (rule effect_step [of _ "OpRenew agent now expires"]) simp
  show "release_reservations agent patterns now s = (k, s1) \<Longrightarrow> request_effect s s1" by (rule effect_step [of _ "OpRelease agent patterns now"]) simp
qed

lemma register_effect: "request_effect s (snd (snd (coord_register fails seed f1 f2 body now (n, s))))"
  by (auto simp: coord_register_def Let_def split: option.split sum.split prod.split dest: effect_ops(1))

lemma send_effect: "request_effect s (snd (coord_send lf fault body now is_reply s))"
proof (cases "arg_str ''sender'' body")
  case (Some sender)
  show ?thesis
  proof (cases "reply_target lf body is_reply (str_array ''to'' body) (str_array ''cc'' body) s")
    case (Inl r)
    with Some show ?thesis by (simp add: coord_send_def Let_def)
  next
    case (Inr to)
    obtain r s1 where send: "send_message sender to (str_array ''cc'' body) (case arg_str ''subject'' body of Some t \<Rightarrow> t | None \<Rightarrow> [])
        (case arg_str ''body'' body of Some t \<Rightarrow> t | None \<Rightarrow> [])
        (importance_parse (case arg_str ''importance'' body of Some t \<Rightarrow> t | None \<Rightarrow> ''normal''))
        (arg_bool ''ack_required'' False body) (if is_reply then arg_int ''reply_to'' body else None) now s = (r, s1)"
      by (rule prod.exhaust)
    from effect_ops(2) [OF send] Some Inr send show ?thesis
      by (cases r; cases fault) (simp_all add: coord_send_def Let_def)
  qed
qed (simp add: coord_send_def)

lemma other_effects:
  "request_effect s (snd (coord_mark_read fault body now s))" "request_effect s (snd (coord_acknowledge fault body now s))"
  "request_effect s (snd (coord_reserve glob later fault body cfg now s))" "request_effect s (snd (coord_renew later fault body cfg now s))"
  "request_effect s (snd (coord_release fault body now s))"
  by (auto simp: coord_mark_read_def coord_acknowledge_def coord_reserve_def coord_renew_def coord_release_def Let_def
      split: sum.split option.split prod.split dest: effect_ops(3-7))

lemmas handler_effects = register_effect send_effect other_effects

lemma case_prod_update [simp]: "snd (snd ((\<lambda>(r, s1). (r, n, s1)) p)) = snd p" "fst ((\<lambda>(r, s1). (r, n, s1)) p) = fst p"
  "fst (snd ((\<lambda>(r, s1). (r, n, s1)) p)) = n"
  by (simp_all split: prod.split)

lemma coord_effect: "request_effect s (snd (snd (coord env cfg request (n, s))))"
proof -
  have "request_effect s (snd (snd (coord_verb env cfg verb body (n, s))))" for verb body
    unfolding coord_verb_def Let_def by (simp add: handler_effects)
  then show ?thesis unfolding coord_def by (auto split: option.split sum.split)
qed

lemma effect_wf: "store_wf s \<Longrightarrow> request_effect s s' \<Longrightarrow> store_wf s'"
  using coord_step_wf clear_session_wf by (fastforce simp: request_effect_def store_wf_def clear_session_def)

section \<open>Threads\<close>

text \<open>Every message belongs to a thread whose root is a stored message that started it.\<close>

definition threads_rooted :: "coord_store \<Rightarrow> bool" where
  "threads_rooted s \<longleftrightarrow> (\<forall>m \<in> set (cs_messages s). \<exists>r \<in> set (cs_messages s). mr_id r = mr_thread m \<and> mr_thread r = mr_id r)"

lemma threads_same: "threads_rooted s \<Longrightarrow> cs_messages s' = cs_messages s \<Longrightarrow> threads_rooted s'"
  by (simp add: threads_rooted_def)

lemma threads_send:
  assumes rooted: "threads_rooted s" and "\<And>pid. reply_to = Some pid \<Longrightarrow> find_message pid s \<noteq> None"
  shows "threads_rooted (snd (send_message sender to cc subject content imp ack reply_to now s))"
proof (cases rule: send_cases [of sender to cc subject content imp ack reply_to now s])
  case (refused err)
  with rooted show ?thesis by simp
next
  case (sent mid thread)
  show ?thesis
  proof (cases reply_to)
    case None
    with rooted sent show ?thesis unfolding threads_rooted_def sent(4) by auto
  next
    case (Some pid)
    with assms(2) obtain parent where p: "find_message pid s = Some parent" by auto
    then have "parent \<in> set (cs_messages s)" by (auto simp: find_message_def find_Some_iff)
    then obtain root where "root \<in> set (cs_messages s)" "mr_id root = mr_thread parent" "mr_thread root = mr_id root"
      using rooted unfolding threads_rooted_def by blast
    moreover have "thread = mr_thread parent" using sent(2) Some p by (simp add: thread_id_of_def)
    ultimately show ?thesis using rooted unfolding threads_rooted_def sent(4) by auto
  qed
qed

lemma reply_target_found:
  "reply_target lf body True to cc s = Inr to' \<Longrightarrow> arg_int ''reply_to'' body = Some pid \<Longrightarrow> find_message pid s \<noteq> None"
  by (auto simp: reply_target_def split: option.splits)

lemma threads_coord_send: "threads_rooted s \<Longrightarrow> threads_rooted (snd (coord_send lf fault body now is_reply s))"
proof (cases "arg_str ''sender'' body")
  case (Some sender)
  assume rooted: "threads_rooted s"
  show ?thesis
  proof (cases "reply_target lf body is_reply (str_array ''to'' body) (str_array ''cc'' body) s")
    case (Inl r)
    with Some rooted show ?thesis by (simp add: coord_send_def Let_def)
  next
    case (Inr to)
    define content where "content = (case arg_str ''body'' body of Some t \<Rightarrow> t | None \<Rightarrow> [])"
    obtain r s1 where send: "send_message sender to (str_array ''cc'' body) (case arg_str ''subject'' body of Some t \<Rightarrow> t | None \<Rightarrow> [])
        content (importance_parse (case arg_str ''importance'' body of Some t \<Rightarrow> t | None \<Rightarrow> ''normal''))
        (arg_bool ''ack_required'' False body) (if is_reply then arg_int ''reply_to'' body else None) now s = (r, s1)"
      by (rule prod.exhaust)
    have found: "find_message pid s \<noteq> None" if "(if is_reply then arg_int ''reply_to'' body else None) = Some pid" for pid
      using that Inr reply_target_found [of lf body "str_array ''to'' body" "str_array ''cc'' body" s to pid] by (cases is_reply) simp_all
    have "threads_rooted (snd (r, s1))" unfolding send [symmetric] by (rule threads_send [OF rooted]) (rule found)
    then have "threads_rooted s1" by simp
    with Some Inr send rooted show ?thesis
      by (cases r; cases fault) (simp_all add: coord_send_def Let_def content_def)
  qed
qed (simp add: coord_send_def)

lemma insert_reservations_messages: "cs_messages (snd (insert_reservations a e r c x ps t)) = cs_messages t"
  by (induction a e r c x ps t rule: insert_reservations.induct) (simp_all add: Let_def case_prod_beta)

lemma quiet_ops:
  "register_agent name sid program model task now s = (a, s1) \<Longrightarrow> cs_messages s1 = cs_messages s"
  "mark_read agent i now s = (c, s1) \<Longrightarrow> cs_messages s1 = cs_messages s"
  "acknowledge agent i now s = (d, s1) \<Longrightarrow> cs_messages s1 = cs_messages s"
  "reserve_paths glob agent patterns exclusive reason now expires cap s = (e, s1) \<Longrightarrow> cs_messages s1 = cs_messages s"
  "renew_reservations agent now expires s = (k, s1) \<Longrightarrow> cs_messages s1 = cs_messages s"
  "release_reservations agent patterns now s = (k, s1) \<Longrightarrow> cs_messages s1 = cs_messages s"
proof -
  show "register_agent name sid program model task now s = (a, s1) \<Longrightarrow> cs_messages s1 = cs_messages s"
    using register_other(1) by (metis snd_conv)
  show "release_reservations agent patterns now s = (k, s1) \<Longrightarrow> cs_messages s1 = cs_messages s"
    using release_patterns_other [of agent patterns now s] by (auto simp: release_reservations_def update_reservations_def split: if_splits)
  show "reserve_paths glob agent patterns exclusive reason now expires cap s = (e, s1) \<Longrightarrow> cs_messages s1 = cs_messages s"
    using insert_reservations_messages [of agent exclusive reason now expires patterns s]
    by (auto simp: reserve_paths_def Let_def split: prod.splits)
qed (auto simp: mark_read_def acknowledge_def renew_reservations_def update_reservations_def Let_def)

lemma quiet_handlers:
  "cs_messages (snd (snd (coord_register fails seed f1 f2 body now (n, s)))) = cs_messages s"
  "cs_messages (snd (coord_mark_read fault body now s)) = cs_messages s" "cs_messages (snd (coord_acknowledge fault body now s)) = cs_messages s"
  "cs_messages (snd (coord_reserve glob later fault body cfg now s)) = cs_messages s"
  "cs_messages (snd (coord_renew later fault body cfg now s)) = cs_messages s" "cs_messages (snd (coord_release fault body now s)) = cs_messages s"
proof -
  show "cs_messages (snd (snd (coord_register fails seed f1 f2 body now (n, s)))) = cs_messages s"
    by (auto simp: coord_register_def Let_def clear_session_def split: option.split sum.split prod.split dest: quiet_ops(1))
qed (auto simp: coord_mark_read_def coord_acknowledge_def coord_reserve_def coord_renew_def coord_release_def Let_def
      split: sum.split option.split prod.split dest: quiet_ops(2-6))

lemma coord_threads: "threads_rooted s \<Longrightarrow> threads_rooted (snd (snd (coord env cfg request (n, s))))"
proof -
  assume rooted: "threads_rooted s"
  note quiet = quiet_handlers [THEN threads_same [OF rooted]]
  have "threads_rooted (snd (snd (coord_verb env cfg verb body (n, s))))" for verb body
    unfolding coord_verb_def Let_def by (simp add: rooted quiet threads_coord_send [OF rooted])
  with rooted show ?thesis unfolding coord_def by (auto split: option.split sum.split)
qed

section \<open>Sequences of requests\<close>

definition coord_requests ::
  "coordination_config \<Rightarrow> (coord_env \<times> (string + jvalue) option) list \<Rightarrow> coord_session \<times> coord_store \<Rightarrow> coord_session \<times> coord_store" where
  "coord_requests cfg rs cs = fold (\<lambda>(env, request) cs. snd (coord env cfg request cs)) rs cs"

lemma coord_requests_simps [simp]:
  "coord_requests cfg [] cs = cs"
  "coord_requests cfg ((env, request) # rs) cs = coord_requests cfg rs (snd (coord env cfg request cs))"
  by (simp_all add: coord_requests_def)

text \<open>
  Property C27. However many requests arrive, whatever they hold and whatever faults the statements meet,
  the tables stay well formed and every stored message belongs to a thread whose root is a stored message.
\<close>

theorem requests_keep_threads_rooted:
  assumes "store_wf s" "threads_rooted s"
  shows "store_wf (snd (coord_requests cfg rs (n, s))) \<and> threads_rooted (snd (coord_requests cfg rs (n, s)))"
  using assms
proof (induction rs arbitrary: n s)
  case (Cons r rs)
  obtain env request where r: "r = (env, request)" by (rule prod.exhaust)
  obtain n' s' where step: "snd (coord env cfg request (n, s)) = (n', s')" by (rule prod.exhaust)
  have "store_wf s'" "threads_rooted s'"
    using effect_wf [OF Cons.prems(1) coord_effect [of s env cfg request n]] coord_threads [OF Cons.prems(2), of env cfg request n] step
    by simp_all
  with Cons.IH r step show ?case by simp
qed simp

text \<open>A sample environment without faults and a configuration with the defaults of the program.\<close>

definition sample_coord_env :: coord_env where
  "sample_coord_env = \<lparr>ce_glob = (\<lambda>p q. Some (p = q)), ce_later = (\<lambda>now t. now @ show_int t), ce_mint_fails = (\<lambda>i. False), ce_seed = 7, ce_now = ''T1'',
     ce_open_fault = None, ce_lookup_fault = None, ce_first_fault = None, ce_fault = None\<rparr>"

definition sample_coord_config :: coordination_config where
  "sample_coord_config = \<lparr>cc_enabled = True, cc_default_ttl = 3600, cc_max_ttl = 86400, cc_inbox_default = 50, cc_inbox_max = 500,
     cc_thread_max = 500\<rparr>"

definition sample_send :: "string \<Rightarrow> string \<Rightarrow> string \<Rightarrow> jvalue" where
  "sample_send verb sender to = JObject [(''verb'', JString verb), (''sender'', JString sender), (''to'', JArray [JString to]),
     (''subject'', JString ''hello'')]"

definition sample_coord_session :: coord_session where
  "sample_coord_session = \<lparr>cn_external = None, cn_agent = None\<rparr>"

theorem requests_keep_threads_rooted_witness:
  "let s = snd (coord_requests sample_coord_config [(sample_coord_env, Some (Inr (sample_send ''send_message'' ''Ann'' ''Bob''))),
       (sample_coord_env, Some (Inl ''eof''))] (sample_coord_session, empty_coord))
   in store_wf s \<and> threads_rooted s \<and> length (cs_messages s) = 1"
proof -
  let ?rs = "[(sample_coord_env, Some (Inr (sample_send ''send_message'' ''Ann'' ''Bob''))), (sample_coord_env, Some (Inl ''eof''))]"
  have "threads_rooted empty_coord" by (simp add: threads_rooted_def empty_coord_def)
  note kept = requests_keep_threads_rooted [OF empty_coord_wf this, of sample_coord_config ?rs sample_coord_session]
  have "length (cs_messages (snd (coord_requests sample_coord_config ?rs (sample_coord_session, empty_coord)))) = 1" by code_simp
  with kept show ?thesis by (simp add: Let_def)
qed

section \<open>What a failed request leaves\<close>

lemma case_prod_guarded:
  "guarded s p \<Longrightarrow> known_error (fst ((\<lambda>(r, s1). (r, n, s1)) p)) \<and>
     (error_code (fst ((\<lambda>(r, s1). (r, n, s1)) p)) \<noteq> None \<longrightarrow> snd ((\<lambda>(r, s1). (r, n, s1)) p) = (n, s))"
  by (cases p) (simp add: guarded_def)

definition registers :: "(string + jvalue) option \<Rightarrow> bool" where
  "registers request \<longleftrightarrow> (case request of Some (Inr body) \<Rightarrow> arg_str ''verb'' body = Some ''register_agent'' | _ \<Rightarrow> False)"

lemma verb_failure:
  assumes "verb = ''register_agent'' \<longrightarrow> ce_fault env = None \<or> ce_first_fault env \<noteq> None"
  shows "known_error (fst (coord_verb env cfg verb body (n, s)))
     \<and> (error_code (fst (coord_verb env cfg verb body (n, s))) \<noteq> None \<longrightarrow> snd (coord_verb env cfg verb body (n, s)) = (n, s))"
proof (cases "verb = ''register_agent''")
  case True
  with assms register_known [of "ce_mint_fails env" "ce_seed env" "ce_first_fault env" "ce_fault env" body "ce_now env" n s] show ?thesis
    unfolding coord_verb_def Let_def by simp
next
  case False
  note updates = case_prod_guarded [OF send_guarded] case_prod_guarded [OF mail_guarded(1)] case_prod_guarded [OF mail_guarded(2)]
    case_prod_guarded [OF reservation_guarded(1)] case_prod_guarded [OF reservation_guarded(2)] case_prod_guarded [OF reservation_guarded(3)]
  from False show ?thesis unfolding coord_verb_def Let_def prod.case by (simp add: updates query_known del: case_prod_update)
qed



text \<open>
  Observation. A message whose only addressee is its sender passes the checks of the request, and the refusal
  of the store is then reported as an unavailable store.
\<close>

theorem self_addressed_message_reported_as_store_fault:
  "fst (coord sample_coord_env sample_coord_config (Some (Inr (sample_send ''send_message'' ''Ann'' ''Ann''))) (sample_coord_session, empty_coord))
   = CoordErr err_store_unavailable ''coord: send failed: send_message requires at least one recipient (no broadcast)''"
  by code_simp

section \<open>Minted names\<close>

lemma mint_parts:
  "\<exists>a \<in> set adjectives. \<exists>b \<in> set nouns. mint seed = a @ b"
proof -
  have "0 < length adjectives" "0 < length nouns" by (simp_all add: adjectives_def nouns_def)
  then have "adjectives ! (k mod length adjectives) \<in> set adjectives" "nouns ! (k mod length nouns) \<in> set nouns" for k
    by simp_all
  then show ?thesis unfolding mint_def Let_def by blast
qed

lemma words_alphanumeric:
  "list_all (\<lambda>w. list_all ascii_alphanumeric w \<and> length w \<le> 7 \<and> w \<noteq> []) adjectives"
  "list_all (\<lambda>w. list_all ascii_alphanumeric w \<and> length w \<le> 7 \<and> w \<noteq> []) nouns"
  by code_simp+

lemma mint_valid: "is_valid_name (mint seed)"
  using mint_parts [of seed] words_alphanumeric by (fastforce simp: is_valid_name_def list_all_iff)

lemma first_free_free: "first_free fails base i k s = Some name \<Longrightarrow> (\<exists>seed. name = mint seed) \<and> agent_row name s = None"
  by (induction fails base i k s rule: first_free.induct) (auto simp: Let_def split: if_splits)

lemma first_free_none:
  "first_free fails base i k s = None \<Longrightarrow> \<forall>j < k. \<not> fails (i + j) \<Longrightarrow> j < k \<Longrightarrow> agent_row (mint ((base + (i + j)) mod 2 ^ 64)) s \<noteq> None"
proof (induction fails base i k s arbitrary: j rule: first_free.induct)
  case (2 fails base i k s)
  have "\<not> fails i" "\<forall>j < k. \<not> fails (i + 1 + j)" using "2.prems"(2) by (auto dest: spec [of _ "0 :: nat"] spec [of _ "Suc _"])
  with 2 show ?case by (cases j) (auto simp: Let_def split: if_splits)
qed simp

text \<open>
  Observation. A name minted for a new agent is a valid name that no registered agent has, and when every lookup
  succeeds the search gives up only when the first 256 candidates are all taken.
\<close>

theorem minted_name_valid_and_free:
  "case mint_available_name fails seed s of
     Some name \<Rightarrow> is_valid_name name \<and> agent_row name s = None
   | None \<Rightarrow> (\<exists>i < 256. fails i) \<or> (\<forall>i. i < 256 \<longrightarrow> agent_row (mint ((seed + i) mod 2 ^ 64)) s \<noteq> None)"
proof (cases "mint_available_name fails seed s")
  case (Some name)
  then show ?thesis using first_free_free [of fails seed 0 _ s name] mint_valid by (auto simp: mint_available_name_def)
next
  case None
  have "min name_space 256 = 256" by (simp add: name_space_def adjectives_def nouns_def)
  with None first_free_none [of fails seed 0 256 s] show ?thesis by (auto simp: mint_available_name_def)
qed

theorem minted_name_valid_and_free_witness:
  "\<exists>name. mint_available_name (\<lambda>i. False) 7 empty_coord = Some name \<and> is_valid_name name \<and> agent_row name empty_coord = None"
proof -
  have "mint_available_name (\<lambda>i. False) 7 empty_coord \<noteq> None" by code_simp
  with minted_name_valid_and_free [of "\<lambda>i. False" 7 empty_coord] show ?thesis by (auto split: option.splits)
qed

section \<open>Lifetimes of reservations\<close>

text \<open>
  Observation. Whatever lifetime a request asks for, a negative or an overflowing one included, a reservation lives at
  least a minute and at most the configured maximum, or a minute when that is less.
\<close>

theorem reservation_ttl_bounds:
  assumes "cc_max_ttl cfg < 2 ^ 63"
  shows "60 \<le> reservation_ttl body cfg \<and> reservation_ttl body cfg \<le> max 60 (int (cc_max_ttl cfg))"
  using assms by (auto simp: reservation_ttl_def as_i64_def Let_def split: option.split)

theorem reservation_ttl_bounds_witness:
  "60 \<le> reservation_ttl (JObject [(''ttl_secs'', JNumber ''-5'')]) sample_coord_config
   \<and> reservation_ttl (JObject [(''ttl_secs'', JNumber ''-5'')]) sample_coord_config \<le> 86400"
  using reservation_ttl_bounds [of sample_coord_config "JObject [(''ttl_secs'', JNumber ''-5'')]"] by (simp add: sample_coord_config_def)

section \<open>Reports do not depend on contents\<close>

text \<open>The report of a request, from the verb on, when the body has one.\<close>

definition reported :: "coord_env \<Rightarrow> coordination_config \<Rightarrow> jvalue \<Rightarrow> coord_session \<times> coord_store \<Rightarrow> coordination_outcome option" where
  "reported env cfg body cs =
     map_option (\<lambda>verb. outcome_of verb body (fst (coord env cfg (Some (Inr body)) cs))) (arg_str ''verb'' body)"

definition content_keys :: "string set" where
  "content_keys = {''subject'', ''body'', ''reason''}"

definition same_but_content :: "jvalue \<Rightarrow> jvalue \<Rightarrow> bool" where
  "same_but_content b1 b2 \<longleftrightarrow> (\<forall>key. key \<notin> content_keys \<longrightarrow> json_get key b1 = json_get key b2)"

lemma same_args:
  assumes "same_but_content b1 b2" "key \<notin> content_keys"
  shows "json_get key b1 = json_get key b2" "arg_str key b1 = arg_str key b2" "arg_int key b1 = arg_int key b2"
    "arg_bool key a b1 = arg_bool key a b2" "str_array key b1 = str_array key b2" "array_len key b1 = array_len key b2"
  using assms unfolding same_but_content_def by (simp_all add: arg_str_def arg_int_def arg_bool_def str_array_def array_len_def)

lemma same_keys:
  assumes "same_but_content b1 b2"
  shows "arg_str ''verb'' b1 = arg_str ''verb'' b2" "arg_str ''agent'' b1 = arg_str ''agent'' b2" "arg_str ''sender'' b1 = arg_str ''sender'' b2"
    "arg_str ''importance'' b1 = arg_str ''importance'' b2" "arg_str ''min_importance'' b1 = arg_str ''min_importance'' b2" "arg_str ''since'' b1 = arg_str ''since'' b2"
    "arg_str ''name'' b1 = arg_str ''name'' b2" "arg_str ''session_id'' b1 = arg_str ''session_id'' b2"
    "arg_str ''program'' b1 = arg_str ''program'' b2" "arg_str ''model'' b1 = arg_str ''model'' b2" "arg_str ''task'' b1 = arg_str ''task'' b2"
    "arg_int ''message_id'' b1 = arg_int ''message_id'' b2" "arg_int ''reply_to'' b1 = arg_int ''reply_to'' b2" "arg_int ''limit'' b1 = arg_int ''limit'' b2"
    "arg_int ''thread_id'' b1 = arg_int ''thread_id'' b2" "arg_int ''ttl_secs'' b1 = arg_int ''ttl_secs'' b2"
    "arg_bool ''ack_required'' False b1 = arg_bool ''ack_required'' False b2" "arg_bool ''unread_only'' False b1 = arg_bool ''unread_only'' False b2"
    "arg_bool ''exclusive'' True b1 = arg_bool ''exclusive'' True b2"
    "str_array ''to'' b1 = str_array ''to'' b2" "str_array ''cc'' b1 = str_array ''cc'' b2" "str_array ''paths'' b1 = str_array ''paths'' b2"
    "json_get ''sender'' b1 = json_get ''sender'' b2" "json_get ''agent'' b1 = json_get ''agent'' b2"
    "array_len ''to'' b1 = array_len ''to'' b2" "array_len ''cc'' b1 = array_len ''cc'' b2"
  by (simp_all add: same_args [OF assms] content_keys_def)

lemma same_compound_args:
  assumes "same_but_content b1 b2"
  shows "agent_arg b1 = agent_arg b2" "read_agent_and_id b1 = read_agent_and_id b2" "inbox_filter_of b1 = inbox_filter_of b2"
    "reply_target lf b1 r to cc s = reply_target lf b2 r to cc s" "compute_expiry later b1 cfg now = compute_expiry later b2 cfg now"
  unfolding agent_arg_def read_agent_and_id_def inbox_filter_of_def reply_target_def compute_expiry_def reservation_ttl_def same_keys [OF assms]
  by (rule refl)+

lemmas same_facts = same_keys same_compound_args

lemma same_send:
  assumes "same_but_content b1 b2"
  shows "fst (coord_send lf fault b1 now r s) = fst (coord_send lf fault b2 now r s)"
proof (cases "reply_target lf b2 r (str_array ''to'' b2) (str_array ''cc'' b2) s")
  case (Inl e)
  then show ?thesis unfolding coord_send_def Let_def same_facts [OF assms] by (cases "arg_str ''sender'' b2") simp_all
next
  case (Inr to)
  have receipt: "fst (case send_message sender to cc subject content imp ack reply_to now s of
        (Inr receipt, s1) \<Rightarrow> (f receipt, s1) | (Inl e, s1) \<Rightarrow> (g e, s1)) =
      (if message_recipients sender to cc = [] then g ''send_message requires at least one recipient (no broadcast)''
       else f (let mid = next_rowid (map mr_id (cs_messages s))
               in \<lparr>sr_message = mid,
                   sr_thread = (case reply_to of Some pid \<Rightarrow> (case thread_id_of pid s of Some t \<Rightarrow> t | None \<Rightarrow> pid) | None \<Rightarrow> mid),
                   sr_recipients = map fst (message_recipients sender to cc)\<rparr>))"
    for sender cc subject content imp ack reply_to and f :: "send_receipt \<Rightarrow> coord_response" and g
    by (simp add: send_message_def Let_def split: option.split)
  from Inr show ?thesis
    unfolding coord_send_def Let_def same_facts [OF assms] by (cases "arg_str ''sender'' b2"; cases fault) (simp_all add: receipt)
qed

lemma same_answers:
  assumes "same_but_content b1 b2"
  shows "coord_list_agents fault b1 l s = coord_list_agents fault b2 l s" "coord_inbox fault b1 l m s = coord_inbox fault b2 l m s"
    "coord_thread fault b1 c s = coord_thread fault b2 c s" "coord_check glob fault b1 now s = coord_check glob fault b2 now s"
    "coord_list_reservations fault b1 now s = coord_list_reservations fault b2 now s"
    "coord_mark_read fault b1 now s = coord_mark_read fault b2 now s" "coord_acknowledge fault b1 now s = coord_acknowledge fault b2 now s"
    "coord_renew later fault b1 cfg now s = coord_renew later fault b2 cfg now s" "coord_release fault b1 now s = coord_release fault b2 now s"
    "coord_register fails seed f1 f2 b1 now cs = coord_register fails seed f1 f2 b2 now cs"
  unfolding coord_list_agents_def coord_inbox_def coord_thread_def coord_check_def coord_list_reservations_def coord_mark_read_def
      coord_acknowledge_def coord_renew_def coord_release_def coord_register_def same_facts [OF assms]
  by (rule refl)+

lemma granted_length: "length (fst (insert_reservations a e r c x ps t)) = length ps"
  by (induction a e r c x ps t rule: insert_reservations.induct) (simp_all add: Let_def case_prod_beta)

lemma same_outcome: "same_but_content b1 b2 \<Longrightarrow> outcome_of verb b1 r = outcome_of verb b2 r"
  unfolding outcome_of_def outcome_agent_def Let_def by (simp only: same_keys)

lemma same_reserve:
  assumes "same_but_content b1 b2"
  shows "outcome_of ''reserve_paths'' b1 (fst (coord_reserve glob later fault b1 cfg now s)) =
         outcome_of ''reserve_paths'' b2 (fst (coord_reserve glob later fault b2 cfg now s))"
proof -
  let ?d = "\<lambda>(granted :: reservation_record list) conflicts truncated expires. CoordOk (JObject [(''granted'', JArray (map reservation_json granted)),
     (''conflicts'', JArray (map conflict_json conflicts)), (''scan_truncated'', JBool truncated), (''expires_ts'', JString expires)])"
  have shape: "outcome_of ''reserve_paths'' b (?d granted c t e) =
      \<lparr>co_agent = outcome_agent b None, co_recipients = None, co_importance = None, co_results = Some (length granted), co_conflicts = Some (length c)\<rparr>"
    for b granted c t e by (simp add: outcome_of_def outcome_agent_def array_len_def Let_def)
  have agent: "outcome_agent b1 None = outcome_agent b2 None" unfolding outcome_agent_def same_keys [OF assms] by (rule refl)
  show ?thesis
  proof (cases "agent_arg b2")
    case (Inl e)
    then show ?thesis unfolding coord_reserve_def same_facts [OF assms] by (simp add: same_outcome [OF assms])
  next
    case (Inr a)
    then show ?thesis unfolding coord_reserve_def Let_def same_facts [OF assms]
      by (simp add: same_outcome [OF assms] reserve_paths_def case_prod_beta Let_def shape granted_length agent split: option.split)
  qed
qed

text \<open>
  Property C25. The report of a coordination request, which is exported with its trace, is independent of the contents the
  request carries: two requests that differ only in subject, body and reason are reported alike.
\<close>

theorem reports_hide_contents:
  assumes "same_but_content b1 b2"
  shows "reported env cfg b1 cs = reported env cfg b2 cs"
proof (cases "arg_str ''verb'' b2")
  case (Some verb)
  have verb: "arg_str ''verb'' b1 = Some verb" using Some by (simp add: same_args [OF assms] content_keys_def)
  obtain n s where cs: "cs = (n, s)" by (rule prod.exhaust)
  have "outcome_of verb b1 (fst (coord_verb env cfg verb b1 (n, s))) = outcome_of verb b2 (fst (coord_verb env cfg verb b2 (n, s)))"
  proof (cases "verb = ''reserve_paths''")
    case True
    then show ?thesis unfolding coord_verb_def Let_def by (simp add: same_reserve [OF assms])
  next
    case False
    have "fst (coord_verb env cfg verb b1 (n, s)) = fst (coord_verb env cfg verb b2 (n, s))"
      using False unfolding coord_verb_def Let_def by (simp add: same_answers [OF assms] same_send [OF assms])
    then show ?thesis by (simp add: same_outcome [OF assms])
  qed
  then show ?thesis using Some verb by (simp add: reported_def coord_def cs same_outcome [OF assms] split: option.split)
qed (simp add: reported_def same_args [OF assms] content_keys_def)

theorem reports_hide_contents_witness:
  "reported sample_coord_env sample_coord_config (JObject [(''verb'', JString ''send_message''), (''sender'', JString ''Ann''),
       (''to'', JArray [JString ''Bob'']), (''body'', JString ''the key is 1234'')]) (sample_coord_session, empty_coord)
   = Some \<lparr>co_agent = Some ''Ann'', co_recipients = Some 1, co_importance = None, co_results = None, co_conflicts = None\<rparr>"
proof -
  let ?b2 = "JObject [(''verb'', JString ''send_message''), (''sender'', JString ''Ann''), (''to'', JArray [JString ''Bob''])]"
  have "same_but_content (JObject [(''verb'', JString ''send_message''), (''sender'', JString ''Ann''),
       (''to'', JArray [JString ''Bob'']), (''body'', JString ''the key is 1234'')]) ?b2"
    by (simp add: same_but_content_def content_keys_def)
  note reports_hide_contents [OF this, of sample_coord_env sample_coord_config "(sample_coord_session, empty_coord)"]
  moreover
  have "reported sample_coord_env sample_coord_config ?b2 (sample_coord_session, empty_coord)
      = Some \<lparr>co_agent = Some ''Ann'', co_recipients = Some 1, co_importance = None, co_results = None, co_conflicts = None\<rparr>" by code_simp
  ultimately show ?thesis by simp
qed

end
