(* ===== verification/File_Ops.thy ===== *)
theory File_Ops
  imports Json_Value "HOL-Library.AList" "HOL-Library.List_Lexorder" "HOL-Library.Char_ord"
begin

text \<open>
  The file operations of a tool session (src/src/ops/file_ops.rs) with the session state they use
  (src/src/session.rs) and the requests and answers of the op protocol (src/src/protocol.rs). Files are bytes behind a resolution of
  paths that is an argument, so that two paths may name one file; faults of the file system, the walk and the regular expression
  matcher of grep, glob patterns and the hash of the read cache are arguments. The workspace index, which reads report to, is left out.
\<close>

section \<open>Requests and answers\<close>

record op_request =
  op_p :: "string option"
  op_q :: "string option"
  op_s :: "string option"
  op_n :: "int option"
  op_n2 :: "int option"
  op_a :: "string list option"
  op_g :: "string option"

record response_meta =
  rm_redirect :: bool
  rm_filter :: bool
  rm_dedup :: bool
  rm_unfiltered :: nat

datatype response = RespOk jvalue response_meta | RespErr nat string

definition meta_default :: response_meta where
  "meta_default = \<lparr>rm_redirect = False, rm_filter = False, rm_dedup = False, rm_unfiltered = 0\<rparr>"

definition resp_ok :: "jvalue \<Rightarrow> response" where
  "resp_ok d = RespOk d meta_default"

definition quoted :: "string \<Rightarrow> string" where
  "quoted s = [CHR 0x27] @ s @ [CHR 0x27]"

section \<open>Paths\<close>

text \<open>
  A PathBuf is its text; two of them are equal when their components are. Empty and \<open>.\<close> components vanish,
  except a \<open>.\<close> that a relative path starts with; \<open>..\<close> is kept.
\<close>

type_synonym components = "bool \<times> string list"

definition components :: "string \<Rightarrow> components" where
  "components s =
     (let parts = split_str ''/'' s; rooted = starts_with ''/'' s;
          normal = filter (\<lambda>c. c \<noteq> [] \<and> c \<noteq> ''.'') parts
      in (rooted, if \<not> rooted \<and> parts \<noteq> [] \<and> hd parts = ''.'' then ''.'' # normal else normal))"

definition path_join :: "string \<Rightarrow> string \<Rightarrow> string" where
  "path_join base p =
     (if starts_with ''/'' p then p else if base = [] \<or> ends_with ''/'' base then base @ p else base @ ''/'' @ p)"

section \<open>The session\<close>

record read_cache_entry =
  re_hash :: nat
  re_lines :: nat

record tool_session =
  ts_cwd :: string
  ts_env :: "(string \<times> string) list"
  ts_cache :: "(components \<times> read_cache_entry) list"
  ts_usage :: "(string \<times> nat) list"
  ts_max_cache :: nat

definition resolve_path :: "tool_session \<Rightarrow> string \<Rightarrow> string" where
  "resolve_path ses p = path_join (ts_cwd ses) p"

definition check_read_cache :: "(string \<Rightarrow> nat) \<Rightarrow> string \<Rightarrow> string \<Rightarrow> tool_session \<Rightarrow> read_cache_entry option" where
  "check_read_cache hash path content ses =
     (case map_of (ts_cache ses) (components path) of
        Some e \<Rightarrow> if re_hash e = hash content then Some e else None
      | None \<Rightarrow> None)"

text \<open>A hash map has no order of its own: \<open>pick\<close> chooses the key that iteration meets first.\<close>

definition update_read_cache :: "(string \<Rightarrow> nat) \<Rightarrow> nat \<Rightarrow> string \<Rightarrow> string \<Rightarrow> tool_session \<Rightarrow> tool_session" where
  "update_read_cache hash pick path content ses =
     (let cache = ts_cache ses;
          kept = (if ts_max_cache ses \<le> length cache \<and> cache \<noteq> []
                  then AList.delete (fst (cache ! (pick mod length cache))) cache else cache)
      in ses\<lparr>ts_cache := AList.update (components path) \<lparr>re_hash = hash content, re_lines = length (lines content)\<rparr> kept\<rparr>)"

definition invalidate_read_cache :: "string \<Rightarrow> tool_session \<Rightarrow> tool_session" where
  "invalidate_read_cache path ses = ses\<lparr>ts_cache := AList.delete (components path) (ts_cache ses)\<rparr>"

text \<open>The first of the commands with the smallest count, in the order of iteration.\<close>

definition least_used :: "(string \<times> nat) list \<Rightarrow> string option" where
  "least_used us = map_option fst (List.find (\<lambda>(c, n). \<forall>(c', n') \<in> set us. n \<le> n') us)"

definition record_exec_usage :: "(nat \<Rightarrow> (string \<times> nat) list \<Rightarrow> (string \<times> nat) list) \<Rightarrow> nat \<Rightarrow> string \<Rightarrow> tool_session \<Rightarrow> tool_session" where
  "record_exec_usage shuffle pick cmd ses =
     (let us = AList.update cmd ((case map_of (ts_usage ses) cmd of Some n \<Rightarrow> n | None \<Rightarrow> 0) + 1) (ts_usage ses)
      in ses\<lparr>ts_usage :=
           (if ts_max_cache ses < length us
            then (case least_used (shuffle pick us) of Some k \<Rightarrow> AList.delete k us | None \<Rightarrow> us)
            else us)\<rparr>)"

section \<open>The file system\<close>

text \<open>
  \<open>real\<close> resolves a path to the file it names; a file has its bytes. A failing write may leave anything in the file.
\<close>

record file_world =
  fw_real :: "string \<Rightarrow> nat"
  fw_files :: "(nat \<times> string) list"

record io_faults =
  io_read :: "(bool \<times> string) option"
  io_mkdir :: "string option"
  io_open :: "string option"
  io_write :: "(string \<times> string option) option"
  io_missing :: string

definition file_at :: "file_world \<Rightarrow> string \<Rightarrow> string option" where
  "file_at w p = map_of (fw_files w) (fw_real w p)"

definition set_file :: "string \<Rightarrow> string option \<Rightarrow> file_world \<Rightarrow> file_world" where
  "set_file p c w = w\<lparr>fw_files :=
     (case c of Some text \<Rightarrow> AList.update (fw_real w p) text (fw_files w) | None \<Rightarrow> AList.delete (fw_real w p) (fw_files w))\<rparr>"

text \<open>tokio::fs::read_to_string: the error says whether the file was not found.\<close>

definition read_to_string :: "io_faults \<Rightarrow> file_world \<Rightarrow> string \<Rightarrow> (bool \<times> string) + string" where
  "read_to_string io w p =
     (case io_read io of
        Some e \<Rightarrow> Inl e
      | None \<Rightarrow> (case file_at w p of Some c \<Rightarrow> Inr c | None \<Rightarrow> Inl (True, io_missing io)))"

definition write_file :: "io_faults \<Rightarrow> string \<Rightarrow> string \<Rightarrow> file_world \<Rightarrow> string option \<times> file_world" where
  "write_file io p content w =
     (case io_write io of
        Some (e, left) \<Rightarrow> (Some e, set_file p left w)
      | None \<Rightarrow> (None, set_file p (Some content) w))"

section \<open>Reading\<close>

text \<open>The lines from \<open>offset\<close> on, at most \<open>limit\<close> of them when it is positive, with the final newline of the file.\<close>

definition slice_lines :: "string \<Rightarrow> nat \<Rightarrow> int \<Rightarrow> string \<times> nat" where
  "slice_lines content offset limit =
     (let ls = (if 0 < limit then take (nat limit) (drop offset (lines content)) else drop offset (lines content));
          returned = length ls;
          reaches_eof = length (lines content) \<le> offset + returned;
          joined = join [newline] ls
      in (if reaches_eof \<and> ends_with [newline] content \<and> joined \<noteq> [] then joined @ [newline] else joined, returned))"

definition op_read ::
  "(string \<Rightarrow> nat) \<Rightarrow> nat \<Rightarrow> io_faults \<Rightarrow> op_request \<Rightarrow> tool_session \<times> file_world \<Rightarrow> response \<times> tool_session \<times> file_world" where
  "op_read hash pick io req sw =
     (let (ses, w) = sw in
      case op_p req of
        None \<Rightarrow> (RespErr 3 (''read requires path in '' @ quoted ''p''), ses, w)
      | Some p \<Rightarrow>
          (let path = resolve_path ses p in
           case read_to_string io w path of
             Inl (True, e) \<Rightarrow> (RespErr 1 (''not found: '' @ path), ses, w)
           | Inl (False, e) \<Rightarrow> (RespErr 4 (''io: '' @ e), ses, w)
           | Inr content \<Rightarrow>
               (let total_lines = length (lines content);
                    offset = (case op_n req of Some n \<Rightarrow> nat (max n 0) | None \<Rightarrow> 0);
                    limit = (case op_n2 req of Some n \<Rightarrow> n | None \<Rightarrow> 0);
                    full = (offset = 0 \<and> limit \<le> 0)
                in if full \<and> check_read_cache hash path content ses \<noteq> None
                   then (RespOk (JObject [(''unchanged'', JBool True), (''lines'', json_int (int total_lines))])
                           (meta_default\<lparr>rm_dedup := True, rm_unfiltered := length content\<rparr>), ses, w)
                   else
                     (let (body, returned) = (if full then (content, total_lines) else slice_lines content offset limit);
                          page = (if 0 < offset \<or> 0 < limit
                                  then [(''offset'', json_int (int offset)), (''returned'', json_int (int returned))] else [])
                      in (resp_ok (JObject ([(''content'', JString body), (''lines'', json_int (int total_lines))] @ page)),
                          if full then update_read_cache hash pick path content ses else ses, w)))))"

section \<open>Writing and appending\<close>

definition op_write ::
  "io_faults \<Rightarrow> op_request \<Rightarrow> tool_session \<times> file_world \<Rightarrow> response \<times> tool_session \<times> file_world" where
  "op_write io req sw =
     (let (ses, w) = sw in
      case (op_p req, op_s req) of
        (None, _) \<Rightarrow> (RespErr 3 (''write requires path in '' @ quoted ''p''), ses, w)
      | (Some p, None) \<Rightarrow> (RespErr 3 (''write requires content in '' @ quoted ''s''), ses, w)
      | (Some p, Some content) \<Rightarrow>
          (let path = resolve_path ses p in
           case io_mkdir io of
             Some e \<Rightarrow> (RespErr 4 (''mkdir: '' @ e), ses, w)
           | None \<Rightarrow>
               (case write_file io path content w of
                  (None, w1) \<Rightarrow> (resp_ok (JObject [(''ok'', JBool True)]), invalidate_read_cache path ses, w1)
                | (Some e, w1) \<Rightarrow> (RespErr 4 (''write: '' @ e), ses, w1))))"

definition op_append ::
  "io_faults \<Rightarrow> op_request \<Rightarrow> tool_session \<times> file_world \<Rightarrow> response \<times> tool_session \<times> file_world" where
  "op_append io req sw =
     (let (ses, w) = sw in
      case (op_p req, op_s req) of
        (None, _) \<Rightarrow> (RespErr 3 (''append requires path in '' @ quoted ''p''), ses, w)
      | (Some p, None) \<Rightarrow> (RespErr 3 (''append requires content in '' @ quoted ''s''), ses, w)
      | (Some p, Some content) \<Rightarrow>
          (let path = resolve_path ses p; before = (case file_at w path of Some c \<Rightarrow> c | None \<Rightarrow> []) in
           case (io_mkdir io, io_open io) of
             (Some e, _) \<Rightarrow> (RespErr 4 (''mkdir: '' @ e), ses, w)
           | (None, Some e) \<Rightarrow> (RespErr 4 (''open: '' @ e), ses, w)
           | (None, None) \<Rightarrow>
               (case write_file io path (before @ content) w of
                  (None, w1) \<Rightarrow>
                    (resp_ok (JObject [(''ok'', JBool True), (''appended_bytes'', json_int (int (length content)))]),
                     invalidate_read_cache path ses, w1)
                | (Some e, w1) \<Rightarrow> (RespErr 4 (''append: '' @ e), ses, w1))))"

section \<open>Edits\<close>

datatype edit_outcome = EditApplied string | EditFailed string

text \<open>\<open>str::matches(pat).count()\<close>, which skips over a match before it looks for the next, and \<open>replacen(pat, new, 1)\<close>.\<close>

definition count_matches :: "string \<Rightarrow> string \<Rightarrow> nat" where
  "count_matches pat s = (if pat = [] then length (chars s) + 1 else length (split_str pat s) - 1)"

definition replace_first :: "string \<Rightarrow> string \<Rightarrow> string \<Rightarrow> string" where
  "replace_first pat new s = (case split_once_str pat s of Some (a, b) \<Rightarrow> a @ new @ b | None \<Rightarrow> s)"

definition leading_ws :: "string \<Rightarrow> string" where
  "leading_ws line = take (length line - length (trim_start line)) line"

definition replace_single_line_ignoring_leading_ws :: "string \<Rightarrow> string \<Rightarrow> string \<Rightarrow> edit_outcome option" where
  "replace_single_line_ignoring_leading_ws content old new =
     (if newline \<in> set old \<or> newline \<in> set new then None
      else
        (let old_key = trim_start old in
         if old_key = [] then None
         else
           (let ls = lines content; matches = filter (\<lambda>i. trim_start (ls ! i) = old_key) [0 ..< length ls] in
            case matches of
              [] \<Rightarrow> None
            | [target] \<Rightarrow>
                (let joined = join [newline] (ls[target := leading_ws (ls ! target) @ trim_start new])
                 in Some (EditApplied (if ends_with [newline] content then joined @ [newline] else joined)))
            | _ \<Rightarrow> Some (EditFailed (''ambiguous: `old` matches '' @ show_nat (length matches) @
                '' lines (ignoring indentation); include more surrounding context so it is unique'')))))"

definition apply_one_edit :: "string \<Rightarrow> string \<Rightarrow> string \<Rightarrow> edit_outcome" where
  "apply_one_edit content old new =
     (let exact_count = count_matches old content in
      if exact_count = 1 then EditApplied (replace_first old new content)
      else if 1 < exact_count then EditFailed (''ambiguous: `old` matches '' @ show_nat exact_count @
          '' places exactly; include more surrounding lines so it is unique'')
      else
        (case replace_single_line_ignoring_leading_ws content old new of
           Some outcome \<Rightarrow> outcome
         | None \<Rightarrow> EditFailed ''not found: `old` did not match the file''))"

text \<open>The edits in order, each on the result of those before: the content, the applied edits and the failures.\<close>

fun apply_edits :: "string list \<Rightarrow> string \<Rightarrow> string \<times> (string \<times> string) list \<times> (string \<times> string) list" where
  "apply_edits (old # new # rest) content =
     (case apply_one_edit content old new of
        EditApplied updated \<Rightarrow> (let (c, ds, fs) = apply_edits rest updated in (c, (old, new) # ds, fs))
      | EditFailed reason \<Rightarrow> (let (c, ds, fs) = apply_edits rest content in (c, ds, (old, reason) # fs)))"
| "apply_edits _ content = (content, [], [])"

definition op_patch ::
  "io_faults \<Rightarrow> op_request \<Rightarrow> tool_session \<times> file_world \<Rightarrow> response \<times> tool_session \<times> file_world" where
  "op_patch io req sw =
     (let (ses, w) = sw in
      case op_p req of
        None \<Rightarrow> (RespErr 3 (''patch requires path in '' @ quoted ''p''), ses, w)
      | Some p \<Rightarrow>
          (let path = resolve_path ses p in
           if (case op_a req of Some a \<Rightarrow> odd (length a) | None \<Rightarrow> True)
           then (RespErr 3 (''patch requires edits in '' @ quoted ''a'' @ '' as [old, new, old, new, ...]''), ses, w)
           else
             (case read_to_string io w path of
                Inl (_, e) \<Rightarrow> (RespErr 4 (''read: '' @ e), ses, w)
              | Inr content \<Rightarrow>
                  (let (updated, diffs, failures) = apply_edits (case op_a req of Some a \<Rightarrow> a | None \<Rightarrow> []) content;
                       resp = JObject ([(''applied'', json_int (int (length diffs)))] @
                         (if diffs = [] then [] else [(''diffs'', JArray (map (\<lambda>(old, new). JArray [JString old, JString new]) diffs))]) @
                         (if failures = [] then []
                          else [(''failures'', JArray (map (\<lambda>(old, reason). JObject [(''old'', JString old), (''reason'', JString reason)]) failures))]))
                   in if diffs = [] then (resp_ok resp, ses, w)
                      else (case write_file io path updated w of
                              (None, w1) \<Rightarrow> (resp_ok resp, invalidate_read_cache path ses, w1)
                            | (Some e, w1) \<Rightarrow> (RespErr 4 (''write: '' @ e), ses, w1))))))"

section \<open>Listing\<close>

definition skip_dirs :: "string list" where
  "skip_dirs = [''.git'', ''node_modules'', ''target'', ''.daimonos'', ''__pycache__'', ''.next'', ''dist'']"

record file_meta =
  fm_dir :: bool
  fm_size :: nat
  fm_mode :: nat
  fm_mtime :: "nat option"

record dir_entry =
  de_name :: string
  de_symlink :: bool
  de_meta :: "file_meta option"

record ls_opts =
  lo_all :: bool
  lo_stat :: bool
  lo_glob :: "(string \<Rightarrow> bool) option"
  lo_type :: "int option"

definition entry_is_dir :: "dir_entry \<Rightarrow> bool" where
  "entry_is_dir d = (case de_meta d of Some m \<Rightarrow> fm_dir m | None \<Rightarrow> False)"

definition ls_skips :: "ls_opts \<Rightarrow> dir_entry \<Rightarrow> bool" where
  "ls_skips opts d \<longleftrightarrow> \<not> lo_all opts \<and> starts_with ''.'' (de_name d) \<or> entry_is_dir d \<and> de_name d \<in> set skip_dirs"

definition ls_passes :: "ls_opts \<Rightarrow> dir_entry \<Rightarrow> bool" where
  "ls_passes opts d \<longleftrightarrow>
     (if lo_type opts = Some 1 then \<not> entry_is_dir d else if lo_type opts = Some 2 then entry_is_dir d else True)
     \<and> (case lo_glob opts of Some pat \<Rightarrow> pat (de_name d) | None \<Rightarrow> True)"

fun show_octal :: "nat \<Rightarrow> string" where
  "show_octal n = (if n < 8 then [digit_char n] else show_octal (n div 8) @ [digit_char (n mod 8)])"

declare show_octal.simps [simp del]

definition ls_entry_json :: "ls_opts \<Rightarrow> string list \<Rightarrow> dir_entry \<Rightarrow> jvalue" where
  "ls_entry_json opts rel d =
     JObject ([(''n'', JString (join ''/'' rel)), (''d'', JBool (entry_is_dir d)),
               (''s'', json_int (case de_meta d of Some m \<Rightarrow> int (fm_size m) | None \<Rightarrow> 0))] @
       (if de_symlink d then [(''l'', JBool True)] else []) @
       (if lo_stat opts
        then (case de_meta d of
                Some m \<Rightarrow> [(''m'', JString (show_octal (fm_mode m mod 4096)))] @ (case fm_mtime m of Some t \<Rightarrow> [(''t'', json_int (int t))] | None \<Rightarrow> [])
              | None \<Rightarrow> [])
        else []))"

text \<open>
  \<open>read_dir\<close> lists the directory with the given components below the root that is listed. A directory that cannot be
  read below the root is passed over.
\<close>

fun ls_recurse :: "(string list \<Rightarrow> string + dir_entry list) \<Rightarrow> ls_opts \<Rightarrow> nat \<Rightarrow> string list \<Rightarrow> string + (string list \<times> dir_entry) list" where
  "ls_recurse read_dir opts 0 at = Inr []"
| "ls_recurse read_dir opts (Suc depth) at =
     (case read_dir at of
        Inl e \<Rightarrow> Inl e
      | Inr ds \<Rightarrow>
          Inr (concat (map (\<lambda>d.
            if ls_skips opts d then []
            else (if ls_passes opts d then [(at @ [de_name d], d)] else []) @
                 (if entry_is_dir d \<and> 0 < depth
                  then (case ls_recurse read_dir opts depth (at @ [de_name d]) of Inr es \<Rightarrow> es | Inl e \<Rightarrow> [])
                  else [])) ds)))"

definition ls_depth :: "op_request \<Rightarrow> nat" where
  "ls_depth req = nat (max 1 (min 5 (case op_n req of Some n \<Rightarrow> n | None \<Rightarrow> 1)))"

definition op_ls ::
  "(string \<Rightarrow> (string \<Rightarrow> bool) option) \<Rightarrow> (string \<Rightarrow> string list \<Rightarrow> string + dir_entry list) \<Rightarrow> op_request \<Rightarrow> tool_session \<Rightarrow> response" where
  "op_ls glob_new read_dir req ses =
     (let path = (case op_p req of Some p \<Rightarrow> resolve_path ses p | None \<Rightarrow> ts_cwd ses);
          opts = \<lparr>lo_all = (op_g req = Some ''all''), lo_stat = (op_g req = Some ''stat''),
                  lo_glob = Option.bind (op_q req) glob_new, lo_type = op_n2 req\<rparr>
      in case ls_recurse (read_dir path) opts (ls_depth req) [] of
           Inl e \<Rightarrow> RespErr 4 (''ls: '' @ e)
         | Inr es \<Rightarrow>
             resp_ok (JObject [(''entries'', JArray (map (\<lambda>(rel, d). ls_entry_json opts rel d) (sort_key (\<lambda>(rel, d). join ''/'' rel) es)))]))"

section \<open>File status, globbing and searching\<close>

record link_status =
  li_size :: nat
  li_symlink :: bool
  li_dir :: bool
  li_readonly :: bool
  li_target :: "string option"
  li_broken :: bool

text \<open>\<open>lstat\<close> answers for a path without following a last symbolic link; the error says whether nothing was found.\<close>

definition op_stat :: "(string \<Rightarrow> (bool \<times> string) + link_status) \<Rightarrow> op_request \<Rightarrow> tool_session \<Rightarrow> response" where
  "op_stat lstat req ses =
     (case op_p req of
        None \<Rightarrow> RespErr 3 (''stat requires path in '' @ quoted ''p'')
      | Some p \<Rightarrow>
          (let path = resolve_path ses p in
           case lstat path of
             Inl (True, e) \<Rightarrow> RespErr 1 (''not found: '' @ path)
           | Inl (False, e) \<Rightarrow> RespErr 4 (''stat: '' @ e)
           | Inr m \<Rightarrow>
               resp_ok (JObject ([(''size'', json_int (int (li_size m)))] @
                 (if li_symlink m
                  then [(''type'', JString ''link''), (''target'', JString (case li_target m of Some t \<Rightarrow> t | None \<Rightarrow> [])),
                        (''broken'', JBool (li_broken m))]
                  else [(''type'', JString (if li_dir m then ''dir'' else ''file''))]) @
                 [(''readonly'', JBool (li_readonly m))]))))"

definition relative_to :: "string \<Rightarrow> string \<Rightarrow> string" where
  "relative_to workspace path =
     (if take (length (snd (components workspace))) (snd (components path)) = snd (components workspace)
         \<and> fst (components workspace) = fst (components path)
      then join ''/'' (drop (length (snd (components workspace))) (snd (components path))) else path)"

text \<open>\<open>expand\<close> lists the paths that a glob pattern matches with whether each is a regular file, or the error in the pattern.\<close>

definition op_glob :: "(string \<Rightarrow> string + (string \<times> bool) list) \<Rightarrow> string \<Rightarrow> op_request \<Rightarrow> tool_session \<Rightarrow> response" where
  "op_glob expand workspace req ses =
     (case op_p req of
        None \<Rightarrow> RespErr 3 (''glob requires pattern in '' @ quoted ''p'')
      | Some pattern \<Rightarrow>
          (let root = (case op_q req of Some r \<Rightarrow> resolve_path ses r | None \<Rightarrow> ts_cwd ses) in
           case expand (path_join root pattern) of
             Inl e \<Rightarrow> RespErr 3 (''glob: '' @ e)
           | Inr ps \<Rightarrow> resp_ok (JObject [(''files'', JArray (map (\<lambda>(p, _). JString (relative_to workspace p)) (filter snd ps)))])))"

definition glob_match_simple :: "string \<Rightarrow> string \<Rightarrow> bool" where
  "glob_match_simple pattern path =
     (case strip_prefix ''*.'' pattern of
        Some ext \<Rightarrow> ends_with (''.'' @ ext) path
      | None \<Rightarrow> contains_str pattern path)"

record walked_file =
  wf_path :: string
  wf_is_file :: bool
  wf_hits :: "(nat \<times> string) list"

record grep_match =
  gm_file :: string
  gm_line :: nat
  gm_text :: string

text \<open>One call of the search sink per matching line: it stops the search of the file once enough matches are found.\<close>

fun push_hits :: "string \<Rightarrow> nat \<Rightarrow> (nat \<times> string) list \<Rightarrow> grep_match list \<Rightarrow> grep_match list" where
  "push_hits rel cap [] found = found"
| "push_hits rel cap ((n, t) # hits) found =
     (let found1 = (if length found < cap then found @ [\<lparr>gm_file = rel, gm_line = n, gm_text = trim_end t\<rparr>] else found)
      in if length found1 < cap then push_hits rel cap hits found1 else found1)"

fun grep_files :: "string \<Rightarrow> nat \<Rightarrow> string option \<Rightarrow> walked_file list \<Rightarrow> grep_match list \<Rightarrow> grep_match list" where
  "grep_files workspace cap file_glob [] found = found"
| "grep_files workspace cap file_glob (f # fs) found =
     (if cap \<le> length found then found
      else if \<not> wf_is_file f then grep_files workspace cap file_glob fs found
      else if (case file_glob of Some g \<Rightarrow> \<not> glob_match_simple g (wf_path f) | None \<Rightarrow> False)
      then grep_files workspace cap file_glob fs found
      else grep_files workspace cap file_glob fs (push_hits (relative_to workspace (wf_path f)) cap (wf_hits f) found))"

text \<open>\<open>walk\<close> compiles the pattern and lists the files below the root with the lines that match.\<close>

definition op_grep ::
  "(string \<Rightarrow> string \<Rightarrow> string + walked_file list) \<Rightarrow> nat \<Rightarrow> string \<Rightarrow> op_request \<Rightarrow> tool_session \<Rightarrow> response" where
  "op_grep walk default_max workspace req ses =
     (case op_p req of
        None \<Rightarrow> RespErr 3 (''grep requires pattern in '' @ quoted ''p'')
      | Some pattern \<Rightarrow>
          (let root = (case op_q req of Some r \<Rightarrow> resolve_path ses r | None \<Rightarrow> ts_cwd ses);
               cap = nat (max (case op_n req of Some n \<Rightarrow> n | None \<Rightarrow> int default_max) 1)
           in case walk pattern root of
                Inl e \<Rightarrow> RespErr 4 (''grep: regex: '' @ e)
              | Inr fs \<Rightarrow>
                  resp_ok (JObject [(''matches'', JArray (map (\<lambda>m. JObject [(''f'', JString (gm_file m)), (''l'', json_int (int (gm_line m))),
                    (''t'', JString (gm_text m))]) (grep_files workspace cap (op_g req) fs [])))])))"

section \<open>Environment variables and the session summary\<close>

definition env_set :: "op_request \<Rightarrow> tool_session \<Rightarrow> response \<times> tool_session" where
  "env_set req ses =
     (case op_p req of
        None \<Rightarrow> (RespErr 3 (''env_set requires key in '' @ quoted ''p''), ses)
      | Some k \<Rightarrow> (resp_ok (JObject [(''ok'', JBool True)]),
                   ses\<lparr>ts_env := AList.update k (case op_s req of Some v \<Rightarrow> v | None \<Rightarrow> []) (ts_env ses)\<rparr>))"

definition env_get :: "(string \<Rightarrow> string option) \<Rightarrow> op_request \<Rightarrow> tool_session \<Rightarrow> response" where
  "env_get process_env req ses =
     (case op_p req of
        None \<Rightarrow> RespErr 3 (''env_get requires key in '' @ quoted ''p'')
      | Some k \<Rightarrow>
          (let v = (case map_of (ts_env ses) k of Some v \<Rightarrow> Some v | None \<Rightarrow> process_env k)
           in resp_ok (JObject [(''v'', case v of Some t \<Rightarrow> JString t | None \<Rightarrow> JNull)])))"

definition top_commands :: "tool_session \<Rightarrow> (string \<times> nat) list" where
  "top_commands ses = take 20 (sort_key (\<lambda>(c, n). - int n) (ts_usage ses))"

section \<open>Lines and edits\<close>

lemma lines_from_nonempty: "acc \<noteq> [] \<or> s \<noteq> [] \<Longrightarrow> lines_from acc s \<noteq> []"
  by (induction s arbitrary: acc) auto

lemma ends_with_newline: "ends_with [newline] s \<longleftrightarrow> s \<noteq> [] \<and> last s = newline"
  by (cases s rule: rev_cases) (auto simp: ends_with_def)

lemma lines_from_join:
  "carriage_return \<notin> set (acc @ s) \<Longrightarrow>
   join [newline] (lines_from acc s) @ (if ends_with [newline] s then [newline] else []) = acc @ s"
proof (induction s arbitrary: acc)
  case (Cons c cs)
  show ?case
  proof (cases "c = newline")
    case True
    have cr: "strip_cr acc = acc" using Cons.prems by (cases acc rule: rev_cases) (auto simp: strip_cr_def)
    have rest: "join [newline] (lines_from [] cs) @ (if ends_with [newline] cs then [newline] else []) = cs"
      using Cons.IH [of "[]"] Cons.prems by simp
    show ?thesis
    proof (cases "cs = []")
      case True
      then show ?thesis using \<open>c = newline\<close> cr by (simp add: ends_with_newline)
    next
      case False
      with \<open>c = newline\<close> cr rest lines_from_nonempty [of "[]" cs] show ?thesis by (auto simp: ends_with_newline join_Cons)
    qed
  next
    case False
    with Cons.IH [of "acc @ [c]"] Cons.prems show ?thesis by (cases cs) (auto simp: ends_with_newline)
  qed
qed (simp add: ends_with_newline)

text \<open>A text without carriage returns is its lines.\<close>

lemma lines_join: "carriage_return \<notin> set s \<Longrightarrow> join [newline] (lines s) @ (if ends_with [newline] s then [newline] else []) = s"
  using lines_from_join [of "[]" s] by (simp add: lines_def)

definition unlines :: "string list \<Rightarrow> string" where
  "unlines ls = concat (map (\<lambda>l. l @ [newline]) ls)"

lemma unlines_simps [simp]: "unlines [] = []" "unlines (l # ls) = l @ newline # unlines ls"
  by (simp_all add: unlines_def)

lemma join_split:
  "ys \<noteq> [] \<Longrightarrow> join [newline] (xs @ ys) = unlines xs @ join [newline] ys"
  by (induction xs) (auto simp: join_Cons)

lemma join_update:
  "i < length ls \<Longrightarrow> join [newline] (ls[i := y]) = unlines (take i ls) @ y @ concat (map (\<lambda>l. newline # l) (drop (Suc i) ls))"
proof -
  assume i: "i < length ls"
  have tail: "join [newline] (y # zs) = y @ concat (map (\<lambda>l. newline # l) zs)" for y zs
    by (induction zs arbitrary: y) auto
  show ?thesis using i join_split [of "y # drop (Suc i) ls" "take i ls"] by (simp add: upd_conv_take_nth_drop tail)
qed

lemma trim_start_suffix: "\<exists>w. s = w @ trim_start s"
proof (induction s rule: trim_start.induct)
  case (1 s)
  show ?case
  proof (cases "s = [] \<or> ws_prefix s = 0")
    case True
    then show ?thesis by (subst trim_start.simps) auto
  next
    case False
    with 1 obtain w where "drop (ws_prefix s) s = w @ trim_start (drop (ws_prefix s) s)" by blast
    moreover have "trim_start s = trim_start (drop (ws_prefix s) s)" using False by (subst trim_start.simps) simp
    ultimately have "s = (take (ws_prefix s) s @ w) @ trim_start s" by (metis append.assoc append_take_drop_id)
    then show ?thesis by blast
  qed
qed

lemma leading_ws_split: "line = leading_ws line @ trim_start line"
proof -
  obtain w where w: "line = w @ trim_start line" using trim_start_suffix by blast
  then have "length line - length (trim_start line) = length w" by (metis add_diff_cancel_right' length_append)
  with w show ?thesis unfolding leading_ws_def by (metis append_eq_conv_conj)
qed

lemma split_from_first:
  "pat \<noteq> [] \<Longrightarrow> split_from pat acc s =
     (case find_str pat s of Some i \<Rightarrow> (acc @ take i s) # split_from pat [] (drop (i + length pat) s) | None \<Rightarrow> [acc @ s])"
proof (induction s arbitrary: acc)
  case (Cons c cs)
  show ?case
  proof (cases "starts_with pat (c # cs)")
    case True
    with Cons.prems show ?thesis by (subst split_from.simps) simp
  next
    case False
    then have "split_from pat acc (c # cs) = split_from pat (acc @ [c]) cs" by (subst split_from.simps) simp
    with False Cons show ?thesis by (simp split: option.split)
  qed
qed (simp add: split_from.simps)

lemma split_str_none: "pat \<noteq> [] \<Longrightarrow> find_str pat s = None \<Longrightarrow> split_str pat s = [s]"
  by (simp add: split_str_def split_from_first)

text \<open>A text with one match, and what it is split into.\<close>

lemma one_match:
  assumes "count_matches pat s = 1"
  shows "\<exists>a b. s = a @ pat @ b \<and> (\<forall>new. replace_first pat new s = a @ new @ b) \<and> (pat \<noteq> [] \<longrightarrow> \<not> contains_str pat b)"
proof (cases "pat = []")
  case True
  with assms have "chars s = []" by (simp add: count_matches_def)
  then have "s = []" by (cases s) simp_all
  with True show ?thesis by (simp add: replace_first_def split_once_str_def)
next
  case False
  show ?thesis
  proof (cases "find_str pat s")
    case None
    with False assms show ?thesis by (simp add: count_matches_def split_str_none)
  next
    case (Some i)
    let ?b = "drop (i + length pat) s"
    have s: "s = take i s @ pat @ ?b" using find_str_Some [OF Some] by simp
    have "length (split_from pat [] ?b) = 1"
      using assms False Some by (simp add: count_matches_def split_str_def split_from_first [of pat "[]" s])
    then have "find_str pat ?b = None" using False by (simp add: split_from_first [of pat "[]" ?b] split: option.splits)
    with s Some show ?thesis by (intro exI [of _ "take i s"] exI [of _ ?b]) (simp add: replace_first_def split_once_str_def contains_str_def)
  qed
qed

lemma unique_match:
  assumes "s = a @ pat @ b" "pat \<noteq> []" and unique: "\<And>a' b'. s = a' @ pat @ b' \<Longrightarrow> a' = a"
  shows "count_matches pat s = 1"
proof -
  have "contains_str pat s" using assms(1) contains_str_iff by blast
  then obtain i where i: "find_str pat s = Some i" by (auto simp: contains_str_def)
  let ?b = "drop (i + length pat) s"
  have "s = take i s @ pat @ ?b" "i \<le> length s" using find_str_Some [OF i] by simp_all
  moreover have "\<not> contains_str pat ?b"
  proof
    assume "contains_str pat ?b"
    then obtain c d where "?b = c @ pat @ d" using contains_str_iff by blast
    with calculation have "s = (take i s @ pat @ c) @ pat @ d" by simp
    from unique [OF this] unique [OF calculation(1)] assms(2) show False by simp
  qed
  ultimately have "split_from pat [] ?b = [?b]" using assms(2) by (simp add: contains_str_def split_from_first)
  with i assms(2) show ?thesis by (simp add: count_matches_def split_str_def split_from_first [of pat "[]" s])
qed

lemma no_match: "count_matches pat s = 0 \<Longrightarrow> \<not> contains_str pat s"
  by (auto simp: count_matches_def split_str_def split_from_first contains_str_def split: if_splits option.splits)

lemma filter_singleton: "filter P [0 ..< n] = [t] \<Longrightarrow> t < n \<and> P t \<and> (\<forall>j < n. P j \<longrightarrow> j = t)"
proof -
  assume f: "filter P [0 ..< n] = [t]"
  have "set (filter P [0 ..< n]) = {t}" by (simp only: f list.set)
  then show ?thesis by auto
qed

lemma tolerant_edit:
  assumes "replace_single_line_ignoring_leading_ws content old new = Some (EditApplied c)" "carriage_return \<notin> set content"
  shows "\<exists>a w b. content = a @ w @ trim_start old @ b \<and> c = a @ w @ trim_start new @ b \<and> trim_start (w @ trim_start old) = trim_start old
    \<and> (a = [] \<or> last a = newline) \<and> (b = [] \<or> hd b = newline)"
proof -
  let ?ls = "lines content"
  obtain t where t: "filter (\<lambda>i. trim_start (?ls ! i) = trim_start old) [0 ..< length ?ls] = [t]"
    and c: "c = join [newline] (?ls[t := leading_ws (?ls ! t) @ trim_start new]) @ (if ends_with [newline] content then [newline] else [])"
    using assms(1) by (auto simp: replace_single_line_ignoring_leading_ws_def Let_def split: if_splits list.splits)
  from filter_singleton [OF t] have lt: "t < length ?ls" and key: "trim_start (?ls ! t) = trim_start old" by simp_all
  let ?a = "unlines (take t ?ls)" and ?w = "leading_ws (?ls ! t)"
  let ?b = "concat (map (\<lambda>l. newline # l) (drop (Suc t) ?ls)) @ (if ends_with [newline] content then [newline] else [])"
  have line: "?ls ! t = ?w @ trim_start old" using leading_ws_split [of "?ls ! t"] key by simp
  have "content = join [newline] (?ls[t := ?ls ! t]) @ (if ends_with [newline] content then [newline] else [])"
    using lines_join [OF assms(2)] by simp
  also have "\<dots> = ?a @ (?ls ! t) @ ?b" unfolding join_update [OF lt] by simp
  also have "\<dots> = ?a @ (?w @ trim_start old) @ ?b" using line by (rule arg_cong [where f = "\<lambda>x. ?a @ x @ ?b"])
  finally have "content = ?a @ ?w @ trim_start old @ ?b" by simp
  moreover have "c = ?a @ ?w @ trim_start new @ ?b" unfolding c join_update [OF lt] by simp
  moreover have "trim_start (?w @ trim_start old) = trim_start old" using line key by simp
  moreover have "?a = [] \<or> last ?a = newline" by (cases "take t ?ls" rule: rev_cases) (simp_all add: unlines_def)
  moreover have "?b = [] \<or> hd ?b = newline" by (cases "drop (Suc t) ?ls") simp_all
  ultimately show ?thesis by blast
qed



text \<open>
  Observation. The whitespace-tolerant edit rebuilds the file from its lines: in a file with carriage returns at
  the ends of its lines, the edit of one line removes them from all.
\<close>

theorem tolerant_edit_drops_carriage_returns:
  "apply_one_edit ([CHR ''a'', carriage_return, newline, CHR '' '', CHR ''b'', carriage_return, newline]) (''  b'') (''c'')
   = EditApplied [CHR ''a'', newline, CHR '' '', CHR ''c'', newline]"
  by code_simp

text \<open>Observation. Matches that overlap are counted once, so an old text that occurs at two positions can pass as unique.\<close>

theorem overlapping_matches_pass_as_unique:
  "apply_one_edit ''aba ba'' ''a'' ''x'' \<noteq> EditApplied ''xba ba'' \<and> apply_one_edit ''ababa'' ''aba'' ''x'' = EditApplied ''xba''"
  by code_simp

section \<open>Runs of a session\<close>

text \<open>
  What happens to a session and the files: its operations, a change of the working directory, and changes of files by others.
\<close>

datatype file_event =
    EvRead nat io_faults op_request
  | EvWrite io_faults op_request
  | EvAppend io_faults op_request
  | EvPatch io_faults op_request
  | EvChdir string
  | EvOutside nat "string option"

fun file_step :: "(string \<Rightarrow> nat) \<Rightarrow> file_event \<Rightarrow> tool_session \<times> file_world \<Rightarrow> tool_session \<times> file_world" where
  "file_step hash (EvRead pick io req) sw = snd (op_read hash pick io req sw)"
| "file_step hash (EvWrite io req) sw = snd (op_write io req sw)"
| "file_step hash (EvAppend io req) sw = snd (op_append io req sw)"
| "file_step hash (EvPatch io req) sw = snd (op_patch io req sw)"
| "file_step hash (EvChdir d) (ses, w) = (ses\<lparr>ts_cwd := d\<rparr>, w)"
| "file_step hash (EvOutside n c) (ses, w) =
     (ses, w\<lparr>fw_files := (case c of Some text \<Rightarrow> AList.update n text (fw_files w) | None \<Rightarrow> AList.delete n (fw_files w))\<rparr>)"

definition full_read :: "op_request \<Rightarrow> bool" where
  "full_read req \<longleftrightarrow> (case op_n req of Some n \<Rightarrow> n \<le> 0 | None \<Rightarrow> True) \<and> (case op_n2 req of Some n \<Rightarrow> n \<le> 0 | None \<Rightarrow> True)"

text \<open>The content that an answer shows, and the files whose whole content a run has shown.\<close>

definition shown :: "response \<Rightarrow> string option" where
  "shown r = (case r of RespOk d _ \<Rightarrow> Option.bind (json_get ''content'' d) json_as_str | RespErr _ _ \<Rightarrow> None)"

fun told :: "(string \<Rightarrow> nat) \<Rightarrow> file_event list \<Rightarrow> tool_session \<times> file_world \<Rightarrow> (components \<times> string) list" where
  "told hash [] sw = []"
| "told hash (ev # evs) sw =
     (case ev of
        EvRead pick io req \<Rightarrow>
          (case (op_p req, shown (fst (op_read hash pick io req sw))) of
             (Some p, Some c) \<Rightarrow> if full_read req then [(components (resolve_path (fst sw) p), c)] else []
           | _ \<Rightarrow> [])
      | _ \<Rightarrow> []) @ told hash evs (file_step hash ev sw)"

definition file_run :: "(string \<Rightarrow> nat) \<Rightarrow> file_event list \<Rightarrow> tool_session \<times> file_world \<Rightarrow> tool_session \<times> file_world" where
  "file_run hash evs sw = fold (file_step hash) evs sw"

text \<open>What the cache remembers was shown.\<close>

definition cache_told :: "(string \<Rightarrow> nat) \<Rightarrow> (components \<times> string) set \<Rightarrow> tool_session \<Rightarrow> bool" where
  "cache_told hash shown_files ses \<longleftrightarrow> (\<forall>(k, e) \<in> set (ts_cache ses). \<exists>c. (k, c) \<in> shown_files \<and> re_hash e = hash c)"

lemma cache_told_mono: "cache_told hash S ses \<Longrightarrow> S \<subseteq> T \<Longrightarrow> cache_told hash T ses"
  unfolding cache_told_def by blast

lemma cache_told_same: "cache_told hash S ses \<Longrightarrow> ts_cache ses' = ts_cache ses \<Longrightarrow> cache_told hash S ses'"
  by (simp add: cache_told_def)

lemma cache_told_invalidate [simp]: "cache_told hash S ses \<Longrightarrow> cache_told hash S (invalidate_read_cache p ses)"
  by (auto simp: cache_told_def invalidate_read_cache_def AList.delete_eq)

lemma cache_told_update:
  assumes "cache_told hash S ses"
  shows "cache_told hash (insert (components path, content) S) (update_read_cache hash pick path content ses)"
proof -
  let ?e = "\<lparr>re_hash = hash content, re_lines = length (lines content)\<rparr>"
  define kept where "kept = (if ts_max_cache ses \<le> length (ts_cache ses) \<and> ts_cache ses \<noteq> []
    then AList.delete (fst (ts_cache ses ! (pick mod length (ts_cache ses)))) (ts_cache ses) else ts_cache ses)"
  have "set kept \<subseteq> set (ts_cache ses)" by (auto simp: kept_def AList.delete_eq)
  moreover have "ts_cache (update_read_cache hash pick path content ses) = AList.update (components path) ?e kept"
    by (simp add: update_read_cache_def kept_def Let_def)
  ultimately have "set (ts_cache (update_read_cache hash pick path content ses)) \<subseteq> insert (components path, ?e) (set (ts_cache ses))"
    using set_update_subset [of "components path" ?e kept] by auto
  with assms show ?thesis unfolding cache_told_def by (fastforce simp: subset_iff)
qed

text \<open>An operation that writes leaves the session as it is or forgets one path.\<close>

definition forgets :: "tool_session \<Rightarrow> tool_session \<Rightarrow> bool" where
  "forgets ses ses' \<longleftrightarrow> ses' = ses \<or> (\<exists>p. ses' = invalidate_read_cache p ses)"

lemma forgets_simps [simp]: "forgets ses ses" "forgets ses (invalidate_read_cache p ses)"
  by (auto simp: forgets_def)

lemma write_forgets: "forgets ses (fst (snd (op_write io req (ses, w))))"
  by (simp add: op_write_def Let_def split: option.split sum.split prod.split)

lemma append_forgets: "forgets ses (fst (snd (op_append io req (ses, w))))"
  by (simp add: op_append_def Let_def split: option.split sum.split prod.split)

lemma patch_forgets: "forgets ses (fst (snd (op_patch io req (ses, w))))"
  by (simp add: op_patch_def Let_def case_prod_beta split: option.split sum.split prod.split)

lemma cache_told_forgets: "cache_told hash S ses \<Longrightarrow> forgets ses ses' \<Longrightarrow> cache_told hash S ses'"
  by (auto simp: forgets_def)

text \<open>The branches of a read.\<close>

lemma read_cases:
  assumes "op_read hash pick io req (ses, w) = (r, ses', w')"
  obtains (failed) "shown r = None" "ses' = ses" "w' = w" "\<forall>d m. r \<noteq> RespOk d m"
  | (same) p content where "op_p req = Some p" "read_to_string io w (resolve_path ses p) = Inr content" "full_read req"
      "check_read_cache hash (resolve_path ses p) content ses \<noteq> None"
      "r = RespOk (JObject [(''unchanged'', JBool True), (''lines'', json_int (int (length (lines content))))])
         (meta_default\<lparr>rm_dedup := True, rm_unfiltered := length content\<rparr>)" "ses' = ses" "w' = w"
  | (full) p content where "op_p req = Some p" "read_to_string io w (resolve_path ses p) = Inr content" "full_read req"
      "check_read_cache hash (resolve_path ses p) content ses = None"
      "r = resp_ok (JObject [(''content'', JString content), (''lines'', json_int (int (length (lines content))))])"
      "ses' = update_read_cache hash pick (resolve_path ses p) content ses" "w' = w"
  | (part) p content d where "op_p req = Some p" "\<not> full_read req" "r = resp_ok d" "ses' = ses" "w' = w"
proof (cases "op_p req")
  case None
  with assms show thesis by (intro failed) (auto simp: op_read_def shown_def)
next
  case (Some p)
  show thesis
  proof (cases "read_to_string io w (resolve_path ses p)")
    case (Inl e)
    with Some assms show thesis by (cases e; cases "fst e") (auto intro!: failed simp: op_read_def shown_def Let_def)
  next
    case (Inr content)
    define offset where "offset = (case op_n req of Some n \<Rightarrow> nat (max n 0) | None \<Rightarrow> 0)"
    define limit where "limit = (case op_n2 req of Some n \<Rightarrow> n | None \<Rightarrow> 0)"
    have fr: "full_read req \<longleftrightarrow> offset = 0 \<and> limit \<le> 0"
      by (auto simp: full_read_def offset_def limit_def split: option.split)
    note step = assms [unfolded op_read_def Let_def prod.case Some option.case Inr sum.case, folded offset_def limit_def]
    show thesis
    proof (cases "full_read req")
      case True
      with fr have "offset = 0" "limit \<le> 0" by simp_all
      with step Some Inr True show thesis
        by (cases "check_read_cache hash (resolve_path ses p) content ses = None") (auto intro: same full)
    next
      case False
      then have "\<not> (offset = 0 \<and> limit \<le> 0)" using fr by simp
      with step Some False show thesis by (auto intro!: part split: prod.splits)
    qed
  qed
qed

lemma told_invariant:
  "cache_told hash S (fst sw) \<Longrightarrow> cache_told hash (S \<union> set (told hash evs sw)) (fst (file_run hash evs sw))"
proof (induction evs arbitrary: S sw)
  case (Cons ev evs)
  obtain ses w where sw: "sw = (ses, w)" by (rule prod.exhaust)
  define new where "new = (case ev of
        EvRead pick io req \<Rightarrow>
          (case (op_p req, shown (fst (op_read hash pick io req sw))) of
             (Some p, Some c) \<Rightarrow> if full_read req then [(components (resolve_path (fst sw) p), c)] else []
           | _ \<Rightarrow> [])
      | _ \<Rightarrow> [])"
  have "cache_told hash (S \<union> set new) (fst (file_step hash ev sw))"
  proof (cases ev)
    case (EvRead pick io req)
    obtain r ses' w' where run: "op_read hash pick io req (ses, w) = (r, ses', w')" by (rule prod_cases3)
    show ?thesis
    proof (cases rule: read_cases [OF run])
      case (3 p content)
      then have "new = [(components (resolve_path ses p), content)]"
        using EvRead run sw by (simp add: new_def shown_def resp_ok_def)
      moreover have "cache_told hash S ses" using Cons.prems sw by simp
      ultimately show ?thesis using 3 EvRead run sw cache_told_update [of hash S ses "resolve_path ses p" content pick] by simp
    qed (use Cons.prems EvRead run sw in \<open>auto intro: cache_told_mono\<close>)
  next
    case (EvWrite io req)
    then show ?thesis using Cons.prems sw cache_told_forgets write_forgets by (auto simp: new_def)
  next
    case (EvAppend io req)
    then show ?thesis using Cons.prems sw cache_told_forgets append_forgets by (auto simp: new_def)
  next
    case (EvPatch io req)
    then show ?thesis using Cons.prems sw cache_told_forgets patch_forgets by (auto simp: new_def)
  qed (use Cons.prems sw in \<open>auto simp: new_def intro: cache_told_same\<close>)
  from Cons.IH [OF this] have "cache_told hash (S \<union> set new \<union> set (told hash evs (file_step hash ev sw))) (fst (file_run hash (ev # evs) sw))"
    by (simp add: file_run_def)
  moreover have "told hash (ev # evs) sw = new @ told hash evs (file_step hash ev sw)" unfolding new_def by (rule told.simps)
  ultimately show ?case by (simp add: Un_assoc)
qed (simp add: file_run_def)

text \<open>
  Property C17. A read is answered with \<open>unchanged\<close> only when the session has been shown the content that the file has: in
  every run of operations, changes of directory and changes of the files by others, from an empty cache, an earlier full read of the same path was
  answered with a content of the same hash as the present one.
\<close>

theorem unchanged_means_shown:
  assumes "ts_cache ses0 = []" "file_run hash evs (ses0, w0) = (ses, w)"
    "op_read hash pick io req (ses, w) = (RespOk d m, ses', w')" "rm_dedup m"
  shows "\<exists>p content c. op_p req = Some p \<and> file_at w (resolve_path ses p) = Some content
    \<and> (components (resolve_path ses p), c) \<in> set (told hash evs (ses0, w0)) \<and> hash c = hash content"
proof (cases rule: read_cases [OF assms(3)])
  case (2 p content)
  have "cache_told hash {} ses0" using assms(1) by (simp add: cache_told_def)
  with told_invariant [of hash "{}" "(ses0, w0)" evs] assms(2) have told: "cache_told hash (set (told hash evs (ses0, w0))) ses" by simp
  from 2(4) obtain e where "map_of (ts_cache ses) (components (resolve_path ses p)) = Some e" "re_hash e = hash content"
    by (auto simp: check_read_cache_def split: option.splits if_splits)
  with told obtain c where "(components (resolve_path ses p), c) \<in> set (told hash evs (ses0, w0))" "hash c = hash content"
    unfolding cache_told_def by (fastforce dest: map_of_SomeD)
  moreover have "file_at w (resolve_path ses p) = Some content"
    using 2(2) by (auto simp: read_to_string_def split: option.splits)
  ultimately show ?thesis using 2(1) by blast
qed (use assms(4) in \<open>auto simp: resp_ok_def meta_default_def\<close>)

text \<open>A sample session in \<open>/w\<close> with one file.\<close>

definition no_faults :: io_faults where
  "no_faults = \<lparr>io_read = None, io_mkdir = None, io_open = None, io_write = None, io_missing = []\<rparr>"

definition file_request :: "string \<Rightarrow> string option \<Rightarrow> op_request" where
  "file_request p c = \<lparr>op_p = Some p, op_q = None, op_s = c, op_n = None, op_n2 = None, op_a = None, op_g = None\<rparr>"

definition sample_session :: tool_session where
  "sample_session = \<lparr>ts_cwd = ''/w'', ts_env = [], ts_cache = [], ts_usage = [], ts_max_cache = 8\<rparr>"

definition sample_world :: file_world where
  "sample_world = \<lparr>fw_real = length, fw_files = [(4, ''hi'')]\<rparr>"

theorem unchanged_means_shown_witness:
  "\<exists>c. (components ''/w/f'', c) \<in> set (told length [EvRead 0 no_faults (file_request ''f'' None)] (sample_session, sample_world)) \<and> length c = 2"
proof -
  let ?evs = "[EvRead 0 no_faults (file_request ''f'' None)]"
  obtain ses w where run: "file_run length ?evs (sample_session, sample_world) = (ses, w)" by (rule prod.exhaust)
  obtain r ses' w' where read: "op_read length 0 no_faults (file_request ''f'' None) (ses, w) = (r, ses', w')" by (rule prod_cases3)
  have "(case fst (op_read length 0 no_faults (file_request ''f'' None) (file_run length ?evs (sample_session, sample_world))) of
      RespOk d m \<Rightarrow> rm_dedup m | RespErr _ _ \<Rightarrow> False)" by code_simp
  then obtain d m where r: "r = RespOk d m" "rm_dedup m" using run read by (cases r) simp_all
  have "file_at (snd (file_run length ?evs (sample_session, sample_world))) ''/w/f'' = Some ''hi''"
    "resolve_path (fst (file_run length ?evs (sample_session, sample_world))) ''f'' = ''/w/f''" by code_simp+
  moreover from unchanged_means_shown [OF _ run read [unfolded r(1)] r(2)] obtain p content c where
    "op_p (file_request ''f'' None) = Some p" "file_at w (resolve_path ses p) = Some content"
    "(components (resolve_path ses p), c) \<in> set (told length ?evs (sample_session, sample_world))" "length c = length content"
    by (auto simp: sample_session_def)
  ultimately show ?thesis using run by (auto simp: file_request_def)
qed

section \<open>Reading back\<close>

lemma file_at_set_file:
  "file_at (set_file p c w) q = (if fw_real w q = fw_real w p then c else file_at w q)" "fw_real (set_file p c w) = fw_real w"
  by (auto simp: file_at_def set_file_def update_conv' delete_conv' split: option.split)

lemma map_of_set_file: "n \<noteq> fw_real w p \<Longrightarrow> map_of (fw_files (set_file p c w)) n = map_of (fw_files w) n"
  by (auto simp: set_file_def update_conv' delete_conv' split: option.split)

lemma apply_edits_none: "apply_edits es content = (c, [], fs) \<Longrightarrow> c = content"
  by (induction es content arbitrary: c fs rule: apply_edits.induct) (auto simp: Let_def split: edit_outcome.splits prod.splits)

text \<open>What a writing operation asks the file to be, from what it was.\<close>

fun wanted :: "file_event \<Rightarrow> string option \<Rightarrow> string option" where
  "wanted (EvWrite io req) before = op_s req"
| "wanted (EvAppend io req) before = map_option (\<lambda>c. (case before of Some b \<Rightarrow> b | None \<Rightarrow> []) @ c) (op_s req)"
| "wanted (EvPatch io req) before = (case (before, op_a req) of (Some b, Some es) \<Rightarrow> Some (fst (apply_edits es b)) | _ \<Rightarrow> None)"
| "wanted _ before = None"

fun writing :: "file_event \<Rightarrow> tool_session \<times> file_world \<Rightarrow> (op_request \<times> response \<times> tool_session \<times> file_world) option" where
  "writing (EvWrite io req) sw = Some (req, op_write io req sw)"
| "writing (EvAppend io req) sw = Some (req, op_append io req sw)"
| "writing (EvPatch io req) sw = Some (req, op_patch io req sw)"
| "writing _ sw = None"

lemma write_effect:
  assumes "op_write io req (ses, w) = (RespOk d m, ses', w')"
  shows "\<exists>p c. op_p req = Some p \<and> op_s req = Some c \<and> w' = set_file (resolve_path ses p) (Some c) w
    \<and> ses' = invalidate_read_cache (resolve_path ses p) ses"
  using assms by (auto simp: op_write_def write_file_def Let_def split: option.splits prod.splits)

lemma append_effect:
  assumes "op_append io req (ses, w) = (RespOk d m, ses', w')"
  shows "\<exists>p c. op_p req = Some p \<and> op_s req = Some c
    \<and> w' = set_file (resolve_path ses p) (Some ((case file_at w (resolve_path ses p) of Some b \<Rightarrow> b | None \<Rightarrow> []) @ c)) w
    \<and> ses' = invalidate_read_cache (resolve_path ses p) ses"
  using assms by (auto simp: op_append_def write_file_def Let_def split: option.splits prod.splits)

lemma patch_effect:
  assumes "op_patch io req (ses, w) = (RespOk d m, ses', w')"
  shows "\<exists>p b es. op_p req = Some p \<and> op_a req = Some es \<and> file_at w (resolve_path ses p) = Some b
    \<and> (w' = set_file (resolve_path ses p) (Some (fst (apply_edits es b))) w \<and> ses' = invalidate_read_cache (resolve_path ses p) ses
       \<or> w' = w \<and> ses' = ses \<and> fst (apply_edits es b) = b)"
proof -
  obtain p where p: "op_p req = Some p" using assms by (cases "op_p req") (simp_all add: op_patch_def)
  obtain es where es: "op_a req = Some es" "even (length es)" using assms p
    by (cases "op_a req"; cases "odd (length (the (op_a req)))") (simp_all add: op_patch_def Let_def)
  obtain b where read: "read_to_string io w (resolve_path ses p) = Inr b" using assms p es
    by (cases "read_to_string io w (resolve_path ses p)") (auto simp: op_patch_def Let_def split: prod.splits)
  then have b: "file_at w (resolve_path ses p) = Some b" by (auto simp: read_to_string_def split: option.splits)
  obtain c ds fs where ed: "apply_edits es b = (c, ds, fs)" by (rule prod_cases3)
  show ?thesis
  proof (cases "ds = []")
    case True
    with assms p es read ed have "w' = w" "ses' = ses" by (simp_all add: op_patch_def Let_def)
    moreover have "c = b" using apply_edits_none ed True by blast
    ultimately show ?thesis using p es(1) b ed by simp
  next
    case False
    with assms p es read ed show ?thesis
      using b by (simp add: op_patch_def Let_def write_file_def split: option.splits prod.splits)
  qed
qed

lemma read_after_forget:
  assumes "op_p req = Some p" "full_read req" "io_read io = None" "file_at w (resolve_path ses p) = Some c"
    "map_of (ts_cache ses) (components (resolve_path ses p)) = None"
  shows "shown (fst (op_read hash pick io req (ses, w))) = Some c"
proof -
  obtain r ses' w' where run: "op_read hash pick io req (ses, w) = (r, ses', w')" by (rule prod_cases3)
  have read: "read_to_string io w (resolve_path ses p) = Inr c" using assms(3,4) by (simp add: read_to_string_def)
  have miss: "check_read_cache hash (resolve_path ses p) c ses = None" using assms(5) by (simp add: check_read_cache_def)
  have fr: "(case op_n req of Some n \<Rightarrow> nat (max n 0) | None \<Rightarrow> 0) = 0" "(case op_n2 req of Some n \<Rightarrow> n | None \<Rightarrow> 0) \<le> 0"
    using assms(2) by (auto simp: full_read_def split: option.splits)
  show ?thesis using assms(1) read miss fr by (simp add: op_read_def Let_def shown_def resp_ok_def)
qed

lemma forgotten: "map_of (ts_cache (invalidate_read_cache p ses)) (components p) = None"
  by (simp add: invalidate_read_cache_def delete_conv')

text \<open>
  Property C18. What is written reads back: after a write, an append or a patch that succeeds the file is what was asked for, the old content with the text appended, or
  the result of its edits in order; no other file has changed; and the next full read
  shows the new content in full, unless the patch applied no edit.
\<close>

theorem written_file_reads_back:
  assumes "writing ev (ses, w) = Some (req, RespOk d m, ses', w')"
  shows "\<exists>p c. op_p req = Some p \<and> wanted ev (file_at w (resolve_path ses p)) = Some c
    \<and> file_at w' (resolve_path ses p) = Some c
    \<and> (\<forall>n. n \<noteq> fw_real w (resolve_path ses p) \<longrightarrow> map_of (fw_files w') n = map_of (fw_files w) n)
    \<and> (w' = w \<or> (\<forall>hash pick io req'. op_p req' = Some p \<and> full_read req' \<and> io_read io = None
          \<longrightarrow> shown (fst (op_read hash pick io req' (ses', w'))) = Some c))"
proof -
  have cwd: "resolve_path (invalidate_read_cache q ses) p = resolve_path ses p" for p q
    by (simp add: resolve_path_def invalidate_read_cache_def)
  have ready: ?thesis if p: "op_p req = Some p" and c: "wanted ev (file_at w (resolve_path ses p)) = Some c"
    and w': "w' = set_file (resolve_path ses p) (Some c) w" and ses': "ses' = invalidate_read_cache (resolve_path ses p) ses" for p c
  proof -
    have at: "file_at w' (resolve_path ses p) = Some c" by (simp add: w' file_at_set_file)
    have "shown (fst (op_read hash pick io req' (ses', w'))) = Some c"
      if "op_p req' = Some p" "full_read req'" "io_read io = None" for hash pick io req'
      using that at forgotten [of "resolve_path ses p" ses] by (intro read_after_forget) (simp_all add: ses' cwd)
    with p c at show ?thesis by (intro exI [of _ p] exI [of _ c]) (simp add: w' map_of_set_file)
  qed
  show ?thesis
  proof (cases ev)
    case (EvWrite io r)
    with assms have "op_write io req (ses, w) = (RespOk d m, ses', w')" and r: "r = req" by auto
    from write_effect [OF this(1)] obtain p c where "op_p req = Some p" "op_s req = Some c"
      "w' = set_file (resolve_path ses p) (Some c) w" "ses' = invalidate_read_cache (resolve_path ses p) ses" by blast
    with EvWrite r show ?thesis by (intro ready [of p c]) simp_all
  next
    case (EvAppend io r)
    with assms have "op_append io req (ses, w) = (RespOk d m, ses', w')" and r: "r = req" by auto
    from append_effect [OF this(1)] obtain p c where "op_p req = Some p" "op_s req = Some c"
      "w' = set_file (resolve_path ses p) (Some ((case file_at w (resolve_path ses p) of Some b \<Rightarrow> b | None \<Rightarrow> []) @ c)) w"
      "ses' = invalidate_read_cache (resolve_path ses p) ses" by blast
    with EvAppend r show ?thesis by (intro ready [of p "(case file_at w (resolve_path ses p) of Some b \<Rightarrow> b | None \<Rightarrow> []) @ c"]) simp_all
  next
    case (EvPatch io r)
    with assms have "op_patch io req (ses, w) = (RespOk d m, ses', w')" and r: "r = req" by auto
    from patch_effect [OF this(1)] obtain p b es where p: "op_p req = Some p" "op_a req = Some es" "file_at w (resolve_path ses p) = Some b"
      and e: "w' = set_file (resolve_path ses p) (Some (fst (apply_edits es b))) w \<and> ses' = invalidate_read_cache (resolve_path ses p) ses
       \<or> w' = w \<and> ses' = ses \<and> fst (apply_edits es b) = b" by blast
    from e show ?thesis
    proof
      assume "w' = w \<and> ses' = ses \<and> fst (apply_edits es b) = b"
      with p EvPatch r show ?thesis by (intro exI [of _ p] exI [of _ b]) simp
    next
      assume "w' = set_file (resolve_path ses p) (Some (fst (apply_edits es b))) w \<and> ses' = invalidate_read_cache (resolve_path ses p) ses"
      with p EvPatch r show ?thesis by (intro ready [of p "fst (apply_edits es b)"]) simp_all
    qed
  qed (use assms in simp_all)
qed

theorem written_file_reads_back_witness:
  "\<exists>d m ses' w'. op_write no_faults (file_request ''g'' (Some ''new'')) (sample_session, sample_world) = (RespOk d m, ses', w')
     \<and> file_at w' ''/w/g'' = Some ''new'' \<and> shown (fst (op_read length 0 no_faults (file_request ''g'' None) (ses', w'))) = Some ''new''"
proof -
  obtain r ses' w' where run: "op_write no_faults (file_request ''g'' (Some ''new'')) (sample_session, sample_world) = (r, ses', w')"
    by (rule prod_cases3)
  have "(case fst (op_write no_faults (file_request ''g'' (Some ''new'')) (sample_session, sample_world)) of RespOk d m \<Rightarrow> True | RespErr _ _ \<Rightarrow> False)"
    by code_simp
  then obtain d m where r: "r = RespOk d m" using run by (cases r) simp_all
  have path: "resolve_path sample_session ''g'' = ''/w/g''" by code_simp
  have changed: "file_at (snd (snd (op_write no_faults (file_request ''g'' (Some ''new'')) (sample_session, sample_world)))) ''/w/g'' \<noteq> file_at sample_world ''/w/g''"
    by code_simp
  have full: "full_read (file_request ''g'' None)" by (simp add: full_read_def file_request_def)
  from written_file_reads_back [of "EvWrite no_faults (file_request ''g'' (Some ''new''))" sample_session sample_world] run r
  obtain p c where p: "op_p (file_request ''g'' (Some ''new'')) = Some p" "op_s (file_request ''g'' (Some ''new'')) = Some c"
    "file_at w' (resolve_path sample_session p) = Some c"
    and shows_it: "w' = sample_world \<or> (\<forall>hash pick io req'. op_p req' = Some p \<and> full_read req' \<and> io_read io = None
          \<longrightarrow> shown (fst (op_read hash pick io req' (ses', w'))) = Some c)" by auto
  have pc: "p = ''g''" "c = ''new''" using p(1,2) by (simp_all add: file_request_def)
  have "w' \<noteq> sample_world" using changed run by auto
  with shows_it full have "shown (fst (op_read length 0 no_faults (file_request ''g'' None) (ses', w'))) = Some ''new''"
    by (auto simp: pc file_request_def no_faults_def)
  with p(3) run r path show ?thesis by (auto simp: pc)
qed

section \<open>Slices\<close>

lemma join_nonempty: "ys \<noteq> [] \<Longrightarrow> ys \<noteq> [[]] \<Longrightarrow> join [newline] ys \<noteq> []"
  by (cases ys; cases "List.tl ys") (auto simp: join_Cons)

text \<open>
  Observation. A read from a line on shows exactly the rest of the file: the lines before it, with their ends, and what is shown
  make up the file, final newline included. (In a file without carriage returns; a rest that is one empty line is shown as nothing.)
\<close>

theorem read_from_line_shows_rest:
  assumes "carriage_return \<notin> set content" "offset < length (lines content)" "drop offset (lines content) \<noteq> [[]]"
  shows "content = unlines (take offset (lines content)) @ fst (slice_lines content offset 0)
    \<and> snd (slice_lines content offset 0) = length (lines content) - offset"
proof -
  let ?ys = "drop offset (lines content)" and ?nl = "if ends_with [newline] content then [newline] else []"
  have ys: "?ys \<noteq> []" using assms(2) by simp
  have "content = join [newline] (take offset (lines content) @ ?ys) @ ?nl" using lines_join [OF assms(1)] by simp
  also have "\<dots> = unlines (take offset (lines content)) @ join [newline] ?ys @ ?nl" by (simp only: join_split [OF ys] append.assoc)
  also have "join [newline] ?ys @ ?nl = fst (slice_lines content offset 0)"
    using join_nonempty [OF ys assms(3)] assms(2) by (simp add: slice_lines_def Let_def)
  finally show ?thesis by (simp add: slice_lines_def Let_def)
qed

theorem read_from_line_shows_rest_witness:
  "fst (slice_lines (unlines [''one'', ''two'']) 1 0) = unlines [''two'']"
proof -
  have "lines (unlines [''one'', ''two'']) = [''one'', ''two'']" by code_simp
  with read_from_line_shows_rest [of "unlines [''one'', ''two'']" 1] show ?thesis by (simp add: carriage_return_def newline_def)
qed

text \<open>Observation. The last slice of a file that ends with an empty line loses it.\<close>

theorem last_empty_line_is_not_shown:
  "slice_lines [CHR ''a'', newline, newline] 1 0 = ([], 1)"
  by (simp add: slice_lines_def lines_def newline_def strip_cr_def carriage_return_def)

section \<open>Listing and searching\<close>

lemma in_concat_map: "x \<in> set (concat (map f ys)) \<Longrightarrow> \<exists>y. x \<in> set (f y)"
  by auto

lemma ls_listed:
  assumes "ls_recurse read_dir opts depth at = Inr es" "(rel, d) \<in> set es"
  shows "\<exists>below. rel = at @ below \<and> below \<noteq> [] \<and> length below \<le> depth \<and> List.last below = de_name d \<and> ls_passes opts d \<and> \<not> ls_skips opts d
    \<and> (\<forall>c \<in> set below. lo_all opts \<or> \<not> starts_with ''.'' c) \<and> set (butlast below) \<inter> set skip_dirs = {}"
  using assms
proof (induction depth arbitrary: at es)
  case (Suc depth)
  from Suc.prems(1) obtain ds where ds: "read_dir at = Inr ds" by (cases "read_dir at") simp_all
  define kids where "kids = (\<lambda>e :: dir_entry. case ls_recurse read_dir opts depth (at @ [de_name e]) of Inr es \<Rightarrow> es | Inl _ \<Rightarrow> [])"
  define own where "own = (\<lambda>e :: dir_entry. if ls_passes opts e then [(at @ [de_name e], e)] else [])"
  define sub where "sub = (\<lambda>e :: dir_entry. if ls_skips opts e then [] else own e @ (if entry_is_dir e \<and> 0 < depth then kids e else []))"
  have "es = concat (map sub ds)" using Suc.prems(1) ds unfolding sub_def own_def kids_def by simp
  with in_concat_map [of "(rel, d)" sub ds] Suc.prems(2) obtain e where s: "(rel, d) \<in> set (sub e)" by blast
  then have e: "\<not> ls_skips opts e" and m: "(rel, d) \<in> set (own e) \<or> entry_is_dir e \<and> (rel, d) \<in> set (kids e)"
    by (auto simp: sub_def split: if_splits)
  have hidden: "lo_all opts \<or> \<not> starts_with ''.'' (de_name e)" using e unfolding ls_skips_def by blast
  from m show ?case
  proof
    assume "(rel, d) \<in> set (own e)"
    then have "rel = at @ [de_name e]" "d = e" "ls_passes opts e" by (auto simp: own_def split: if_splits)
    with e hidden show ?thesis by (intro exI [of _ "[de_name e]"]) simp
  next
    assume m': "entry_is_dir e \<and> (rel, d) \<in> set (kids e)"
    then have dir: "entry_is_dir e" by simp
    from m' obtain es' where r: "ls_recurse read_dir opts depth (at @ [de_name e]) = Inr es'" "(rel, d) \<in> set es'"
      unfolding kids_def by (cases "ls_recurse read_dir opts depth (at @ [de_name e])") simp_all
    from Suc.IH [OF r] obtain below where b: "rel = (at @ [de_name e]) @ below" "below \<noteq> []" "length below \<le> depth" "List.last below = de_name d"
      "ls_passes opts d" "\<not> ls_skips opts d" "\<forall>c \<in> set below. lo_all opts \<or> \<not> starts_with ''.'' c" "set (butlast below) \<inter> set skip_dirs = {}"
      by blast
    have "de_name e \<notin> set skip_dirs" using e dir unfolding ls_skips_def by blast
    with b hidden show ?thesis by (intro exI [of _ "de_name e # below"]) auto
  qed
qed simp

text \<open>
  Observation. A listing stays within its bounds: every listed path lies at most five levels below the directory, has no hidden component unless all
  files were asked for, lies below no directory of the skip list, and passes the filters of the request.
\<close>

theorem listing_stays_within:
  assumes "ls_recurse read_dir opts (ls_depth req) [] = Inr es" "(rel, d) \<in> set es"
  shows "rel \<noteq> [] \<and> length rel \<le> 5 \<and> List.last rel = de_name d \<and> ls_passes opts d
    \<and> (\<forall>c \<in> set rel. lo_all opts \<or> \<not> starts_with ''.'' c) \<and> set (butlast rel) \<inter> set skip_dirs = {}
    \<and> (entry_is_dir d \<longrightarrow> de_name d \<notin> set skip_dirs)"
proof -
  have "ls_depth req \<le> 5" by (simp add: ls_depth_def nat_le_iff split: option.split)
  with ls_listed [OF assms] show ?thesis by (auto simp: ls_skips_def)
qed

theorem listing_stays_within_witness:
  "\<exists>es. ls_recurse (\<lambda>at. Inr [\<lparr>de_name = ''a'', de_symlink = False, de_meta = None\<rparr>]) \<lparr>lo_all = False, lo_stat = False, lo_glob = None, lo_type = None\<rparr>
      (ls_depth (file_request ''x'' None)) [] = Inr es \<and> (\<forall>(rel, d) \<in> set es. length rel \<le> 5) \<and> es \<noteq> []"
proof -
  let ?o = "\<lparr>lo_all = False, lo_stat = False, lo_glob = None, lo_type = None\<rparr>"
  let ?d = "\<lambda>at :: string list. Inr [\<lparr>de_name = ''a'', de_symlink = False, de_meta = None\<rparr>] :: string + dir_entry list"
  have "ls_recurse ?d ?o (ls_depth (file_request ''x'' None)) [] = Inr [([''a''], \<lparr>de_name = ''a'', de_symlink = False, de_meta = None\<rparr>)]"
    by code_simp
  with listing_stays_within [OF this] show ?thesis by auto
qed

lemma push_hits_take:
  "length found \<le> cap \<Longrightarrow>
   push_hits rel cap hits found = take cap (found @ map (\<lambda>(n, t). \<lparr>gm_file = rel, gm_line = n, gm_text = trim_end t\<rparr>) hits)"
  by (induction rel cap hits found rule: push_hits.induct) (auto simp: Let_def take_Cons diff_Suc split: nat.split)

text \<open>The matches of the files that a search looks at, in the order of the walk.\<close>

definition all_matches :: "string \<Rightarrow> string option \<Rightarrow> walked_file list \<Rightarrow> grep_match list" where
  "all_matches workspace file_glob fs =
     concat (map (\<lambda>f. map (\<lambda>(n, t). \<lparr>gm_file = relative_to workspace (wf_path f), gm_line = n, gm_text = trim_end t\<rparr>) (wf_hits f))
       (filter (\<lambda>f. wf_is_file f \<and> (case file_glob of Some g \<Rightarrow> glob_match_simple g (wf_path f) | None \<Rightarrow> True)) fs))"

text \<open>
  Observation. A search stops early without changing what it finds: with a limit it answers exactly the first
  matches, in the order of the walk, of the search without one.
\<close>

theorem grep_is_prefix:
  "grep_files workspace cap file_glob fs [] = take cap (all_matches workspace file_glob fs)"
proof -
  have "length found \<le> cap \<Longrightarrow> grep_files workspace cap file_glob fs found = take cap (found @ all_matches workspace file_glob fs)" for found
  proof (induction fs arbitrary: found)
    case (Cons f fs)
    show ?case
    proof (cases "cap \<le> length found")
      case True
      with Cons.prems show ?thesis by simp
    next
      case False
      let ?m = "map (\<lambda>(n, t). \<lparr>gm_file = relative_to workspace (wf_path f), gm_line = n, gm_text = trim_end t\<rparr>) (wf_hits f)"
      have "take cap (take cap (found @ ?m) @ xs) = take cap ((found @ ?m) @ xs)" for xs
        by (simp add: min_def)
      with False Cons.IH [of found] Cons.IH [of "take cap (found @ ?m)"] Cons.prems show ?thesis
        by (auto simp: all_matches_def push_hits_take split: option.split)
    qed
  qed (simp add: all_matches_def)
  from this [of "[]"] show ?thesis by simp
qed

end
