(* ===== verification/Tool_Runner.thy ===== *)
theory Tool_Runner
  imports File_Ops
begin

text \<open>
  The registered tools (src/src/tool_runner.rs): quick fixes read off the output of a linter, the repair loop that lints and fixes
  in turn, and pipelines of stages. A plugin is a record of its operations on a world, since its commands run outside programs;
  parsing their output and applying JSON patches belong to libraries and are part of those operations.
\<close>

section \<open>Tools\<close>

record tool_descriptor =
  td_id :: string
  td_commands :: "string list"
  td_quickfix :: bool
  td_quickfix_format :: "string option"

record tool_result =
  tr_tool :: string
  tr_command :: string
  tr_exit :: int
  tr_output :: jvalue
  tr_stderr :: string

record repair_iteration =
  ri_iteration :: nat
  ri_diagnostics :: jvalue
  ri_fixes :: nat
  ri_clean :: bool

record repair_result =
  rr_tool :: string
  rr_iterations :: "repair_iteration list"
  rr_total_iterations :: nat
  rr_total_fixes :: nat
  rr_final_clean :: bool

record pipeline_result =
  pr_tool :: string
  pr_stages :: "tool_result list"
  pr_all_ok :: bool
  pr_short_circuited :: "string option"

datatype quick_fix =
    JsonPatch string jvalue
  | StringReplace string string string

section \<open>Quick fixes\<close>

definition extract_json_patch_fixes :: "jvalue \<Rightarrow> quick_fix list" where
  "extract_json_patch_fixes output =
     (case Option.bind (json_get ''diagnostics'' output) json_as_array of
        Some diagnostics \<Rightarrow>
          List.map_filter (\<lambda>diag.
            case (Option.bind (json_get ''file'' diag) json_as_str, json_get ''quickfix'' diag) of
              (Some file, Some patch) \<Rightarrow> if patch \<noteq> JNull then Some (JsonPatch file patch) else None
            | _ \<Rightarrow> None) diagnostics
      | None \<Rightarrow> [])"

definition extract_string_replace_fixes :: "jvalue \<Rightarrow> quick_fix list" where
  "extract_string_replace_fixes output =
     (case Option.bind (json_get ''diagnostics'' output) json_as_array of
        Some diagnostics \<Rightarrow>
          List.map_filter (\<lambda>diag.
            case (Option.bind (json_get ''file'' diag) json_as_str, Option.bind (json_get ''old'' diag) json_as_str,
                  Option.bind (json_get ''new'' diag) json_as_str) of
              (Some file, Some old, Some new) \<Rightarrow> Some (StringReplace file old new)
            | _ \<Rightarrow> None) diagnostics
      | None \<Rightarrow> [])"

definition extract_quickfixes :: "tool_descriptor \<Rightarrow> jvalue \<Rightarrow> quick_fix list" where
  "extract_quickfixes desc output =
     (if \<not> td_quickfix desc then []
      else if td_quickfix_format desc = Some ''json_patch'' then extract_json_patch_fixes output
      else if td_quickfix_format desc = Some ''string_replace'' then extract_string_replace_fixes output
      else [])"

text \<open>Applying a fix to a file of the world; \<open>patch\<close> parses a document, applies a JSON patch and prints the result.\<close>

definition apply_quickfix ::
  "(jvalue \<Rightarrow> string \<Rightarrow> string + string) \<Rightarrow> io_faults \<Rightarrow> string \<Rightarrow> quick_fix \<Rightarrow> file_world \<Rightarrow> (string + bool) \<times> file_world" where
  "apply_quickfix patch io cwd fix w =
     (case fix of
        JsonPatch file p \<Rightarrow>
          (case read_to_string io w (path_join cwd file) of
             Inl (_, e) \<Rightarrow> (Inl (''read: '' @ e), w)
           | Inr content \<Rightarrow>
               (case patch p content of
                  Inl e \<Rightarrow> (Inl e, w)
                | Inr out \<Rightarrow>
                    (case write_file io (path_join cwd file) out w of
                       (None, w1) \<Rightarrow> (Inr True, w1)
                     | (Some e, w1) \<Rightarrow> (Inl (''write: '' @ e), w1))))
      | StringReplace file old new \<Rightarrow>
          (case read_to_string io w (path_join cwd file) of
             Inl (_, e) \<Rightarrow> (Inl (''read: '' @ e), w)
           | Inr content \<Rightarrow>
               if contains_str old content
               then (case write_file io (path_join cwd file) (replace_first old new content) w of
                       (None, w1) \<Rightarrow> (Inr True, w1)
                     | (Some e, w1) \<Rightarrow> (Inl (''write: '' @ e), w1))
               else (Inr False, w)))"

section \<open>The repair loop\<close>

record 'w tool_plugin =
  tp_descriptor :: tool_descriptor
  tp_run :: "string \<Rightarrow> 'w \<Rightarrow> (string + tool_result) \<times> 'w"
  tp_quickfixes :: "jvalue \<Rightarrow> quick_fix list"
  tp_apply :: "quick_fix \<Rightarrow> 'w \<Rightarrow> (string + bool) \<times> 'w"

type_synonym 'w registry = "(string \<times> 'w tool_plugin) list"

definition register_plugin :: "'w tool_plugin \<Rightarrow> 'w registry \<Rightarrow> 'w registry" where
  "register_plugin plugin reg = AList.update (td_id (tp_descriptor plugin)) plugin reg"

definition unknown_tool :: "string \<Rightarrow> string" where
  "unknown_tool tool = ''unknown tool: '' @ tool"

definition run_tool :: "'w registry \<Rightarrow> string \<Rightarrow> string \<Rightarrow> 'w \<Rightarrow> (string + tool_result) \<times> 'w" where
  "run_tool reg tool command w =
     (case map_of reg tool of None \<Rightarrow> (Inl (unknown_tool tool), w) | Some plugin \<Rightarrow> tp_run plugin command w)"

text \<open>A fix that fails is reported on the terminal and counts as not applied.\<close>

fun apply_fixes :: "'w tool_plugin \<Rightarrow> quick_fix list \<Rightarrow> 'w \<Rightarrow> nat \<times> 'w" where
  "apply_fixes plugin [] w = (0, w)"
| "apply_fixes plugin (f # fs) w =
     (let (r, w1) = tp_apply plugin f w; (n, w2) = apply_fixes plugin fs w1
      in ((if r = Inr True then 1 else 0) + n, w2))"

text \<open>The loop from iteration \<open>i\<close> on, with \<open>left\<close> iterations to go.\<close>

fun repair_loop :: "'w tool_plugin \<Rightarrow> nat \<Rightarrow> nat \<Rightarrow> 'w \<Rightarrow> (string + repair_iteration list) \<times> 'w" where
  "repair_loop plugin i 0 w = (Inr [], w)"
| "repair_loop plugin i (Suc left) w =
     (case tp_run plugin ''lint'' w of
        (Inl e, w1) \<Rightarrow> (Inl e, w1)
      | (Inr lint, w1) \<Rightarrow>
          (let fixes = tp_quickfixes plugin (tr_output lint) in
           if fixes = [] \<or> tr_exit lint = 0
           then (Inr [\<lparr>ri_iteration = i + 1, ri_diagnostics = tr_output lint, ri_fixes = 0, ri_clean = (tr_exit lint = 0)\<rparr>], w1)
           else
             (let (applied, w2) = apply_fixes plugin fixes w1;
                  it = \<lparr>ri_iteration = i + 1, ri_diagnostics = tr_output lint, ri_fixes = applied, ri_clean = False\<rparr>
              in if applied = 0 then (Inr [it], w2)
                 else (case repair_loop plugin (i + 1) left w2 of
                         (Inl e, w3) \<Rightarrow> (Inl e, w3)
                       | (Inr its, w3) \<Rightarrow> (Inr (it # its), w3)))))"

definition repair :: "'w registry \<Rightarrow> string \<Rightarrow> nat \<Rightarrow> 'w \<Rightarrow> (string + repair_result) \<times> 'w" where
  "repair reg tool max_iterations w =
     (case map_of reg tool of
        None \<Rightarrow> (Inl (unknown_tool tool), w)
      | Some plugin \<Rightarrow>
          if ''lint'' \<notin> set (td_commands (tp_descriptor plugin))
          then (Inl (''tool '' @ quoted tool @ '' has no 'lint' command''), w)
          else
            (case repair_loop plugin 0 max_iterations w of
               (Inl e, w1) \<Rightarrow> (Inl e, w1)
             | (Inr its, w1) \<Rightarrow>
                 (Inr \<lparr>rr_tool = tool, rr_iterations = its, rr_total_iterations = length its,
                       rr_total_fixes = sum_list (map ri_fixes its), rr_final_clean = (its \<noteq> [] \<and> ri_clean (List.last its))\<rparr>, w1)))"

section \<open>Pipelines\<close>

text \<open>\<open>render\<close> is the JSON of a repair result.\<close>

definition run_stage ::
  "(repair_result \<Rightarrow> jvalue) \<Rightarrow> 'w registry \<Rightarrow> 'w tool_plugin \<Rightarrow> string \<Rightarrow> string \<Rightarrow> 'w \<Rightarrow> (string + tool_result) \<times> 'w" where
  "run_stage render reg plugin tool stage w =
     (if stage = ''lint_fix''
      then (case repair reg tool 3 w of
              (Inl e, w1) \<Rightarrow> (Inl e, w1)
            | (Inr r, w1) \<Rightarrow>
                (Inr \<lparr>tr_tool = tool, tr_command = ''lint_fix'', tr_exit = (if rr_final_clean r then 0 else 1),
                      tr_output = render r, tr_stderr = []\<rparr>, w1))
      else tp_run plugin stage w)"

fun run_stages ::
  "(repair_result \<Rightarrow> jvalue) \<Rightarrow> 'w registry \<Rightarrow> 'w tool_plugin \<Rightarrow> string \<Rightarrow> string list \<Rightarrow> 'w
    \<Rightarrow> (string + tool_result list \<times> string option) \<times> 'w" where
  "run_stages render reg plugin tool [] w = (Inr ([], None), w)"
| "run_stages render reg plugin tool (stage # stages) w =
     (case run_stage render reg plugin tool stage w of
        (Inl e, w1) \<Rightarrow> (Inl e, w1)
      | (Inr r, w1) \<Rightarrow>
          if tr_exit r \<noteq> 0 then (Inr ([r], Some stage), w1)
          else (case run_stages render reg plugin tool stages w1 of
                  (Inl e, w2) \<Rightarrow> (Inl e, w2)
                | (Inr (rs, stop), w2) \<Rightarrow> (Inr (r # rs, stop), w2)))"

definition run_pipeline ::
  "(repair_result \<Rightarrow> jvalue) \<Rightarrow> 'w registry \<Rightarrow> string \<Rightarrow> string list \<Rightarrow> 'w \<Rightarrow> (string + pipeline_result) \<times> 'w" where
  "run_pipeline render reg tool stages w =
     (case map_of reg tool of
        None \<Rightarrow> (Inl (unknown_tool tool), w)
      | Some plugin \<Rightarrow>
          (case run_stages render reg plugin tool stages w of
             (Inl e, w1) \<Rightarrow> (Inl e, w1)
           | (Inr (rs, stop), w1) \<Rightarrow>
               (Inr \<lparr>pr_tool = tool, pr_stages = rs, pr_all_ok = (stop = None), pr_short_circuited = stop\<rparr>, w1)))"

section \<open>Properties of the repair loop\<close>

lemma repair_loop_shape:
  "repair_loop plugin i left w = (Inr its, w') \<Longrightarrow>
     length its \<le> left \<and> map ri_iteration its = map Suc [i ..< i + length its]
     \<and> (\<forall>it \<in> set (butlast its). \<not> ri_clean it \<and> 0 < ri_fixes it)
     \<and> (left \<noteq> 0 \<longrightarrow> its \<noteq> [])
     \<and> (its \<noteq> [] \<and> ri_clean (List.last its) \<longrightarrow> ri_fixes (List.last its) = 0
          \<and> (\<exists>w0 lint. tp_run plugin ''lint'' w0 = (Inr lint, w') \<and> tr_exit lint = 0 \<and> ri_diagnostics (List.last its) = tr_output lint))"
proof (induction plugin i left w arbitrary: its rule: repair_loop.induct)
  case (2 plugin i left w)
  obtain r w1 where run: "tp_run plugin ''lint'' w = (r, w1)" by (rule prod.exhaust)
  obtain lint where r: "r = Inr lint" using "2.prems" run by (cases r) simp_all
  let ?fixes = "tp_quickfixes plugin (tr_output lint)"
  show ?case
  proof (cases "?fixes = [] \<or> tr_exit lint = 0")
    case True
    with "2.prems" run r show ?thesis by (auto intro!: exI [of _ w] exI [of _ lint])
  next
    case False
    obtain applied w2 where ap: "apply_fixes plugin ?fixes w1 = (applied, w2)" by (rule prod.exhaust)
    show ?thesis
    proof (cases "applied = 0")
      case True
      with "2.prems" run r False ap show ?thesis by auto
    next
      case some: False
      obtain q w3 where rest: "repair_loop plugin (i + 1) left w2 = (q, w3)" by (rule prod.exhaust)
      obtain js where q: "q = Inr js" using "2.prems" run r False ap some rest by (cases q) simp_all
      define it where "it = \<lparr>ri_iteration = i + 1, ri_diagnostics = tr_output lint, ri_fixes = applied, ri_clean = False\<rparr>"
      have its: "its = it # js" "w' = w3" using "2.prems" run r False ap some rest q by (simp_all add: it_def)
      have it: "ri_iteration it = Suc i" "ri_fixes it = applied" "\<not> ri_clean it" by (simp_all add: it_def)
      note IH = "2.IH" [OF run [symmetric] r refl False ap [symmetric] refl refl some, of js]
      have "length js \<le> left" "map ri_iteration js = map Suc [i + 1 ..< i + 1 + length js]"
        "\<forall>it \<in> set (butlast js). \<not> ri_clean it \<and> 0 < ri_fixes it"
        "js \<noteq> [] \<and> ri_clean (List.last js) \<longrightarrow> ri_fixes (List.last js) = 0
          \<and> (\<exists>w0 lint. tp_run plugin ''lint'' w0 = (Inr lint, w') \<and> tr_exit lint = 0 \<and> ri_diagnostics (List.last js) = tr_output lint)"
        using IH rest q its(2) by simp_all
      then show ?thesis using it some unfolding its(1) by (cases "js = []") (simp_all add: upt_conv_Cons Suc_le_eq)
    qed
  qed
qed simp

text \<open>
  Property C21. The report of a repair is truthful: the loop lints at most as often as allowed and numbers its iterations from one, every
  iteration but the last applied a fix, the fixes add up, and when the report says that the result is clean, the linter
  succeeded and nothing was changed after it.
\<close>

theorem repair_report_truthful:
  assumes "repair reg tool n w = (Inr r, w')"
  shows "rr_total_iterations r \<le> n \<and> map ri_iteration (rr_iterations r) = [1 ..< rr_total_iterations r + 1]
    \<and> (\<forall>it \<in> set (butlast (rr_iterations r)). \<not> ri_clean it \<and> 0 < ri_fixes it)
    \<and> rr_total_fixes r = sum_list (map ri_fixes (rr_iterations r))
    \<and> (rr_final_clean r \<longrightarrow> (\<exists>plugin w0 lint. map_of reg tool = Some plugin \<and> tp_run plugin ''lint'' w0 = (Inr lint, w') \<and> tr_exit lint = 0))"
proof -
  obtain plugin where p: "map_of reg tool = Some plugin" "''lint'' \<in> set (td_commands (tp_descriptor plugin))"
    using assms by (cases "map_of reg tool") (auto simp: repair_def split: if_splits)
  obtain q w1 where loop: "repair_loop plugin 0 n w = (q, w1)" by (rule prod.exhaust)
  obtain its where q: "q = Inr its" using assms p loop by (cases q) (simp_all add: repair_def)
  have r: "r = \<lparr>rr_tool = tool, rr_iterations = its, rr_total_iterations = length its,
      rr_total_fixes = sum_list (map ri_fixes its), rr_final_clean = (its \<noteq> [] \<and> ri_clean (List.last its))\<rparr>" "w' = w1"
    using assms p loop q by (simp_all add: repair_def)
  have "map Suc [0 ..< length its] = [1 ..< length its + 1]" by (simp add: map_Suc_upt)
  with repair_loop_shape [OF loop [unfolded q]] p(1) show ?thesis unfolding r by auto
qed

text \<open>A sample tool whose world is whether its one finding is still there.\<close>

definition sample_plugin :: "bool tool_plugin" where
  "sample_plugin = \<lparr>tp_descriptor = \<lparr>td_id = ''x'', td_commands = [''lint''], td_quickfix = True, td_quickfix_format = None\<rparr>,
     tp_run = (\<lambda>c w. (Inr \<lparr>tr_tool = ''x'', tr_command = c, tr_exit = (if w then 1 else 0), tr_output = JNull, tr_stderr = []\<rparr>, w)),
     tp_quickfixes = (\<lambda>_. [StringReplace ''f'' ''a'' ''b'']), tp_apply = (\<lambda>_ w. (Inr w, False))\<rparr>"

theorem repair_report_truthful_witness:
  "\<exists>r. repair (register_plugin sample_plugin []) ''x'' 3 True = (Inr r, False) \<and> rr_final_clean r \<and> rr_total_iterations r \<le> 3
     \<and> (\<exists>plugin w0 lint. map_of (register_plugin sample_plugin []) ''x'' = Some plugin
          \<and> tp_run plugin ''lint'' w0 = (Inr lint, False) \<and> tr_exit lint = 0)"
proof -
  obtain q w' where run: "repair (register_plugin sample_plugin []) ''x'' 3 True = (q, w')" by (rule prod.exhaust)
  have "(case fst (repair (register_plugin sample_plugin []) ''x'' 3 True) of Inr r \<Rightarrow> rr_final_clean r | Inl _ \<Rightarrow> False)"
    "snd (repair (register_plugin sample_plugin []) ''x'' 3 True) = False" by code_simp+
  then obtain r where "q = Inr r" "rr_final_clean r" "w' = False" using run by (cases q) simp_all
  with run repair_report_truthful [of "register_plugin sample_plugin []" "''x''" 3 True r w'] show ?thesis by blast
qed

text \<open>
  Observation. The fixes of the last iteration are not checked: a repair whose last allowed iteration fixes everything is reported as
  not clean, and a \<open>lint_fix\<close> stage fails on it.
\<close>

theorem fix_in_last_iteration_is_reported_unclean:
  "(case fst (repair (register_plugin sample_plugin []) ''x'' 1 True) of Inr r \<Rightarrow> \<not> rr_final_clean r | Inl _ \<Rightarrow> False)
   \<and> snd (repair (register_plugin sample_plugin []) ''x'' 1 True) = False"
  by code_simp

section \<open>Properties of pipelines\<close>

text \<open>A run of stages one after the other, each successful.\<close>

inductive stages_succeed :: "(repair_result \<Rightarrow> jvalue) \<Rightarrow> 'w registry \<Rightarrow> 'w tool_plugin \<Rightarrow> string \<Rightarrow> string list \<Rightarrow> 'w \<Rightarrow> tool_result list \<Rightarrow> 'w \<Rightarrow> bool"
  for render reg plugin tool where
  none: "stages_succeed render reg plugin tool [] w [] w"
| one: "run_stage render reg plugin tool stage w = (Inr r, w1) \<Longrightarrow> tr_exit r = 0 \<Longrightarrow> stages_succeed render reg plugin tool stages w1 rs w2
    \<Longrightarrow> stages_succeed render reg plugin tool (stage # stages) w (r # rs) w2"

inductive_simps stages_succeed_simps [simp]:
  "stages_succeed render reg plugin tool [] w rs w'" "stages_succeed render reg plugin tool (stage # stages) w rs w'"

lemma run_stages_split:
  "run_stages render reg plugin tool stages w = (Inr (rs, stop), w') \<Longrightarrow>
     (case stop of
        None \<Rightarrow> stages_succeed render reg plugin tool stages w rs w'
      | Some stage \<Rightarrow> (\<exists>before later rs0 w0 r. stages = before @ stage # later \<and> rs = rs0 @ [r] \<and> stages_succeed render reg plugin tool before w rs0 w0
            \<and> run_stage render reg plugin tool stage w0 = (Inr r, w') \<and> tr_exit r \<noteq> 0))"
proof (induction stages arbitrary: w rs)
  case (Cons stage stages)
  obtain q w1 where run: "run_stage render reg plugin tool stage w = (q, w1)" by (rule prod.exhaust)
  obtain r where q: "q = Inr r" using Cons.prems run by (cases q) simp_all
  show ?case
  proof (cases "tr_exit r = 0")
    case False
    with Cons.prems run q have "rs = [r]" "stop = Some stage" "w' = w1" by simp_all
    with False run q show ?thesis
      by simp (rule exI [of _ "[]"], simp)
  next
    case True
    obtain rs' where rest: "run_stages render reg plugin tool stages w1 = (Inr (rs', stop), w')" "rs = r # rs'"
      using Cons.prems run q True by (auto split: prod.splits sum.splits)
    note IH = Cons.IH [OF rest(1)]
    show ?thesis
    proof (cases stop)
      case None
      with IH run q True rest(2) show ?thesis by auto
    next
      case (Some s)
      with IH obtain before later rs0 w0 r' where i: "stages = before @ s # later" "rs' = rs0 @ [r']"
        "stages_succeed render reg plugin tool before w1 rs0 w0" "run_stage render reg plugin tool s w0 = (Inr r', w')" "tr_exit r' \<noteq> 0" by auto
      then have "stages_succeed render reg plugin tool (stage # before) w (r # rs0) w0" using run q True by auto
      moreover have "stage # stages = (stage # before) @ s # later" "rs = (r # rs0) @ [r']" using i rest(2) by simp_all
      ultimately show ?thesis unfolding Some option.case using i(4,5) by blast
    qed
  qed
qed auto

text \<open>
  Property C22. A pipeline runs its stages in order and stops at the first that fails: when it reports success every stage ran
  and succeeded; otherwise the stages before the named one succeeded, that stage ran and failed, and none after it ran.
\<close>

theorem pipeline_stops_at_first_failure:
  assumes "run_pipeline render reg tool stages w = (Inr r, w')"
  shows "\<exists>plugin. map_of reg tool = Some plugin \<and>
    (if pr_all_ok r then pr_short_circuited r = None \<and> stages_succeed render reg plugin tool stages w (pr_stages r) w'
     else \<exists>before stage later rs0 w0 last_result. pr_short_circuited r = Some stage \<and> stages = before @ stage # later \<and> pr_stages r = rs0 @ [last_result]
       \<and> stages_succeed render reg plugin tool before w rs0 w0 \<and> run_stage render reg plugin tool stage w0 = (Inr last_result, w')
       \<and> tr_exit last_result \<noteq> 0)"
proof -
  obtain plugin where p: "map_of reg tool = Some plugin" using assms by (cases "map_of reg tool") (simp_all add: run_pipeline_def)
  obtain rs stop where run: "run_stages render reg plugin tool stages w = (Inr (rs, stop), w')"
    and r: "r = \<lparr>pr_tool = tool, pr_stages = rs, pr_all_ok = (stop = None), pr_short_circuited = stop\<rparr>"
    using assms p by (auto simp: run_pipeline_def split: prod.splits sum.splits)
  from run_stages_split [OF run] p show ?thesis unfolding r by (cases stop) auto
qed

theorem pipeline_stops_at_first_failure_witness:
  "\<exists>r. run_pipeline (\<lambda>_. JNull) (register_plugin sample_plugin []) ''x'' [''lint'', ''build''] True = (Inr r, True) \<and> pr_short_circuited r = Some ''lint''
     \<and> length (pr_stages r) = 1"
proof -
  obtain q w' where run: "run_pipeline (\<lambda>_. JNull) (register_plugin sample_plugin []) ''x'' [''lint'', ''build''] True = (q, w')" by (rule prod.exhaust)
  have c: "(case fst (run_pipeline (\<lambda>_. JNull) (register_plugin sample_plugin []) ''x'' [''lint'', ''build''] True) of
      Inr r \<Rightarrow> \<not> pr_all_ok r \<and> pr_short_circuited r = Some ''lint'' | Inl _ \<Rightarrow> False)"
    "snd (run_pipeline (\<lambda>_. JNull) (register_plugin sample_plugin []) ''x'' [''lint'', ''build''] True) = True" by code_simp+
  then obtain r where r: "q = Inr r" "\<not> pr_all_ok r" "pr_short_circuited r = Some ''lint''" "w' = True" using run by (cases q) simp_all
  from pipeline_stops_at_first_failure [OF run [unfolded r(1)]] r(2,3) obtain before later rs0 w0 l plugin where
    "[''lint'', ''build''] = before @ ''lint'' # later" "pr_stages r = rs0 @ [l]"
    "stages_succeed (\<lambda>_. JNull) (register_plugin sample_plugin []) plugin ''x'' before True rs0 w0" by auto
  moreover from this(1) have "before = []" by (cases before) (auto simp: Cons_eq_append_conv)
  ultimately have "length (pr_stages r) = 1" by simp
  with run r show ?thesis by blast
qed

end
