(* ===== verification/Pipeline_Cache.thy ===== *)
theory Pipeline_Cache
  imports Json_Value "HOL-Library.AList" "HOL-Library.Multiset"
begin

text \<open>
  The cache of tool results (src/src/pipeline_cache.rs): entries with the logical time of their last use, a cap with eviction of the entry used
  least recently, and a flag by which the file watcher invalidates everything. The contract of a cache that forgets the least recently used
  entry is a locale over the list of its entries by recency; the stamped entries of the code implement it.
\<close>

section \<open>The cache\<close>

type_synonym cache_key = "string \<times> string"

record cached_result =
  ca_output :: jvalue
  ca_exit :: int
  ca_touched :: nat

record pipeline_cache =
  pc_entries :: "(cache_key \<times> cached_result) list"
  pc_max :: nat
  pc_counter :: nat
  pc_dirty :: bool

definition next_stamp :: "pipeline_cache \<Rightarrow> nat" where
  "next_stamp s = (pc_counter s + 1) mod (u64_max + 1)"

definition ca_value :: "cached_result \<Rightarrow> jvalue \<times> int" where
  "ca_value c = (ca_output c, ca_exit c)"

text \<open>A lookup first takes the flag and then, under the lock, clears the entries or looks the key up.\<close>

definition take_dirty :: "pipeline_cache \<Rightarrow> bool \<times> pipeline_cache" where
  "take_dirty s = (pc_dirty s, s\<lparr>pc_dirty := False\<rparr>)"

definition clear_or_look_up :: "bool \<Rightarrow> cache_key \<Rightarrow> pipeline_cache \<Rightarrow> (jvalue \<times> int) option \<times> pipeline_cache" where
  "clear_or_look_up dirty key s =
     (if dirty then (None, s\<lparr>pc_entries := []\<rparr>)
      else case map_of (pc_entries s) key of
             None \<Rightarrow> (None, s)
           | Some c \<Rightarrow>
               (Some (ca_value c),
                s\<lparr>pc_entries := AList.update key (c\<lparr>ca_touched := next_stamp s\<rparr>) (pc_entries s), pc_counter := next_stamp s\<rparr>))"

definition cache_get :: "cache_key \<Rightarrow> pipeline_cache \<Rightarrow> (jvalue \<times> int) option \<times> pipeline_cache" where
  "cache_get key s = (let (dirty, s1) = take_dirty s in clear_or_look_up dirty key s1)"

text \<open>\<open>min_by_key\<close>: the first of the entries with the smallest stamp; sorting is stable.\<close>

definition evict_key :: "(cache_key \<times> cached_result) list \<Rightarrow> cache_key option" where
  "evict_key es = (if es = [] then None else Some (fst (hd (sort_key (\<lambda>e. ca_touched (snd e)) es))))"

definition cache_put :: "cache_key \<Rightarrow> jvalue \<times> int \<Rightarrow> pipeline_cache \<Rightarrow> pipeline_cache" where
  "cache_put key v s =
     (let es = pc_entries s;
          kept = (if map_of es key = None \<and> pc_max s \<le> length es
                  then (case evict_key es of Some k \<Rightarrow> AList.delete k es | None \<Rightarrow> es) else es)
      in s\<lparr>pc_entries := AList.update key \<lparr>ca_output = fst v, ca_exit = snd v, ca_touched = next_stamp s\<rparr> kept,
           pc_counter := next_stamp s\<rparr>)"

text \<open>The callback of the file watcher.\<close>

definition mark_dirty :: "pipeline_cache \<Rightarrow> pipeline_cache" where
  "mark_dirty s = s\<lparr>pc_dirty := True\<rparr>"

section \<open>The contract\<close>

text \<open>Entries by recency, the most recent first.\<close>

definition touch :: "'k \<Rightarrow> 'v \<Rightarrow> ('k \<times> 'v) list \<Rightarrow> ('k \<times> 'v) list" where
  "touch k v l = (k, v) # filter (\<lambda>e. fst e \<noteq> k) l"

definition make_room :: "nat \<Rightarrow> 'k \<Rightarrow> ('k \<times> 'v) list \<Rightarrow> ('k \<times> 'v) list" where
  "make_room cap k l = (if k \<notin> fst ` set l \<and> cap \<le> length l then butlast l else l)"

datatype ('k, 'v) cache_op = Use 'k | Store 'k 'v

primrec op_key :: "('k, 'v) cache_op \<Rightarrow> 'k" where
  "op_key (Use k) = k"
| "op_key (Store k v) = k"

locale lru_cache =
  fixes get :: "'k \<Rightarrow> 's \<Rightarrow> 'v option \<times> 's"
    and put :: "'k \<Rightarrow> 'v \<Rightarrow> 's \<Rightarrow> 's"
    and valid :: "'s \<Rightarrow> bool"
    and room :: "'s \<Rightarrow> nat"
    and cap :: "'s \<Rightarrow> nat"
    and recency :: "'s \<Rightarrow> ('k \<times> 'v) list"
  assumes distinct_recency: "valid s \<Longrightarrow> distinct (map fst (recency s))"
    and get_result: "valid s \<Longrightarrow> fst (get k s) = map_of (recency s) k"
    and get_recency: "valid s \<Longrightarrow> 0 < room s \<Longrightarrow>
      recency (snd (get k s)) = (case map_of (recency s) k of Some v \<Rightarrow> touch k v (recency s) | None \<Rightarrow> recency s)"
    and get_valid: "valid s \<Longrightarrow> 0 < room s \<Longrightarrow> valid (snd (get k s)) \<and> room s - 1 \<le> room (snd (get k s)) \<and> cap (snd (get k s)) = cap s"
    and put_recency: "valid s \<Longrightarrow> 0 < room s \<Longrightarrow> recency (put k v s) = touch k v (make_room (cap s) k (recency s))"
    and put_valid: "valid s \<Longrightarrow> 0 < room s \<Longrightarrow> valid (put k v s) \<and> room s - 1 \<le> room (put k v s) \<and> cap (put k v s) = cap s"
begin

primrec step :: "('k, 'v) cache_op \<Rightarrow> 's \<Rightarrow> 's" where
  "step (Use k) s = snd (get k s)"
| "step (Store k v) s = put k v s"

lemma step_valid: "valid s \<Longrightarrow> 0 < room s \<Longrightarrow> valid (step op s) \<and> room s - 1 \<le> room (step op s) \<and> cap (step op s) = cap s"
  using get_valid put_valid by (cases op) simp_all

lemma run_valid:
  "valid s \<Longrightarrow> length ops \<le> room s \<Longrightarrow> valid (fold step ops s) \<and> room s - length ops \<le> room (fold step ops s) \<and> cap (fold step ops s) = cap s"
proof (induction ops arbitrary: s)
  case (Cons op ops)
  have s: "valid (step op s)" "room s - 1 \<le> room (step op s)" "cap (step op s) = cap s" using step_valid Cons.prems by simp_all
  with Cons.IH [of "step op s"] Cons.prems show ?case by fastforce
qed simp

text \<open>Only entries whose keys were used since can be in front of an entry.\<close>

lemma step_keeps:
  assumes "valid s" "0 < room s" "recency s = xs @ (k, v) # ys" "fst ` set xs \<subseteq> D" "finite D" "k \<notin> D" "op_key op \<in> D" "card D < cap s"
  shows "\<exists>xs' ys'. recency (step op s) = xs' @ (k, v) # ys' \<and> fst ` set xs' \<subseteq> D"
proof -
  have front: "\<exists>xs' ys'. touch q u (xs @ (k, v) # zs) = xs' @ (k, v) # ys' \<and> fst ` set xs' \<subseteq> D" if "q \<in> D" for q u zs
    using that assms(4,6) by (intro exI [of _ "(q, u) # filter (\<lambda>e. fst e \<noteq> q) xs"] exI [of _ "filter (\<lambda>e. fst e \<noteq> q) zs"])
      (auto simp: touch_def)
  show ?thesis
  proof (cases op)
    case (Use q)
    with assms front [of q] show ?thesis by (auto simp: get_recency split: option.split)
  next
    case (Store q u)
    have "\<exists>zs. make_room (cap s) q (recency s) = xs @ (k, v) # zs"
    proof (cases "ys = [] \<and> q \<notin> fst ` set (recency s)")
      case True
      have "distinct (map fst xs)" using distinct_recency [OF assms(1)] assms(3) by simp
      then have "length xs = card (fst ` set xs)" using distinct_card [of "map fst xs"] by simp
      also have "\<dots> < card D" using True Store assms by (intro psubset_card_mono) auto
      finally have "length (recency s) < cap s" using True assms(3,8) by simp
      then show ?thesis using True assms(3) by (simp add: make_room_def)
    next
      case False
      then show ?thesis using assms(3) by (auto simp: make_room_def butlast_append)
    qed
    then obtain zs where "make_room (cap s) q (recency s) = xs @ (k, v) # zs" by blast
    with Store assms(1,2,7) front [of q u zs] show ?thesis by (simp add: put_recency)
  qed
qed

lemma run_keeps:
  assumes "valid s" "length ops \<le> room s" "recency s = xs @ (k, v) # ys" "fst ` set xs \<subseteq> D" "finite D" "k \<notin> D" "op_key ` set ops \<subseteq> D" "card D < cap s"
  shows "\<exists>xs' ys'. recency (fold step ops s) = xs' @ (k, v) # ys'"
  using assms
proof (induction ops arbitrary: s xs ys)
  case (Cons op ops)
  have "0 < room s" using Cons.prems(2) by simp
  with Cons.prems obtain xs' ys' where "recency (step op s) = xs' @ (k, v) # ys'" "fst ` set xs' \<subseteq> D"
    using step_keeps [of s xs k v ys D op] by auto
  moreover have "valid (step op s)" "length ops \<le> room (step op s)" "cap (step op s) = cap s"
    using step_valid [of s op] Cons.prems \<open>0 < room s\<close> by auto
  ultimately show ?case using Cons.IH [of "step op s" xs' ys'] Cons.prems by auto
qed auto

text \<open>What was stored is found until as many other keys as the cache holds were used.\<close>

lemma stored_is_found:
  assumes "valid s" "length ops < room s" "k \<notin> op_key ` set ops" "card (op_key ` set ops) < cap s"
  shows "fst (get k (fold step ops (put k v s))) = Some v"
proof -
  have p: "valid (put k v s)" "room s - 1 \<le> room (put k v s)" "cap (put k v s) = cap s" using put_valid assms by simp_all
  have "recency (put k v s) = [] @ (k, v) # filter (\<lambda>e. fst e \<noteq> k) (make_room (cap s) k (recency s))"
    using put_recency assms(1,2) by (simp add: touch_def)
  moreover have "length ops \<le> room (put k v s)" using p(2) assms(2) by linarith
  ultimately obtain xs ys where r: "recency (fold step ops (put k v s)) = xs @ (k, v) # ys"
    using run_keeps [OF p(1), of ops "[]" k v _ "op_key ` set ops"] p(3) assms(3,4) by auto
  have v: "valid (fold step ops (put k v s))" using run_valid [OF p(1), of ops] p(2) assms(2) by simp
  from distinct_recency [OF v] r have "map_of (recency (fold step ops (put k v s))) k = Some v" using map_of_is_SomeI [of "recency (fold step ops (put k v s))" k v] by simp
  with get_result [OF v] show ?thesis by simp
qed

text \<open>The cache holds at most as many entries as it may, but always one.\<close>

lemma put_bounded: "valid s \<Longrightarrow> 0 < room s \<Longrightarrow> length (recency s) \<le> max 1 (cap s) \<Longrightarrow> length (recency (put k v s)) \<le> max 1 (cap s)"
proof -
  assume s: "valid s" "0 < room s" "length (recency s) \<le> max 1 (cap s)"
  let ?l = "recency s"
  show ?thesis
  proof (cases "k \<in> fst ` set ?l")
    case True
    then have "length (filter (\<lambda>e. fst e \<noteq> k) ?l) < length ?l" by (auto intro!: length_filter_less)
    with True s show ?thesis by (simp add: put_recency touch_def make_room_def)
  next
    case False
    then have "filter (\<lambda>e. fst e \<noteq> k) ?l = ?l" "filter (\<lambda>e. fst e \<noteq> k) (butlast ?l) = butlast ?l"
      by (auto intro!: filter_True dest: in_set_butlastD)
    with False s show ?thesis by (auto simp: put_recency touch_def make_room_def)
  qed
qed

lemma step_bounded: "valid s \<Longrightarrow> 0 < room s \<Longrightarrow> length (recency s) \<le> max 1 (cap s) \<Longrightarrow> length (recency (step op s)) \<le> max 1 (cap s)"
proof (cases op)
  case (Use k)
  assume s: "valid s" "0 < room s" "length (recency s) \<le> max 1 (cap s)"
  have "length (touch k v (recency s)) \<le> length (recency s)" if "map_of (recency s) k = Some v" for v
  proof -
    have "(k, v) \<in> set (recency s)" using that by (rule map_of_SomeD)
    then have "length (filter (\<lambda>e. fst e \<noteq> k) (recency s)) < length (recency s)" by (intro length_filter_less) auto
    then show ?thesis by (simp add: touch_def)
  qed
  with s Use show ?thesis by (fastforce simp: get_recency split: option.split)
next
  case (Store k v)
  then show "valid s \<Longrightarrow> 0 < room s \<Longrightarrow> length (recency s) \<le> max 1 (cap s) \<Longrightarrow> length (recency (step op s)) \<le> max 1 (cap s)"
    using put_bounded [of s k v] by simp
qed

lemma run_bounded:
  "valid s \<Longrightarrow> length ops \<le> room s \<Longrightarrow> length (recency s) \<le> max 1 (cap s) \<Longrightarrow> length (recency (fold step ops s)) \<le> max 1 (cap s)"
proof (induction ops arbitrary: s)
  case (Cons op ops)
  have s: "valid (step op s)" "room s - 1 \<le> room (step op s)" "cap (step op s) = cap s" using step_valid Cons.prems by simp_all
  with step_bounded [of s op] Cons.IH [of "step op s"] Cons.prems show ?case by auto
qed simp

end

section \<open>Stamps implement recency\<close>

abbreviation stamp :: "cache_key \<times> cached_result \<Rightarrow> nat" where
  "stamp e \<equiv> ca_touched (snd e)"

definition by_recency :: "(cache_key \<times> cached_result) list \<Rightarrow> (cache_key \<times> cached_result) list" where
  "by_recency es = rev (sort_key stamp es)"

definition cache_recency :: "pipeline_cache \<Rightarrow> (cache_key \<times> (jvalue \<times> int)) list" where
  "cache_recency s = map (\<lambda>e. (fst e, ca_value (snd e))) (by_recency (pc_entries s))"

definition stamps_ok :: "nat \<Rightarrow> (cache_key \<times> cached_result) list \<Rightarrow> bool" where
  "stamps_ok n es \<longleftrightarrow> distinct (map fst es) \<and> distinct (map stamp es) \<and> (\<forall>e \<in> set es. stamp e \<le> n)"

definition cache_valid :: "pipeline_cache \<Rightarrow> bool" where
  "cache_valid s \<longleftrightarrow> \<not> pc_dirty s \<and> stamps_ok (pc_counter s) (pc_entries s)"

definition cache_room :: "pipeline_cache \<Rightarrow> nat" where
  "cache_room s = u64_max - pc_counter s"

lemma mset_by_recency [simp]: "mset (by_recency es) = mset es" "set (by_recency es) = set es" "length (by_recency es) = length es"
  by (simp_all add: by_recency_def)

lemma distinct_by_recency [simp]: "distinct (map fst es) \<Longrightarrow> distinct (map fst (by_recency es))"
  using mset_eq_imp_distinct_iff [of "map fst (by_recency es)" "map fst es"] by simp

text \<open>With distinct stamps the order is determined.\<close>

lemma by_recency_unique:
  assumes "distinct (map stamp es)" "mset ys = mset es" "sorted_wrt (\<lambda>a b. stamp b < stamp a) ys"
  shows "by_recency es = ys"
proof -
  have "sort_key stamp es = rev ys"
  proof (rule properties_for_sort_key)
    show "mset (rev ys) = mset es" using assms(2) by simp
    show "sorted (map stamp (rev ys))"
      unfolding sorted_map sorted_wrt_rev using assms(3) by (rule sorted_wrt_mono_rel [rotated]) simp
    fix e
    assume "e \<in> set (rev ys)"
    then have e: "e \<in> set es" using assms(2) by (metis set_mset_mset set_rev)
    have single: "filter (\<lambda>x. stamp e = stamp x) zs = [e]" if "distinct (map stamp zs)" "e \<in> set zs" for zs
      using that
    proof (induction zs)
      case (Cons z zs)
      then show ?case by (cases "z = e") (auto simp: filter_empty_conv image_iff)
    qed simp
    have "distinct (map stamp (rev ys))" using assms(1,2) mset_eq_imp_distinct_iff [of "map stamp ys" "map stamp es"] by (simp add: rev_map [symmetric])
    from single [OF this] single [OF assms(1) e] \<open>e \<in> set (rev ys)\<close>
    show "filter (\<lambda>x. stamp e = stamp x) (rev ys) = filter (\<lambda>x. stamp e = stamp x) es" by simp
  qed
  then show ?thesis by (simp add: by_recency_def)
qed

lemma by_recency_sorted: "distinct (map stamp es) \<Longrightarrow> sorted_wrt (\<lambda>a b. stamp b < stamp a) (by_recency es)"
proof -
  assume "distinct (map stamp es)"
  then have "distinct (map stamp (sort_key stamp es))"
    using mset_eq_imp_distinct_iff [of "map stamp (sort_key stamp es)" "map stamp es"] by simp
  then have "sorted_wrt (<) (map stamp (sort_key stamp es))" by (simp add: strict_sorted_iff)
  then show ?thesis by (simp add: by_recency_def sorted_wrt_rev sorted_wrt_map)
qed

lemma filter_other_keys: "k \<notin> fst ` set xs \<Longrightarrow> filter (\<lambda>e. fst e \<noteq> k) xs = xs"
  by (induction xs) auto

lemma mset_update: "distinct (map fst es) \<Longrightarrow> mset (AList.update k c es) = add_mset (k, c) (mset (filter (\<lambda>e. fst e \<noteq> k) es))"
proof (induction es)
  case (Cons e es)
  show ?case
  proof (cases "fst e = k")
    case True
    then have "filter (\<lambda>e. fst e \<noteq> k) es = es" using Cons.prems by (auto intro!: filter_other_keys)
    with True show ?thesis by (cases e) simp
  qed (use Cons in \<open>cases e; auto\<close>)
qed simp

lemma stamps_ok_update:
  assumes "stamps_ok n es" "ca_touched c = Suc n"
  shows "stamps_ok (Suc n) (AList.update k c es)" "by_recency (AList.update k c es) = (k, c) # filter (\<lambda>e. fst e \<noteq> k) (by_recency es)"
proof -
  have d: "distinct (map fst es)" "distinct (map stamp es)" "\<forall>e \<in> set es. stamp e \<le> n" using assms(1) by (simp_all add: stamps_ok_def)
  have m: "mset (AList.update k c es) = add_mset (k, c) (mset (filter (\<lambda>e. fst e \<noteq> k) es))" by (rule mset_update [OF d(1)])
  have ds: "distinct (map stamp ((k, c) # filter (\<lambda>e. fst e \<noteq> k) es))"
    using d(2,3) assms(2) by (auto simp: distinct_map_filter)
  have "mset (map stamp (AList.update k c es)) = mset (map stamp ((k, c) # filter (\<lambda>e. fst e \<noteq> k) es))" by (simp add: m)
  then have ds': "distinct (map stamp (AList.update k c es))" using ds mset_eq_imp_distinct_iff by blast
  have "set (AList.update k c es) = set_mset (mset (AList.update k c es))" by simp
  then have set: "set (AList.update k c es) = insert (k, c) {e \<in> set es. fst e \<noteq> k}" unfolding m by simp
  show "stamps_ok (Suc n) (AList.update k c es)"
    using d ds' assms(2) distinct_update [OF d(1)] unfolding stamps_ok_def set by auto
  show "by_recency (AList.update k c es) = (k, c) # filter (\<lambda>e. fst e \<noteq> k) (by_recency es)"
  proof (rule by_recency_unique [OF ds'])
    show "mset ((k, c) # filter (\<lambda>e. fst e \<noteq> k) (by_recency es)) = mset (AList.update k c es)" by (simp add: m)
    show "sorted_wrt (\<lambda>a b. stamp b < stamp a) ((k, c) # filter (\<lambda>e. fst e \<noteq> k) (by_recency es))"
      using by_recency_sorted [OF d(2)] d(3) assms(2) by (auto simp: sorted_wrt_filter)
  qed
qed

lemma evict_last:
  assumes "stamps_ok n es" "es \<noteq> []"
  shows "\<exists>k. evict_key es = Some k \<and> by_recency (AList.delete k es) = butlast (by_recency es) \<and> stamps_ok n (AList.delete k es)"
proof -
  have d: "distinct (map fst es)" "distinct (map stamp es)" "\<forall>e \<in> set es. stamp e \<le> n" using assms(1) by (simp_all add: stamps_ok_def)
  let ?m = "hd (sort_key stamp es)" and ?k = "fst (hd (sort_key stamp es))"
  have ne: "sort_key stamp es \<noteq> []" using assms(2) by (metis length_0_conv length_sort)
  then have split: "by_recency es = butlast (by_recency es) @ [?m]" by (simp add: by_recency_def butlast_rev) (metis list.collapse rev.simps(2))
  have del: "AList.delete ?k es = filter (\<lambda>e. fst e \<noteq> ?k) es" by (auto simp: AList.delete_eq intro!: filter_cong)
  have "distinct (map fst (butlast (by_recency es) @ [?m]))" using distinct_by_recency [OF d(1)] split by simp
  then have "filter (\<lambda>e. fst e \<noteq> ?k) (by_recency es) = butlast (by_recency es)"
    by (subst split) (simp add: filter_other_keys)
  moreover have "stamps_ok n (AList.delete ?k es)" using d by (auto simp: stamps_ok_def del distinct_map_filter)
  moreover have "by_recency (AList.delete ?k es) = filter (\<lambda>e. fst e \<noteq> ?k) (by_recency es)"
    using d(2) by (intro by_recency_unique) (auto simp: del distinct_map_filter intro: sorted_wrt_filter by_recency_sorted)
  ultimately show ?thesis using assms(2) by (simp add: evict_key_def)
qed

lemma cache_get_clean:
  "\<not> pc_dirty s \<Longrightarrow> cache_get key s =
     (case map_of (pc_entries s) key of
        None \<Rightarrow> (None, s)
      | Some c \<Rightarrow>
          (Some (ca_value c),
           s\<lparr>pc_entries := AList.update key (c\<lparr>ca_touched := next_stamp s\<rparr>) (pc_entries s), pc_counter := next_stamp s\<rparr>))"
proof -
  assume "\<not> pc_dirty s"
  then have "take_dirty s = (False, s)" by (cases s) (simp add: take_dirty_def)
  then show ?thesis by (simp add: cache_get_def clear_or_look_up_def)
qed

lemma ca_value_simps [simp]: "ca_value (c\<lparr>ca_touched := n\<rparr>) = ca_value c" "ca_value \<lparr>ca_output = a, ca_exit = b, ca_touched = n\<rparr> = (a, b)"
  by (simp_all add: ca_value_def)

lemma by_recency_Nil [simp]: "by_recency [] = []"
  by (simp add: by_recency_def)

lemma next_stamp_room: "0 < cache_room s \<Longrightarrow> next_stamp s = Suc (pc_counter s)"
  by (simp add: next_stamp_def cache_room_def)

lemma map_of_by_recency: "distinct (map fst es) \<Longrightarrow> map_of (by_recency es) = map_of es"
  by (rule map_of_eqI) (auto simp: map_of_eq_Some_iff dest!: map_of_SomeD intro!: map_of_is_SomeI)

lemma cache_recency_lookup:
  assumes "stamps_ok n (pc_entries s)"
  shows "map_of (cache_recency s) k = map_option ca_value (map_of (pc_entries s) k)"
proof -
  have "map_of (map (\<lambda>e. (fst e, ca_value (snd e))) xs) k = map_option ca_value (map_of xs k)" for xs :: "(cache_key \<times> cached_result) list"
    by (induction xs) auto
  then show ?thesis using assms by (simp add: cache_recency_def map_of_by_recency stamps_ok_def)
qed

lemma map_filter_keys:
  "map (\<lambda>e. (fst e, ca_value (snd e))) (filter (\<lambda>e. fst e \<noteq> k) xs) = filter (\<lambda>e. fst e \<noteq> k) (map (\<lambda>e. (fst e, ca_value (snd e))) xs)"
  by (induction xs) auto

lemma get_hit:
  assumes "cache_valid s" "0 < cache_room s" "map_of (pc_entries s) k = Some c"
  shows "fst (cache_get k s) = Some (ca_value c)" "cache_valid (snd (cache_get k s))"
    "cache_recency (snd (cache_get k s)) = touch k (ca_value c) (cache_recency s)" "pc_counter (snd (cache_get k s)) = Suc (pc_counter s)"
proof -
  have s: "\<not> pc_dirty s" "stamps_ok (pc_counter s) (pc_entries s)" using assms(1) by (simp_all add: cache_valid_def)
  let ?c = "c\<lparr>ca_touched := Suc (pc_counter s)\<rparr>"
  have get: "cache_get k s = (Some (ca_value c), s\<lparr>pc_entries := AList.update k ?c (pc_entries s), pc_counter := Suc (pc_counter s)\<rparr>)"
    using s(1) assms(3) next_stamp_room [OF assms(2)] by (simp add: cache_get_clean)
  note u = stamps_ok_update [OF s(2), of ?c k]
  show "fst (cache_get k s) = Some (ca_value c)" "pc_counter (snd (cache_get k s)) = Suc (pc_counter s)" by (simp_all add: get)
  show "cache_valid (snd (cache_get k s))" using s(1) u(1) by (simp add: get cache_valid_def)
  show "cache_recency (snd (cache_get k s)) = touch k (ca_value c) (cache_recency s)"
    using u(2) by (simp add: get cache_recency_def touch_def map_filter_keys)
qed

lemma get_miss: "cache_valid s \<Longrightarrow> map_of (pc_entries s) k = None \<Longrightarrow> cache_get k s = (None, s)"
  by (simp add: cache_valid_def cache_get_clean)

lemma put_entries:
  assumes "cache_valid s" "0 < cache_room s"
  shows "\<exists>kept. stamps_ok (pc_counter s) kept \<and> map (\<lambda>e. (fst e, ca_value (snd e))) (by_recency kept) = make_room (pc_max s) k (cache_recency s)
    \<and> cache_put k v s = s\<lparr>pc_entries := AList.update k \<lparr>ca_output = fst v, ca_exit = snd v, ca_touched = Suc (pc_counter s)\<rparr> kept,
         pc_counter := Suc (pc_counter s)\<rparr>"
proof -
  have s: "stamps_ok (pc_counter s) (pc_entries s)" using assms(1) by (simp add: cache_valid_def)
  have keys: "k \<notin> fst ` set (cache_recency s) \<longleftrightarrow> map_of (pc_entries s) k = None"
    by (simp add: cache_recency_def image_image map_of_eq_None_iff)
  have len: "length (cache_recency s) = length (pc_entries s)" by (simp add: cache_recency_def)
  show ?thesis
  proof (cases "map_of (pc_entries s) k = None \<and> pc_max s \<le> length (pc_entries s) \<and> pc_entries s \<noteq> []")
    case True
    then obtain e where "evict_key (pc_entries s) = Some e" "by_recency (AList.delete e (pc_entries s)) = butlast (by_recency (pc_entries s))"
      "stamps_ok (pc_counter s) (AList.delete e (pc_entries s))" using evict_last [OF s] by blast
    with True keys len next_stamp_room [OF assms(2)] show ?thesis
      by (intro exI [of _ "AList.delete e (pc_entries s)"]) (simp add: cache_put_def Let_def make_room_def cache_recency_def map_butlast)
  next
    case False
    then have "make_room (pc_max s) k (cache_recency s) = cache_recency s" using keys len by (auto simp: make_room_def cache_recency_def)
    moreover have "(if map_of (pc_entries s) k = None \<and> pc_max s \<le> length (pc_entries s)
         then case evict_key (pc_entries s) of Some k \<Rightarrow> AList.delete k (pc_entries s) | None \<Rightarrow> pc_entries s else pc_entries s) = pc_entries s"
      using False by (auto simp: evict_key_def)
    ultimately show ?thesis using s next_stamp_room [OF assms(2)]
      by (intro exI [of _ "pc_entries s"]) (simp add: cache_put_def Let_def cache_recency_def)
  qed
qed

interpretation stamped: lru_cache cache_get cache_put cache_valid cache_room pc_max cache_recency
proof
  fix s k v
  assume v: "cache_valid s"
  then have ok: "stamps_ok (pc_counter s) (pc_entries s)" by (simp add: cache_valid_def)
  then show "distinct (map fst (cache_recency s))" by (simp add: cache_recency_def stamps_ok_def comp_def)
  show "fst (cache_get k s) = map_of (cache_recency s) k"
    using v cache_recency_lookup [OF ok] by (cases "map_of (pc_entries s) k") (simp_all add: get_miss cache_get_clean cache_valid_def)
  assume room: "0 < cache_room s"
  show "cache_recency (snd (cache_get k s)) = (case map_of (cache_recency s) k of Some v \<Rightarrow> touch k v (cache_recency s) | None \<Rightarrow> cache_recency s)"
    using get_hit [OF v room] get_miss [OF v] cache_recency_lookup [OF ok] by (cases "map_of (pc_entries s) k") simp_all
  show "cache_valid (snd (cache_get k s)) \<and> cache_room s - 1 \<le> cache_room (snd (cache_get k s)) \<and> pc_max (snd (cache_get k s)) = pc_max s"
    using get_hit [OF v room] get_miss [OF v] v
    by (cases "map_of (pc_entries s) k") (simp_all add: cache_room_def, simp add: cache_get_clean cache_valid_def split: option.split)
  from put_entries [OF v room, of k v] obtain kept where k: "stamps_ok (pc_counter s) kept"
    "map (\<lambda>e. (fst e, ca_value (snd e))) (by_recency kept) = make_room (pc_max s) k (cache_recency s)"
    and p: "cache_put k v s = s\<lparr>pc_entries := AList.update k \<lparr>ca_output = fst v, ca_exit = snd v, ca_touched = Suc (pc_counter s)\<rparr> kept,
         pc_counter := Suc (pc_counter s)\<rparr>" by blast
  note u = stamps_ok_update [OF k(1), of "\<lparr>ca_output = fst v, ca_exit = snd v, ca_touched = Suc (pc_counter s)\<rparr>" k]
  show "cache_recency (cache_put k v s) = touch k v (make_room (pc_max s) k (cache_recency s))"
    using u(2) k(2) by (simp add: p cache_recency_def touch_def map_filter_keys)
  show "cache_valid (cache_put k v s) \<and> cache_room s - 1 \<le> cache_room (cache_put k v s) \<and> pc_max (cache_put k v s) = pc_max s"
    using u(1) v by (simp add: p cache_valid_def cache_room_def)
qed

section \<open>Properties\<close>

primrec cache_step :: "(cache_key, jvalue \<times> int) cache_op \<Rightarrow> pipeline_cache \<Rightarrow> pipeline_cache" where
  "cache_step (Use k) s = snd (cache_get k s)"
| "cache_step (Store k v) s = cache_put k v s"

lemma cache_step_eq: "stamped.step = cache_step"
proof (intro ext)
  show "stamped.step op s = cache_step op s" for op s by (cases op) simp_all
qed

definition empty_cache :: "nat \<Rightarrow> pipeline_cache" where
  "empty_cache n = \<lparr>pc_entries = [], pc_max = n, pc_counter = 0, pc_dirty = False\<rparr>"

lemma empty_cache_valid: "cache_valid (empty_cache n)" "cache_room (empty_cache n) = u64_max"
  by (simp_all add: empty_cache_def cache_valid_def stamps_ok_def cache_room_def)

text \<open>
  Property C20. The cache forgets the least recently used result: a stored result is found again, with its output and
  exit code, as long as the lookups and stores since then used fewer other keys than the cache may hold, and the cache never holds
  more entries than allowed (one, when none are allowed).
\<close>

theorem stored_result_survives:
  assumes "cache_valid s" "length (pc_entries s) \<le> max 1 (pc_max s)" "length ops < cache_room s"
    and "k \<notin> op_key ` set ops" "card (op_key ` set ops) < pc_max s"
  shows "fst (cache_get k (fold cache_step ops (cache_put k v s))) = Some v
    \<and> length (pc_entries (fold cache_step ops (cache_put k v s))) \<le> pc_max s"
proof -
  have len: "length (cache_recency s) = length (pc_entries s)" for s by (simp add: cache_recency_def)
  have room: "0 < cache_room s" using assms(3) by simp
  note p = stamped.put_valid [OF assms(1) room, of k v]
  have "length (cache_recency (cache_put k v s)) \<le> max 1 (pc_max s)"
    using stamped.put_bounded [OF assms(1) room, of k v] assms(2) by (simp add: len)
  moreover have "length ops \<le> cache_room (cache_put k v s)" using p assms(3) by linarith
  ultimately have "length (pc_entries (fold cache_step ops (cache_put k v s))) \<le> max 1 (pc_max s)"
    using stamped.run_bounded [of "cache_put k v s" ops] p by (simp add: cache_step_eq len)
  moreover have "0 < pc_max s" using assms(5) by simp
  ultimately show ?thesis using stamped.stored_is_found [OF assms(1,3,4,5)] by (simp add: cache_step_eq)
qed

theorem stored_result_survives_witness:
  "fst (cache_get (''x'', ''lint'') (fold cache_step [Store (''x'', ''build'') (JNull, 1), Use (''x'', ''build''), Use (''x'', ''test'')]
     (cache_put (''x'', ''lint'') (JNull, 0) (empty_cache 3)))) = Some (JNull, 0)"
  using stored_result_survives [of "empty_cache 3" "[Store (''x'', ''build'') (JNull, 1), Use (''x'', ''build''), Use (''x'', ''test'')]"
      "(''x'', ''lint'')" "(JNull, 0)"] empty_cache_valid [of 3] by (simp add: empty_cache_def u64_max_def)

text \<open>Observation. After a change of a watched file the next lookup misses, whatever its key, and leaves the cache empty.\<close>

theorem change_invalidates_everything:
  "cache_get k (mark_dirty s) = (None, s\<lparr>pc_dirty := False, pc_entries := []\<rparr>)"
  by (simp add: cache_get_def take_dirty_def clear_or_look_up_def mark_dirty_def)

text \<open>
  Observation. The flag is taken before the lock is held: while one lookup is about to clear the entries, another finds the flag
  down and answers with a result from before the change.
\<close>

theorem stale_hit_while_invalidating:
  assumes "map_of (pc_entries s) k = Some c"
  shows "let (dirty1, s1) = take_dirty (mark_dirty s); (dirty2, s2) = take_dirty s1
    in dirty1 \<and> fst (clear_or_look_up dirty2 k s2) = Some (ca_value c)"
  using assms by (simp add: take_dirty_def mark_dirty_def clear_or_look_up_def)

end
