(* ===== verification/Snapshots.thy ===== *)
theory Snapshots
  imports File_Ops
begin

text \<open>
  Workspace snapshots (src/src/snapshot.rs) and their operations (src/src/ops/snap_ops.rs): full copies of the tracked files of a workspace, with a manifest each.
  The files of a workspace are an association list from relative paths to contents; which of them a directory walk visits (ignore files,
  hidden files) is an argument, as are the identifiers, the clock, UUID parsing, and the faults of copying. Symbolic links inside a
  stored snapshot are given with it.
\<close>

section \<open>Stored snapshots\<close>

record snapshot_meta =
  sm_id :: string
  sm_tag :: "string option"
  sm_created :: string
  sm_file_count :: nat
  sm_total_bytes :: nat

record stored_snapshot =
  ss_manifest :: "(string + snapshot_meta)"
  ss_manifest_link :: bool
  ss_files :: "(string \<times> string) list"
  ss_symlinked :: "string option"
  ss_symlink_inside :: "string option"

record snapshot_store =
  sn_workspace :: "(string \<times> string) list"
  sn_snapshots :: "(string \<times> stored_snapshot) list"
  sn_selected :: bool

definition validate_id :: "(string \<Rightarrow> bool) \<Rightarrow> string \<Rightarrow> snapshot_store \<Rightarrow> string option" where
  "validate_id is_uuid i st = (if sn_selected st \<and> \<not> is_uuid i then Some ''invalid snapshot id'' else None)"

text \<open>The walk never enters \<open>.daimonos\<close> and \<open>.git\<close>; \<open>visits\<close> tells what else it skips, given the files.\<close>

definition skipped_name :: "string \<Rightarrow> bool" where
  "skipped_name c \<longleftrightarrow> c = ''.daimonos'' \<or> c = ''.git''"

definition tracked :: "((string \<times> string) list \<Rightarrow> string \<Rightarrow> bool) \<Rightarrow> (string \<times> string) list \<Rightarrow> string \<Rightarrow> bool" where
  "tracked visits files p \<longleftrightarrow> visits files p \<and> list_all (\<lambda>c. \<not> skipped_name c) (snd (components p))"

definition copy_workspace ::
  "((string \<times> string) list \<Rightarrow> string \<Rightarrow> bool) \<Rightarrow> (string \<times> string) list \<Rightarrow> (string \<times> string) list \<times> nat \<times> nat" where
  "copy_workspace visits files =
     (let copied = filter (\<lambda>(p, c). tracked visits files p) files
      in (copied, length copied, sum_list (map (length \<circ> snd) copied)))"

text \<open>\<open>fault\<close> is the error of the first step that fails; what had been copied by then stays, without a manifest.\<close>

definition snapshot_create ::
  "((string \<times> string) list \<Rightarrow> string \<Rightarrow> bool) \<Rightarrow> string \<Rightarrow> string \<Rightarrow> (string \<times> (string \<times> string) list) option \<Rightarrow> string option \<Rightarrow> snapshot_store
    \<Rightarrow> (string + snapshot_meta) \<times> snapshot_store" where
  "snapshot_create visits new_id now fault tag st =
     (case fault of
        Some (e, partial) \<Rightarrow>
          (Inl e, st\<lparr>sn_snapshots := (new_id, \<lparr>ss_manifest = Inl ''read manifest'', ss_manifest_link = False, ss_files = partial, ss_symlinked = None, ss_symlink_inside = None\<rparr>) # sn_snapshots st\<rparr>)
      | None \<Rightarrow>
          (let (copied, n, b) = copy_workspace visits (sn_workspace st);
               meta = \<lparr>sm_id = new_id, sm_tag = tag, sm_created = now, sm_file_count = n, sm_total_bytes = b\<rparr>
           in (Inr meta, st\<lparr>sn_snapshots := (new_id, \<lparr>ss_manifest = Inr meta, ss_manifest_link = False, ss_files = copied, ss_symlinked = None, ss_symlink_inside = None\<rparr>) # sn_snapshots st\<rparr>)))"

text \<open>Copying in the order of iteration; the first failing copy ends it.\<close>

fun copy_back :: "(string \<Rightarrow> string option) \<Rightarrow> (string \<times> string) list \<Rightarrow> (string \<times> string) list \<Rightarrow> string option \<times> (string \<times> string) list" where
  "copy_back fails [] ws = (None, ws)"
| "copy_back fails ((p, c) # rest) ws =
     (case fails p of Some e \<Rightarrow> (Some (''restore '' @ p @ '': '' @ e), ws) | None \<Rightarrow> copy_back fails rest (AList.update p c ws))"

text \<open>\<open>stays p\<close>: removing the file \<open>p\<close> fails, which is passed over.\<close>

definition restore_workspace ::
  "((string \<times> string) list \<Rightarrow> string \<Rightarrow> bool) \<Rightarrow> ((string \<times> string) list \<Rightarrow> string \<Rightarrow> bool) \<Rightarrow> (string \<Rightarrow> bool) \<Rightarrow> (string \<Rightarrow> string option)
    \<Rightarrow> (string \<times> string) list \<Rightarrow> (string \<times> string) list \<Rightarrow> string option \<times> (string \<times> string) list" where
  "restore_workspace visits snap_visits stays fails snap ws =
     (let snap_set = filter (\<lambda>(p, c). snap_visits snap p) snap;
          removed = filter (\<lambda>(p, c). \<not> (tracked visits ws p \<and> p \<notin> fst ` set snap_set \<and> \<not> stays p)) ws
      in copy_back fails snap_set removed)"

definition snapshot_restore ::
  "(string \<Rightarrow> bool) \<Rightarrow> ((string \<times> string) list \<Rightarrow> string \<Rightarrow> bool) \<Rightarrow> ((string \<times> string) list \<Rightarrow> string \<Rightarrow> bool) \<Rightarrow> (string \<Rightarrow> bool) \<Rightarrow> (string \<Rightarrow> string option)
    \<Rightarrow> string \<Rightarrow> snapshot_store \<Rightarrow> (string + snapshot_meta) \<times> snapshot_store" where
  "snapshot_restore is_uuid visits snap_visits stays fails i st =
     (case validate_id is_uuid i st of
        Some e \<Rightarrow> (Inl e, st)
      | None \<Rightarrow>
          (case map_of (sn_snapshots st) i of
             None \<Rightarrow> (Inl (''snapshot not found: '' @ i), st)
           | Some snap \<Rightarrow>
               if sn_selected st \<and> ss_symlinked snap \<noteq> None
               then (Inl (''snapshot path is a symlink: '' @ the (ss_symlinked snap)), st)
               else case ss_manifest snap of
                      Inl e \<Rightarrow> (Inl e, st)
                    | Inr meta \<Rightarrow>
                        if sn_selected st \<and> ss_symlink_inside snap \<noteq> None
                        then (Inl (''snapshot path is a symlink: '' @ the (ss_symlink_inside snap)), st)
                        else (case restore_workspace visits snap_visits stays fails (ss_files snap) (sn_workspace st) of
                                (Some e, ws) \<Rightarrow> (Inl e, st\<lparr>sn_workspace := ws\<rparr>)
                              | (None, ws) \<Rightarrow> (Inr meta, st\<lparr>sn_workspace := ws\<rparr>))))"

definition snapshot_list :: "snapshot_store \<Rightarrow> string + snapshot_meta list" where
  "snapshot_list st =
     (if sn_selected st \<and> list_ex (\<lambda>(i, s). ss_manifest_link s) (sn_snapshots st) then Inl ''snapshot manifest is a symlink''
      else Inr (rev (sort_key sm_created (rev (List.map_filter (\<lambda>(i, s). case ss_manifest s of Inr m \<Rightarrow> Some m | Inl _ \<Rightarrow> None) (sn_snapshots st))))))"

definition snapshot_delete :: "(string \<Rightarrow> bool) \<Rightarrow> string option \<Rightarrow> string \<Rightarrow> snapshot_store \<Rightarrow> (string + unit) \<times> snapshot_store" where
  "snapshot_delete is_uuid fault i st =
     (case validate_id is_uuid i st of
        Some e \<Rightarrow> (Inl e, st)
      | None \<Rightarrow>
          (case map_of (sn_snapshots st) i of
             None \<Rightarrow> (Inl (''snapshot not found: '' @ i), st)
           | Some _ \<Rightarrow>
               (case fault of
                  Some e \<Rightarrow> (Inl (''delete: '' @ e), st)
                | None \<Rightarrow> (Inr (), st\<lparr>sn_snapshots := AList.delete i (sn_snapshots st)\<rparr>))))"

section \<open>Restoring\<close>

lemma copy_back_all:
  "copy_back fails snap ws = (None, ws') \<Longrightarrow> distinct (map fst snap) \<Longrightarrow> map_of ws' p = (case map_of snap p of Some c \<Rightarrow> Some c | None \<Rightarrow> map_of ws p)"
proof (induction snap arbitrary: ws)
  case (Cons e rest)
  obtain q c where e: "e = (q, c)" by (rule prod.exhaust)
  with Cons.prems have "copy_back fails rest (AList.update q c ws) = (None, ws')" by (cases "fails q") simp_all
  moreover have "map_of rest q = None" using Cons.prems e by (simp add: map_of_eq_None_iff)
  ultimately show ?case using Cons.IH [of "AList.update q c ws"] Cons.prems
    by (cases "p = q") (simp_all add: e update_conv' split: option.split)
qed simp

lemma map_of_filter_keys: "map_of (filter (\<lambda>(p, c). P p) xs) p = (if P p then map_of xs p else None)"
  by (induction xs) auto



text \<open>
  Observation. Restoring is not atomic: a copy that fails leaves a workspace from which the files that are not in the snapshot are
  already removed.
\<close>

theorem failed_restore_has_removed_files:
  "restore_workspace (\<lambda>_ _. True) (\<lambda>_ _. True) (\<lambda>_. False) (\<lambda>_. Some ''disk full'') [(''a'', ''old'')] [(''b'', ''new'')] =
     (Some ''restore a: disk full'', [])"
  by code_simp

section \<open>Identifiers\<close>

text \<open>What a path names when no symbolic link is on it.\<close>

fun lexical :: "string list \<Rightarrow> string list \<Rightarrow> string list" where
  "lexical acc [] = acc"
| "lexical acc (c # cs) = lexical (if c = ''..'' then butlast acc else acc @ [c]) cs"

text \<open>
  Observation. Without a selected state directory an identifier is not checked: the identifier \<open>../..\<close> is accepted and the directory it names, which
  restoring reads and deleting removes, is the workspace itself.
\<close>

theorem unchecked_identifier_names_workspace:
  "validate_id is_uuid ''../..'' \<lparr>sn_workspace = [], sn_snapshots = [], sn_selected = False\<rparr> = None
   \<and> lexical [] (snd (components (path_join (path_join ''/home/w'' ''.daimonos/snapshots'') ''../..''))) = [''home'', ''w'']"
  unfolding validate_id_def by code_simp

end
