(* ===== verification/Spec2Isabelle.thy ===== *)
theory Spec2Isabelle
  imports Tool_Lifecycle Turn Persistence Remote_Auth Agent_Loop Coord_Ops Tool_Runner Pipeline_Cache Snapshots
begin

text \<open>
  The verification library of the daimonos agent runtime.
\<close>

end
